(* ===== verification/Prelude.thy ===== *)
theory Prelude
  imports Main "HOL-Library.Word"
begin

unbundle bit_operations_syntax

text \<open>
  Shared vocabulary of the development: results of code that may throw, octet
  sequences and the typed-array operations the sources use on them
  (\<^verbatim>\<open>web/src/crypto/bytes.ts\<close>, \<^verbatim>\<open>DataView\<close>, \<^verbatim>\<open>subarray\<close>), JavaScript numbers where the
  code tests integrality at run time, and the generic facts the components share.
\<close>

section \<open>Results of code that may throw\<close>

text \<open>
  A thrown error is the left summand and a returned value the right one.
  \<open>bindE\<close> is sequencing: the first error ends the computation.
\<close>

definition bindE :: "'e + 'a \<Rightarrow> ('a \<Rightarrow> 'e + 'b) \<Rightarrow> 'e + 'b" where
  "bindE m k = (case m of Inl e \<Rightarrow> Inl e | Inr a \<Rightarrow> k a)"

definition ensure :: "bool \<Rightarrow> 'e \<Rightarrow> 'e + unit" where
  "ensure b e = (if b then Inr () else Inl e)"

definition is_ok :: "'e + 'a \<Rightarrow> bool" where
  "is_ok m = (case m of Inl _ \<Rightarrow> False | Inr _ \<Rightarrow> True)"

named_theorems res_simps \<open>facts on results of code that may throw\<close>

lemma bindE_Inl [simp]: "bindE (Inl e) k = Inl e"
  by (simp add: bindE_def)

lemma bindE_Inr [simp]: "bindE (Inr a) k = k a"
  by (simp add: bindE_def)

lemma bindE_eq_Inr [res_simps]: "bindE m k = Inr b \<longleftrightarrow> (\<exists>a. m = Inr a \<and> k a = Inr b)"
  by (cases m) simp_all

lemma bindE_eq_Inl [res_simps]:
  "bindE m k = Inl e \<longleftrightarrow> m = Inl e \<or> (\<exists>a. m = Inr a \<and> k a = Inl e)"
  by (cases m) simp_all

lemma ensure_eq_Inr [simp]: "ensure b e = Inr u \<longleftrightarrow> b"
  by (simp add: ensure_def)

lemma ensure_eq_Inl [simp]: "ensure b e = Inl e' \<longleftrightarrow> \<not> b \<and> e' = e"
  by (auto simp add: ensure_def)

lemma ensure_True [simp]: "ensure True e = Inr ()"
  by (simp add: ensure_def)

lemma ensure_False [simp]: "ensure False e = Inl e"
  by (simp add: ensure_def)

lemma is_ok_Inr [simp]: "is_ok (Inr a)"
  by (simp add: is_ok_def)

lemma is_ok_Inl [simp]: "\<not> is_ok (Inl e)"
  by (simp add: is_ok_def)

lemma is_ok_iff [res_simps]: "is_ok m \<longleftrightarrow> (\<exists>a. m = Inr a)"
  by (cases m) simp_all

lemma if_Inl_eq_Inr [res_simps]: "(if b then Inl e else m) = Inr a \<longleftrightarrow> \<not> b \<and> m = Inr a"
  by simp

section \<open>JavaScript numbers\<close>

text \<open>
  Where the code tests \<^verbatim>\<open>Number.isInteger\<close> or \<^verbatim>\<open>Number.isSafeInteger\<close> before it uses a
  \<^verbatim>\<open>number\<close>, the model keeps the two kinds apart: \<open>Integral i\<close> is the integer \<open>i\<close>
  and \<open>Nonintegral\<close> stands for every other number (fractions, infinities, NaN). A
  \<^verbatim>\<open>bigint\<close> is an \<open>int\<close>, and an index or a length of a sequence is a \<open>nat\<close>.
\<close>

datatype js_number = Integral int | Nonintegral

definition max_safe_integer :: int where
  "max_safe_integer = 9007199254740991"

fun is_safe_integer :: "js_number \<Rightarrow> bool" where
  "is_safe_integer (Integral i) = (- max_safe_integer \<le> i \<and> i \<le> max_safe_integer)"
| "is_safe_integer Nonintegral = False"

text \<open>The number a checked or decoded \<^verbatim>\<open>number\<close> field holds.\<close>

fun js_int :: "js_number \<Rightarrow> int" where
  "js_int (Integral i) = i"
| "js_int Nonintegral = 0"

text \<open>\<^verbatim>\<open>Number.isInteger(v) && !(v < lo || v > hi)\<close>.\<close>

fun integer_between :: "int \<Rightarrow> int \<Rightarrow> js_number \<Rightarrow> bool" where
  "integer_between lo hi (Integral i) = (\<not> (i < lo \<or> i > hi))"
| "integer_between lo hi Nonintegral = False"

lemma integer_between_iff: "integer_between lo hi n \<longleftrightarrow> (\<exists>i. n = Integral i \<and> lo \<le> i \<and> i \<le> hi)"
  by (cases n) auto

section \<open>Octet sequences\<close>

type_synonym byte = "8 word"
type_synonym bytes = "8 word list"

text \<open>\<^verbatim>\<open>encoded[i]\<close>: \<^verbatim>\<open>undefined\<close> out of range.\<close>

definition byte_at :: "bytes \<Rightarrow> nat \<Rightarrow> byte option" where
  "byte_at bs i = (if i < length bs then Some (bs ! i) else None)"

text \<open>\<^verbatim>\<open>bs.subarray(a, b)\<close> and \<^verbatim>\<open>bs.slice(a, b)\<close>, clamped to the array as in JavaScript.\<close>

definition subarray :: "nat \<Rightarrow> nat \<Rightarrow> bytes \<Rightarrow> bytes" where
  "subarray a b bs = take (b - a) (drop a bs)"

text \<open>\<^verbatim>\<open>array.set(part, off)\<close>, for a part that fits.\<close>

definition set_at :: "nat \<Rightarrow> bytes \<Rightarrow> bytes \<Rightarrow> bytes" where
  "set_at off part bs = take off bs @ part @ drop (off + length part) bs"

text \<open>\<^verbatim>\<open>TextEncoder.encode\<close> on an ASCII literal.\<close>

definition ascii :: "string \<Rightarrow> bytes" where
  "ascii s = map of_char s"

text \<open>\<^verbatim>\<open>value.some(item => item !== 0)\<close>.\<close>

definition nonzero :: "bytes \<Rightarrow> bool" where
  "nonzero bs = list_ex (\<lambda>b. b \<noteq> 0) bs"

lemma unat_byte: "unat (b :: byte) < 256"
  using unsigned_less [of b] by simp

subsection \<open>Big-endian integers\<close>

text \<open>
  \<open>be_bytes k v\<close> is what \<^verbatim>\<open>DataView.setUint\<close> of \<open>k\<close> octets stores for \<open>v\<close>
  (modulo \<open>256 ^ k\<close>), and \<open>be_value\<close> what the getters read, both big-endian.
\<close>

primrec be_bytes :: "nat \<Rightarrow> nat \<Rightarrow> bytes" where
  "be_bytes 0 v = []"
| "be_bytes (Suc k) v = be_bytes k (v div 256) @ [word_of_nat v]"

definition be_value :: "bytes \<Rightarrow> nat" where
  "be_value bs = foldl (\<lambda>acc b. acc * 256 + unat b) 0 bs"

definition get_uint :: "nat \<Rightarrow> nat \<Rightarrow> bytes \<Rightarrow> nat" where
  "get_uint k off bs = be_value (take k (drop off bs))"

lemma word_of_nat_digit: "word_of_nat (n * 256 + unat b) = (b :: byte)"
proof -
  have "unat (word_of_nat (n * 256 + unat b) :: byte) = unat b"
    using unat_byte [of b] by (simp add: unat_of_nat del: of_nat_add)
  then show ?thesis by (rule word_unat_eq_iff [THEN iffD2])
qed

lemma length_be_bytes [simp]: "length (be_bytes k v) = k"
  by (induction k arbitrary: v) simp_all

lemma be_value_Nil [simp]: "be_value [] = 0"
  by (simp add: be_value_def)

lemma be_value_snoc [simp]: "be_value (bs @ [b]) = be_value bs * 256 + unat b"
  by (simp add: be_value_def)

lemma be_value_be_bytes_mod: "be_value (be_bytes k v) = v mod 256 ^ k"
proof (induction k arbitrary: v)
  case 0
  then show ?case by simp
next
  case (Suc k)
  have "v mod 256 ^ Suc k = v div 256 mod 256 ^ k * 256 + v mod 256"
    by (simp add: mod_mult2_eq mult.commute)
  then show ?case
    by (simp add: Suc.IH unat_of_nat)
qed

lemma be_value_be_bytes [simp]: "v < 256 ^ k \<Longrightarrow> be_value (be_bytes k v) = v"
  by (simp add: be_value_be_bytes_mod)

lemma be_value_bound: "be_value bs < 256 ^ length bs"
proof (induction bs rule: rev_induct)
  case Nil
  then show ?case by simp
next
  case (snoc b bs)
  have "unat b < 256"
    by (rule unat_byte)
  with snoc show ?case by simp
qed

lemma be_bytes_be_value [simp]: "length bs = k \<Longrightarrow> be_bytes k (be_value bs) = bs"
proof (induction bs arbitrary: k rule: rev_induct)
  case Nil
  then show ?case by simp
next
  case (snoc b bs)
  have "unat b < 256"
    by (rule unat_byte)
  then have "(be_value bs * 256 + unat b) div 256 = be_value bs"
    by simp
  moreover have "word_of_nat (be_value bs * 256 + unat b) = b"
    by (rule word_of_nat_digit)
  ultimately show ?case
    using snoc by (auto simp del: of_nat_add)
qed

lemma be_bytes_inj: "u < 256 ^ k \<Longrightarrow> v < 256 ^ k \<Longrightarrow> be_bytes k u = be_bytes k v \<Longrightarrow> u = v"
  by (metis be_value_be_bytes)

subsection \<open>Lengths and slices\<close>

lemma length_subarray [simp]:
  "length (subarray a b bs) = min b (length bs) - a"
  by (auto simp add: subarray_def)

lemma subarray_append_left:
  "b \<le> length xs \<Longrightarrow> subarray a b (xs @ ys) = subarray a b xs"
  by (simp add: subarray_def)

lemma subarray_append_right:
  "length xs \<le> a \<Longrightarrow> subarray a b (xs @ ys) = subarray (a - length xs) (b - length xs) ys"
  by (simp add: subarray_def)

lemma subarray_all: "length bs \<le> b \<Longrightarrow> subarray 0 b bs = bs"
  by (simp add: subarray_def)

lemma subarray_join:
  "a \<le> b \<Longrightarrow> b \<le> c \<Longrightarrow> subarray a b bs @ subarray b c bs = subarray a c bs"
proof -
  assume ab: "a \<le> b" and bc: "b \<le> c"
  have "take (c - a) (drop a bs) =
      take (b - a) (drop a bs) @ take (c - b) (drop (b - a) (drop a bs))"
    using ab bc take_add [of "b - a" "c - b" "drop a bs"] by simp
  with ab show ?thesis by (simp add: subarray_def)
qed

lemma subarray_join_drop:
  "a \<le> b \<Longrightarrow> subarray a b bs @ drop b bs = drop a bs"
  using append_take_drop_id [of "b - a" "drop a bs"] by (simp add: subarray_def)

lemma subarray_is_drop: "length bs \<le> b \<Longrightarrow> subarray a b bs = drop a bs"
  by (simp add: subarray_def)

lemma get_uint_subarray: "get_uint k off bs = be_value (subarray off (off + k) bs)"
  by (simp add: get_uint_def subarray_def)

lemma length_ascii [simp]: "length (ascii s) = length s"
  by (simp add: ascii_def)

lemma nonzero_iff: "nonzero bs \<longleftrightarrow> (\<exists>b\<in>set bs. b \<noteq> 0)"
  by (simp add: nonzero_def list_ex_iff)

section \<open>The byte helpers of crypto/bytes.ts\<close>

text \<open>
  \<^verbatim>\<open>equalBytes\<close> compares in constant time: it accumulates the exclusive or of all
  positions and tests the accumulator once.
\<close>

fun xor_difference :: "byte \<Rightarrow> bytes \<Rightarrow> bytes \<Rightarrow> byte" where
  "xor_difference d (x # xs) (y # ys) = xor_difference (d OR (x XOR y)) xs ys"
| "xor_difference d _ _ = d"

definition equalBytes :: "bytes \<Rightarrow> bytes \<Rightarrow> bool" where
  "equalBytes left right =
     (if length left \<noteq> length right then False else xor_difference 0 left right = 0)"

definition encodeUint32 :: "nat \<Rightarrow> bytes" where
  "encodeUint32 v = be_bytes 4 v"

text \<open>
  \<^verbatim>\<open>concatBytes\<close> allocates the total length and copies each part at its running offset.
\<close>

fun copy_parts :: "bytes \<Rightarrow> nat \<Rightarrow> bytes list \<Rightarrow> bytes" where
  "copy_parts joined off [] = joined"
| "copy_parts joined off (part # parts) = copy_parts (set_at off part joined) (off + length part) parts"

definition concatBytes :: "bytes list \<Rightarrow> bytes" where
  "concatBytes parts = copy_parts (replicate (sum_list (map length parts)) 0) 0 parts"

definition hex_digit :: "nat \<Rightarrow> char" where
  "hex_digit n = (if n < 10 then char_of (48 + n) else char_of (87 + n))"

text \<open>\<^verbatim>\<open>byte.toString(16).padStart(2, '0')\<close>, octet by octet.\<close>

definition bytesToHex :: "bytes \<Rightarrow> string" where
  "bytesToHex bs = concat (map (\<lambda>b. [hex_digit (unat b div 16), hex_digit (unat b mod 16)]) bs)"

lemma byte_xor_zero: "(x :: byte) XOR y = 0 \<longleftrightarrow> x = y"
proof
  assume "x XOR y = 0"
  then have "(x XOR y) XOR y = 0 XOR y" by (rule arg_cong)
  then show "x = y" by (simp add: xor.assoc)
qed simp

lemma xor_difference_zero:
  "length xs = length ys \<Longrightarrow> xor_difference d xs ys = 0 \<longleftrightarrow> d = 0 \<and> xs = ys"
proof (induction d xs ys rule: xor_difference.induct)
  case (1 d x xs y ys)
  have "d OR (x XOR y) = 0 \<longleftrightarrow> d = 0 \<and> x = y"
    by (auto simp add: or_eq_0_iff byte_xor_zero)
  with 1 show ?case by auto
qed auto

lemma equalBytes_iff [simp]: "equalBytes xs ys \<longleftrightarrow> xs = ys"
  by (auto simp add: equalBytes_def xor_difference_zero)

lemma copy_parts_eq:
  "length joined = off + sum_list (map length parts) \<Longrightarrow>
   copy_parts joined off parts = take off joined @ concat parts"
  by (induction joined off parts rule: copy_parts.induct) (simp_all add: set_at_def)

lemma concatBytes_eq [simp]: "concatBytes parts = concat parts"
  by (simp add: concatBytes_def copy_parts_eq)

lemma length_encodeUint32 [simp]: "length (encodeUint32 v) = 4"
  by (simp add: encodeUint32_def)

end
