(* ===== verification/Wire.thy ===== *)
theory Wire
  imports Prelude
begin

text \<open>
  What the wire codecs share: the contract of an encoder/decoder pair as a locale, interpreted by every pair
  of the relay codecs in their own theories, and facts on fields read at an offset.
\<close>

section \<open>Codec laws\<close>

text \<open>
  The contract of an encoder and a decoder of one frame type: what is encoded decodes to
  the same frame, and what decodes is the encoding of the decoded frame, so that a frame has
  exactly one wire form. Neither law has a well-formedness side condition: the encoder's own
  guards are the frame's well-formedness.
\<close>

locale frame_codec =
  fixes enc :: "'f \<Rightarrow> 'e + bytes" and dec :: "bytes \<Rightarrow> 'e + 'f"
  assumes enc_dec: "enc f = Inr b \<Longrightarrow> dec b = Inr f"
    and dec_enc: "dec b = Inr f \<Longrightarrow> enc f = Inr b"
begin

lemma round_trip: "enc f = Inr b \<longleftrightarrow> dec b = Inr f"
  using enc_dec dec_enc by blast

lemma enc_inj: "enc f = Inr b \<Longrightarrow> enc g = Inr b \<Longrightarrow> f = g"
  using enc_dec [of f b] enc_dec [of g b] by simp

lemma dec_inj: "dec b = Inr f \<Longrightarrow> dec c = Inr f \<Longrightarrow> b = c"
  using dec_enc [of b f] dec_enc [of c f] by simp

lemma accepts_iff: "is_ok (dec b) \<longleftrightarrow> (\<exists>f. enc f = Inr b)"
  using round_trip by (auto simp add: is_ok_iff)

end

text \<open>A codec whose frames all open with the same four octets.\<close>

locale tagged_codec = frame_codec enc dec
  for enc :: "'f \<Rightarrow> 'e + bytes" and dec :: "bytes \<Rightarrow> 'e + 'f" +
  fixes magic :: string
  assumes enc_magic: "enc f = Inr b \<Longrightarrow> subarray 0 4 b = ascii magic"
begin

lemma dec_magic: "dec b = Inr f \<Longrightarrow> subarray 0 4 b = ascii magic"
  using dec_enc enc_magic by blast

lemma dec_rejects: "subarray 0 4 b \<noteq> ascii magic \<Longrightarrow> \<not> is_ok (dec b)"
  using dec_magic by (auto simp add: is_ok_iff)

end

section \<open>Fields at an offset\<close>

lemmas slice_simps = subarray_join_drop subarray_is_drop

lemma be_bytes_get_uint: "off + k \<le> length bs \<Longrightarrow> be_bytes k (get_uint k off bs) = subarray off (off + k) bs"
  by (simp add: get_uint_def subarray_def)

lemma get_uint_bound: "off + k \<le> length bs \<Longrightarrow> get_uint k off bs < 256 ^ k"
  using be_value_bound [of "take k (drop off bs)"] by (simp add: get_uint_def min_absorb2)

lemma get_uint_append [simp]:
  "length xs = off \<Longrightarrow> v < 256 ^ k \<Longrightarrow> get_uint k off (xs @ be_bytes k v @ ys) = v"
  by (simp add: get_uint_def)

lemma length_field:
  "off + 4 + get_uint 4 off bs = length bs \<Longrightarrow>
   be_bytes 4 (length bs - (off + 4)) = subarray off (off + 4) bs"
  using be_bytes_get_uint [of off 4 bs] by (metis add_diff_cancel_left' le_add1)

lemma subarray_two:
  "i + 2 \<le> length bs \<Longrightarrow> byte_at bs i = Some x \<Longrightarrow> byte_at bs (Suc i) = Some y \<Longrightarrow>
   subarray i (i + 2) bs = [x, y]"
  by (auto simp add: subarray_def byte_at_def take_Suc_conv_app_nth numeral_2_eq_2 nth_drop)

lemma nonzero_replicate: "nonzero (replicate n b) \<longleftrightarrow> 0 < n \<and> b \<noteq> 0"
  by (auto simp add: nonzero_iff)

end
