(* ===== verification/Relay_Protocol.thy ===== *)
theory Relay_Protocol
  imports Wire
begin

text \<open>
  The relay wire codec, \<^verbatim>\<open>web/src/transport/relay/protocol.ts\<close>: one record per frame
  type of \<^verbatim>\<open>protocol-types.ts\<close>, one encoder and one decoder per frame, with the guards of
  the source in the order of the source. A thrown \<^verbatim>\<open>RelayProtocolError\<close> is its kind;
  the message text is not kept. SHA-256 is the argument \<open>sha\<close> (it is computed by the
  browser's cryptography runtime). Every encoder/decoder pair of the file is an interpretation of
  the contract \<open>frame_codec\<close>.
\<close>

section \<open>Constants and helpers\<close>

datatype relay_error_kind = Identity | Malformed | Mode | Purpose

definition RELAY_WIRE_VERSION :: nat where "RELAY_WIRE_VERSION = 2"
definition RELAY_MAX_DESCRIPTOR_BYTES :: nat where "RELAY_MAX_DESCRIPTOR_BYTES = 16384"
definition RELAY_MAX_OPAQUE_CIPHERTEXT_BYTES :: nat where
  "RELAY_MAX_OPAQUE_CIPHERTEXT_BYTES = 65536"
definition RELAY_OPAQUE_ROUTE_HEADER_BYTES :: nat where "RELAY_OPAQUE_ROUTE_HEADER_BYTES = 20"
definition RELAY_SESSION_ID_BYTES :: nat where "RELAY_SESSION_ID_BYTES = 8"
definition RELAY_SENDER_WINDOW_FRAMES :: int where "RELAY_SENDER_WINDOW_FRAMES = 64"
definition RELAY_SENDER_WINDOW_BYTES :: int where "RELAY_SENDER_WINDOW_BYTES = 4194304"
definition MAX_UINT64 :: int where "MAX_UINT64 = 0xffffffffffffffff"

definition REGISTRATION_fresh :: int where "REGISTRATION_fresh = 0"
definition REGISTRATION_resume :: int where "REGISTRATION_resume = 1"
definition PURPOSE_register :: int where "PURPOSE_register = 0"
definition PURPOSE_resume :: int where "PURPOSE_resume = 1"
definition PURPOSE_stop :: int where "PURPOSE_stop = 2"

definition SHARE_ID_DOMAIN :: bytes where
  "SHARE_ID_DOMAIN = ascii ''windshare/v2 share-id'' @ [0]"
definition REGISTER_DOMAIN :: bytes where
  "REGISTER_DOMAIN = ascii ''windshare/v2 relay-register'' @ [0]"
definition RESUME_DOMAIN :: bytes where
  "RESUME_DOMAIN = ascii ''windshare/v2 relay-resume'' @ [0]"
definition STOP_DOMAIN :: bytes where
  "STOP_DOMAIN = ascii ''windshare/v2 relay-stop'' @ [0]"

lemmas relay_constants =
  RELAY_WIRE_VERSION_def RELAY_MAX_DESCRIPTOR_BYTES_def RELAY_MAX_OPAQUE_CIPHERTEXT_BYTES_def
  RELAY_OPAQUE_ROUTE_HEADER_BYTES_def RELAY_SESSION_ID_BYTES_def RELAY_SENDER_WINDOW_FRAMES_def
  RELAY_SENDER_WINDOW_BYTES_def MAX_UINT64_def REGISTRATION_fresh_def REGISTRATION_resume_def
  PURPOSE_register_def PURPOSE_resume_def PURPOSE_stop_def

definition requireBytes :: "bytes \<Rightarrow> nat \<Rightarrow> bool \<Rightarrow> relay_error_kind + bytes" where
  "requireBytes value len requireNonzero =
     (if length value \<noteq> len \<or> (requireNonzero \<and> \<not> nonzero value) then Inl Identity
      else Inr value)"

definition requireMode :: "int \<Rightarrow> relay_error_kind + int" where
  "requireMode mode =
     (if mode \<noteq> REGISTRATION_fresh \<and> mode \<noteq> REGISTRATION_resume then Inl Mode else Inr mode)"

definition requirePurpose :: "int \<Rightarrow> relay_error_kind + int" where
  "requirePurpose purpose =
     (if purpose < PURPOSE_register \<or> purpose > PURPOSE_stop then Inl Purpose else Inr purpose)"

definition encodeUint16 :: "nat \<Rightarrow> bytes" where
  "encodeUint16 v = be_bytes 2 v"

definition encodeUint64 :: "int \<Rightarrow> relay_error_kind + bytes" where
  "encodeUint64 v = (if v < 0 \<or> v > MAX_UINT64 then Inl Malformed else Inr (be_bytes 8 (nat v)))"

definition frame_prefix :: "string \<Rightarrow> int \<Rightarrow> bytes" where
  "frame_prefix magic discriminator =
     concatBytes [ascii magic, [of_nat RELAY_WIRE_VERSION, word_of_int discriminator, 0, 0]]"

definition reservedPrefix :: "string \<Rightarrow> bytes" where
  "reservedPrefix magic = frame_prefix magic 0"

definition validPrefix :: "bytes \<Rightarrow> string \<Rightarrow> byte option \<Rightarrow> bool" where
  "validPrefix encoded magic discriminator =
     (equalBytes (subarray 0 4 encoded) (ascii magic) \<and>
      byte_at encoded 4 = Some (of_nat RELAY_WIRE_VERSION) \<and>
      (case discriminator of None \<Rightarrow> byte_at encoded 5 = Some 0
       | Some d \<Rightarrow> byte_at encoded 5 = Some d) \<and>
      byte_at encoded 6 = Some 0 \<and>
      byte_at encoded 7 = Some 0)"

text \<open>\<^verbatim>\<open>encoded[5] ?? -1\<close>.\<close>

definition discriminator_of :: "bytes \<Rightarrow> int" where
  "discriminator_of encoded = (case byte_at encoded 5 of None \<Rightarrow> -1 | Some d \<Rightarrow> uint d)"

definition validateRouteIdentity ::
  "(bytes \<Rightarrow> bytes) \<Rightarrow> bytes \<Rightarrow> bytes \<Rightarrow> relay_error_kind + unit" where
  "validateRouteIdentity sha shareId pkHash =
     bindE (requireBytes shareId 12 False) (\<lambda>_.
     bindE (requireBytes pkHash 16 False) (\<lambda>_.
     let expected = subarray 0 12 (sha (concatBytes [SHARE_ID_DOMAIN, pkHash])) in
     if \<not> equalBytes expected shareId then Inl Identity else Inr ()))"

section \<open>Frames\<close>

record register_init =
  ri_mode :: int
  ri_shareId :: bytes
  ri_shareInstance :: bytes
  ri_pkHash :: bytes
  ri_descriptorDigest :: bytes
  ri_resumeTokenHash :: bytes

record challenge =
  ch_purpose :: int
  ch_id :: bytes
  ch_nonce :: bytes
  ch_expiresAtUnixSeconds :: int

record register_proof =
  rp_mode :: int
  rp_senderPublicKey :: bytes
  rp_signature :: bytes

record stop_init =
  si_shareId :: bytes
  si_shareInstance :: bytes
  si_pkHash :: bytes
  si_relayIdentity :: bytes
  si_stopId :: bytes

record stop_proof =
  sp_senderPublicKey :: bytes
  sp_signature :: bytes

record registered =
  rg_shareId :: bytes
  rg_shareInstance :: bytes
  rg_descriptorDigest :: bytes

record descriptor_delivery =
  dd_relaySessionId :: bytes
  dd_object :: bytes

record opaque_route =
  or_relaySessionId :: bytes
  or_ciphertext :: bytes

record session_retired =
  sr_relaySessionId :: bytes

record session_admitted =
  sa_relaySessionId :: bytes

record session_credit =
  sc_relaySessionId :: bytes
  sc_frames :: js_number
  sc_bytes :: js_number

record relay_error_frame =
  re_code :: int
  re_retryAfterMilliseconds :: js_number

subsection \<open>Registration\<close>

definition encodeRegisterInit ::
  "(bytes \<Rightarrow> bytes) \<Rightarrow> register_init \<Rightarrow> relay_error_kind + bytes" where
  "encodeRegisterInit sha frame =
     bindE (requireMode (ri_mode frame)) (\<lambda>mode.
     bindE (validateRouteIdentity sha (ri_shareId frame) (ri_pkHash frame)) (\<lambda>_.
     bindE (requireBytes (ri_shareInstance frame) 16 True) (\<lambda>inst.
     bindE (requireBytes (ri_descriptorDigest frame) 32 False) (\<lambda>digest.
     bindE (requireBytes (ri_resumeTokenHash frame) 32 False) (\<lambda>token.
     Inr (concatBytes [frame_prefix ''WS2R'' mode, ri_shareId frame, inst, ri_pkHash frame,
       digest, token]))))))"

definition decodeRegisterInit ::
  "(bytes \<Rightarrow> bytes) \<Rightarrow> bytes \<Rightarrow> relay_error_kind + register_init" where
  "decodeRegisterInit sha encoded =
     (if length encoded \<noteq> 116 \<or> \<not> validPrefix encoded ''WS2R'' (byte_at encoded 5)
      then Inl Malformed
      else bindE (requireMode (discriminator_of encoded)) (\<lambda>mode.
           bindE (requireBytes (subarray 20 36 encoded) 16 True) (\<lambda>inst.
           let frame = \<lparr>ri_mode = mode, ri_shareId = subarray 8 20 encoded,
             ri_shareInstance = inst, ri_pkHash = subarray 36 52 encoded,
             ri_descriptorDigest = subarray 52 84 encoded,
             ri_resumeTokenHash = subarray 84 116 encoded\<rparr> in
           bindE (validateRouteIdentity sha (ri_shareId frame) (ri_pkHash frame)) (\<lambda>_.
           Inr frame))))"

definition encodeChallenge :: "challenge \<Rightarrow> relay_error_kind + bytes" where
  "encodeChallenge frame =
     bindE (requirePurpose (ch_purpose frame)) (\<lambda>purpose.
     if ch_expiresAtUnixSeconds frame = 0 then Inl Identity else
     bindE (requireBytes (ch_id frame) 16 True) (\<lambda>cid.
     bindE (requireBytes (ch_nonce frame) 32 True) (\<lambda>nonce.
     bindE (encodeUint64 (ch_expiresAtUnixSeconds frame)) (\<lambda>expiry.
     Inr (concatBytes [frame_prefix ''WS2Q'' purpose, cid, nonce, expiry])))))"

definition decodeChallenge :: "bytes \<Rightarrow> relay_error_kind + challenge" where
  "decodeChallenge encoded =
     (if length encoded \<noteq> 64 \<or> \<not> validPrefix encoded ''WS2Q'' (byte_at encoded 5)
      then Inl Malformed
      else bindE (requirePurpose (discriminator_of encoded)) (\<lambda>purpose.
           bindE (requireBytes (subarray 8 24 encoded) 16 True) (\<lambda>cid.
           bindE (requireBytes (subarray 24 56 encoded) 32 True) (\<lambda>nonce.
           let frame = \<lparr>ch_purpose = purpose, ch_id = cid, ch_nonce = nonce,
             ch_expiresAtUnixSeconds = int (get_uint 8 56 encoded)\<rparr> in
           if ch_expiresAtUnixSeconds frame = 0 then Inl Identity else Inr frame))))"

definition purposeForMode :: "int \<Rightarrow> int" where
  "purposeForMode mode = (if mode = REGISTRATION_fresh then PURPOSE_register else PURPOSE_resume)"

definition registrationProofPreimage ::
  "(bytes \<Rightarrow> bytes) \<Rightarrow> register_init \<Rightarrow> challenge \<Rightarrow> bytes \<Rightarrow> relay_error_kind + bytes" where
  "registrationProofPreimage sha init chal relayIdentity =
     bindE (encodeRegisterInit sha init) (\<lambda>_.
     if ch_purpose chal \<noteq> purposeForMode (ri_mode init) then Inl Purpose else
     bindE (encodeChallenge chal) (\<lambda>_.
     bindE (requireBytes relayIdentity 32 True) (\<lambda>relay.
     bindE (encodeUint64 (ch_expiresAtUnixSeconds chal)) (\<lambda>expiry.
     Inr (concatBytes [
       (if ri_mode init = REGISTRATION_fresh then REGISTER_DOMAIN else RESUME_DOMAIN),
       ri_shareId init, ri_shareInstance init, ri_pkHash init, ri_descriptorDigest init,
       ri_resumeTokenHash init, relay, ch_id chal, ch_nonce chal, expiry])))))"

definition encodeRegisterProof :: "register_proof \<Rightarrow> relay_error_kind + bytes" where
  "encodeRegisterProof frame =
     bindE (requireMode (rp_mode frame)) (\<lambda>mode.
     bindE (requireBytes (rp_senderPublicKey frame) 32 True) (\<lambda>pk.
     bindE (requireBytes (rp_signature frame) 64 True) (\<lambda>sig.
     Inr (concatBytes [frame_prefix ''WS2P'' mode, pk, sig]))))"

definition decodeRegisterProof :: "bytes \<Rightarrow> relay_error_kind + register_proof" where
  "decodeRegisterProof encoded =
     (if length encoded \<noteq> 104 \<or> \<not> validPrefix encoded ''WS2P'' (byte_at encoded 5)
      then Inl Malformed
      else bindE (requireMode (discriminator_of encoded)) (\<lambda>mode.
           bindE (requireBytes (subarray 8 40 encoded) 32 True) (\<lambda>pk.
           bindE (requireBytes (drop 40 encoded) 64 True) (\<lambda>sig.
           Inr \<lparr>rp_mode = mode, rp_senderPublicKey = pk, rp_signature = sig\<rparr>))))"

definition encodeResumeCredential :: "bytes \<Rightarrow> relay_error_kind + bytes" where
  "encodeResumeCredential token =
     bindE (requireBytes token 32 True) (\<lambda>t. Inr (concatBytes [reservedPrefix ''WS2T'', t]))"

definition decodeResumeCredential :: "bytes \<Rightarrow> relay_error_kind + bytes" where
  "decodeResumeCredential encoded =
     (if length encoded \<noteq> 40 \<or> \<not> validPrefix encoded ''WS2T'' None then Inl Malformed
      else requireBytes (drop 8 encoded) 32 True)"

subsection \<open>Revocation\<close>

definition encodeStopInit ::
  "(bytes \<Rightarrow> bytes) \<Rightarrow> stop_init \<Rightarrow> relay_error_kind + bytes" where
  "encodeStopInit sha frame =
     bindE (validateRouteIdentity sha (si_shareId frame) (si_pkHash frame)) (\<lambda>_.
     bindE (requireBytes (si_shareInstance frame) 16 True) (\<lambda>inst.
     bindE (requireBytes (si_relayIdentity frame) 32 True) (\<lambda>relay.
     bindE (requireBytes (si_stopId frame) 16 True) (\<lambda>stop.
     Inr (concatBytes [reservedPrefix ''WS2X'', si_shareId frame, inst, si_pkHash frame,
       relay, stop])))))"

definition decodeStopInit ::
  "(bytes \<Rightarrow> bytes) \<Rightarrow> bytes \<Rightarrow> relay_error_kind + stop_init" where
  "decodeStopInit sha encoded =
     (if length encoded \<noteq> 100 \<or> \<not> validPrefix encoded ''WS2X'' None then Inl Malformed
      else bindE (requireBytes (subarray 20 36 encoded) 16 True) (\<lambda>inst.
           bindE (requireBytes (subarray 52 84 encoded) 32 True) (\<lambda>relay.
           bindE (requireBytes (drop 84 encoded) 16 True) (\<lambda>stop.
           let frame = \<lparr>si_shareId = subarray 8 20 encoded, si_shareInstance = inst,
             si_pkHash = subarray 36 52 encoded, si_relayIdentity = relay, si_stopId = stop\<rparr> in
           bindE (validateRouteIdentity sha (si_shareId frame) (si_pkHash frame)) (\<lambda>_.
           Inr frame)))))"

definition stopProofPreimage ::
  "(bytes \<Rightarrow> bytes) \<Rightarrow> stop_init \<Rightarrow> challenge \<Rightarrow> relay_error_kind + bytes" where
  "stopProofPreimage sha init chal =
     bindE (encodeStopInit sha init) (\<lambda>_.
     if ch_purpose chal \<noteq> PURPOSE_stop then Inl Purpose else
     bindE (encodeChallenge chal) (\<lambda>_.
     bindE (encodeUint64 (ch_expiresAtUnixSeconds chal)) (\<lambda>expiry.
     Inr (concatBytes [STOP_DOMAIN, si_shareId init, si_shareInstance init, si_pkHash init,
       si_relayIdentity init, si_stopId init, ch_id chal, ch_nonce chal, expiry]))))"

definition encodeStopProof :: "stop_proof \<Rightarrow> relay_error_kind + bytes" where
  "encodeStopProof frame =
     bindE (requireBytes (sp_senderPublicKey frame) 32 True) (\<lambda>pk.
     bindE (requireBytes (sp_signature frame) 64 True) (\<lambda>sig.
     Inr (concatBytes [reservedPrefix ''WS2V'', pk, sig])))"

definition decodeStopProof :: "bytes \<Rightarrow> relay_error_kind + stop_proof" where
  "decodeStopProof encoded =
     (if length encoded \<noteq> 104 \<or> \<not> validPrefix encoded ''WS2V'' None then Inl Malformed
      else bindE (requireBytes (subarray 8 40 encoded) 32 True) (\<lambda>pk.
           bindE (requireBytes (drop 40 encoded) 64 True) (\<lambda>sig.
           Inr \<lparr>sp_senderPublicKey = pk, sp_signature = sig\<rparr>)))"

definition encodeRegistered :: "registered \<Rightarrow> relay_error_kind + bytes" where
  "encodeRegistered frame =
     bindE (requireBytes (rg_shareId frame) 12 True) (\<lambda>share.
     bindE (requireBytes (rg_shareInstance frame) 16 True) (\<lambda>inst.
     bindE (requireBytes (rg_descriptorDigest frame) 32 False) (\<lambda>digest.
     Inr (concatBytes [reservedPrefix ''WS2K'', share, inst, digest]))))"

definition decodeRegistered :: "bytes \<Rightarrow> relay_error_kind + registered" where
  "decodeRegistered encoded =
     (if length encoded \<noteq> 68 \<or> \<not> validPrefix encoded ''WS2K'' None then Inl Malformed
      else bindE (requireBytes (subarray 8 20 encoded) 12 True) (\<lambda>share.
           bindE (requireBytes (subarray 20 36 encoded) 16 True) (\<lambda>inst.
           Inr \<lparr>rg_shareId = share, rg_shareInstance = inst,
             rg_descriptorDigest = drop 36 encoded\<rparr>)))"

definition encodeStopped :: "bytes \<Rightarrow> relay_error_kind + bytes" where
  "encodeStopped stopId =
     bindE (requireBytes stopId 16 True) (\<lambda>s. Inr (concatBytes [reservedPrefix ''WS2Y'', s]))"

definition decodeStopped :: "bytes \<Rightarrow> relay_error_kind + bytes" where
  "decodeStopped encoded =
     (if length encoded \<noteq> 24 \<or> \<not> validPrefix encoded ''WS2Y'' None then Inl Malformed
      else requireBytes (drop 8 encoded) 16 True)"

subsection \<open>Joining and descriptors\<close>

definition encodeJoin :: "bytes \<Rightarrow> relay_error_kind + bytes" where
  "encodeJoin shareId =
     bindE (requireBytes shareId 12 True) (\<lambda>s. Inr (concatBytes [reservedPrefix ''WS2J'', s]))"

definition decodeJoin :: "bytes \<Rightarrow> relay_error_kind + bytes" where
  "decodeJoin encoded =
     (if length encoded \<noteq> 20 \<or> \<not> validPrefix encoded ''WS2J'' None then Inl Malformed
      else requireBytes (drop 8 encoded) 12 True)"

definition encodeVariable ::
  "string \<Rightarrow> bytes option \<Rightarrow> bytes \<Rightarrow> relay_error_kind + bytes" where
  "encodeVariable magic relaySessionId obj =
     (if length obj = 0 \<or> length obj > RELAY_MAX_DESCRIPTOR_BYTES then Inl Malformed
      else bindE (case relaySessionId of None \<Rightarrow> Inr [] | Some s \<Rightarrow> requireBytes s 8 True) (\<lambda>identity.
           Inr (concatBytes [reservedPrefix magic, identity, encodeUint32 (length obj), obj])))"

definition decodeVariable :: "bytes \<Rightarrow> string \<Rightarrow> nat \<Rightarrow> relay_error_kind + bytes" where
  "decodeVariable encoded magic headerBytes =
     (if length encoded < headerBytes \<or> \<not> validPrefix encoded magic None then Inl Malformed
      else let len = get_uint 4 (headerBytes - 4) encoded in
           if len = 0 \<or> len > RELAY_MAX_DESCRIPTOR_BYTES \<or> headerBytes + len \<noteq> length encoded
           then Inl Malformed else Inr (drop headerBytes encoded))"

definition encodeDescriptorUpload :: "bytes \<Rightarrow> relay_error_kind + bytes" where
  "encodeDescriptorUpload obj = encodeVariable ''WS2U'' None obj"

definition decodeDescriptorUpload :: "bytes \<Rightarrow> relay_error_kind + bytes" where
  "decodeDescriptorUpload encoded = decodeVariable encoded ''WS2U'' 12"

definition encodeDescriptorDelivery :: "descriptor_delivery \<Rightarrow> relay_error_kind + bytes" where
  "encodeDescriptorDelivery frame =
     encodeVariable ''WS2D'' (Some (dd_relaySessionId frame)) (dd_object frame)"

definition decodeDescriptorDelivery :: "bytes \<Rightarrow> relay_error_kind + descriptor_delivery" where
  "decodeDescriptorDelivery encoded =
     (if length encoded < 20 \<or> \<not> validPrefix encoded ''WS2D'' None then Inl Malformed
      else bindE (requireBytes (subarray 8 16 encoded) 8 True) (\<lambda>sid.
           bindE (decodeVariable encoded ''WS2D'' 20) (\<lambda>obj.
           Inr \<lparr>dd_relaySessionId = sid, dd_object = obj\<rparr>)))"

subsection \<open>Session frames\<close>

definition encodeOpaqueRoute :: "opaque_route \<Rightarrow> relay_error_kind + bytes" where
  "encodeOpaqueRoute frame =
     (if length (or_ciphertext frame) = 0 \<or>
         length (or_ciphertext frame) > RELAY_MAX_OPAQUE_CIPHERTEXT_BYTES then Inl Malformed
      else bindE (requireBytes (or_relaySessionId frame) 8 True) (\<lambda>sid.
           Inr (concatBytes [reservedPrefix ''WS2O'', sid,
             encodeUint32 (length (or_ciphertext frame)), or_ciphertext frame])))"

definition decodeOpaqueRoute :: "bytes \<Rightarrow> relay_error_kind + opaque_route" where
  "decodeOpaqueRoute encoded =
     (if length encoded < RELAY_OPAQUE_ROUTE_HEADER_BYTES \<or> \<not> validPrefix encoded ''WS2O'' None
      then Inl Malformed
      else let len = get_uint 4 16 encoded in
           if len = 0 \<or> len > RELAY_MAX_OPAQUE_CIPHERTEXT_BYTES \<or>
              RELAY_OPAQUE_ROUTE_HEADER_BYTES + len \<noteq> length encoded then Inl Malformed
           else bindE (requireBytes (subarray 8 16 encoded) 8 True) (\<lambda>sid.
                Inr \<lparr>or_relaySessionId = sid,
                  or_ciphertext = drop RELAY_OPAQUE_ROUTE_HEADER_BYTES encoded\<rparr>))"

definition encodeSessionRetired :: "session_retired \<Rightarrow> relay_error_kind + bytes" where
  "encodeSessionRetired frame =
     bindE (requireBytes (sr_relaySessionId frame) RELAY_SESSION_ID_BYTES True) (\<lambda>s.
     Inr (concatBytes [reservedPrefix ''WS2F'', s]))"

definition decodeSessionRetired :: "bytes \<Rightarrow> relay_error_kind + session_retired" where
  "decodeSessionRetired encoded =
     (if length encoded \<noteq> 16 \<or> \<not> validPrefix encoded ''WS2F'' None then Inl Malformed
      else bindE (requireBytes (drop 8 encoded) RELAY_SESSION_ID_BYTES True) (\<lambda>s.
           Inr \<lparr>sr_relaySessionId = s\<rparr>))"

fun window_count :: "js_number \<Rightarrow> int \<Rightarrow> bool" where
  "window_count (Integral i) limit = (\<not> (i < 0 \<or> i > limit))"
| "window_count Nonintegral limit = False"

definition encodeSessionCredit :: "session_credit \<Rightarrow> relay_error_kind + bytes" where
  "encodeSessionCredit frame =
     (if \<not> window_count (sc_frames frame) RELAY_SENDER_WINDOW_FRAMES \<or>
         \<not> window_count (sc_bytes frame) RELAY_SENDER_WINDOW_BYTES \<or>
         (sc_frames frame = Integral 0 \<and> sc_bytes frame = Integral 0) then Inl Malformed
      else bindE (requireBytes (sc_relaySessionId frame) RELAY_SESSION_ID_BYTES True) (\<lambda>sid.
           Inr (concatBytes [reservedPrefix ''WS2W'', sid,
             encodeUint32 (nat (js_int (sc_frames frame))),
             encodeUint32 (nat (js_int (sc_bytes frame)))])))"

definition decodeSessionCredit :: "bytes \<Rightarrow> relay_error_kind + session_credit" where
  "decodeSessionCredit encoded =
     (if length encoded \<noteq> 24 \<or> \<not> validPrefix encoded ''WS2W'' None then Inl Malformed
      else bindE (requireBytes (subarray 8 16 encoded) RELAY_SESSION_ID_BYTES True) (\<lambda>sid.
           let frame = \<lparr>sc_relaySessionId = sid, sc_frames = Integral (int (get_uint 4 16 encoded)),
             sc_bytes = Integral (int (get_uint 4 20 encoded))\<rparr> in
           bindE (encodeSessionCredit frame) (\<lambda>_. Inr frame)))"

definition encodeSessionAdmitted :: "session_admitted \<Rightarrow> relay_error_kind + bytes" where
  "encodeSessionAdmitted frame =
     bindE (requireBytes (sa_relaySessionId frame) RELAY_SESSION_ID_BYTES True) (\<lambda>s.
     Inr (concatBytes [reservedPrefix ''WS2M'', s]))"

definition decodeSessionAdmitted :: "bytes \<Rightarrow> relay_error_kind + session_admitted" where
  "decodeSessionAdmitted encoded =
     (if length encoded \<noteq> 16 \<or> \<not> validPrefix encoded ''WS2M'' None then Inl Malformed
      else bindE (requireBytes (drop 8 encoded) RELAY_SESSION_ID_BYTES True) (\<lambda>s.
           Inr \<lparr>sa_relaySessionId = s\<rparr>))"

subsection \<open>Connection probes and relay errors\<close>

definition CONNECTION_PROBE_MAGIC :: string where "CONNECTION_PROBE_MAGIC = ''WS2H''"
definition CONNECTION_PROBE_ACK_MAGIC :: string where "CONNECTION_PROBE_ACK_MAGIC = ''WS2A''"

definition encodeProbeFrame :: "string \<Rightarrow> int \<Rightarrow> relay_error_kind + bytes" where
  "encodeProbeFrame magic nonce =
     (if nonce = 0 then Inl Identity
      else bindE (encodeUint64 nonce) (\<lambda>n. Inr (concatBytes [reservedPrefix magic, n])))"

definition decodeProbeFrame :: "bytes \<Rightarrow> string \<Rightarrow> relay_error_kind + int" where
  "decodeProbeFrame encoded magic =
     (if length encoded \<noteq> 16 \<or> \<not> validPrefix encoded magic None then Inl Malformed
      else let nonce = int (get_uint 8 8 encoded) in
           if nonce = 0 then Inl Identity else Inr nonce)"

definition encodeConnectionProbe :: "int \<Rightarrow> relay_error_kind + bytes" where
  "encodeConnectionProbe nonce = encodeProbeFrame CONNECTION_PROBE_MAGIC nonce"

definition encodeConnectionProbeAck :: "int \<Rightarrow> relay_error_kind + bytes" where
  "encodeConnectionProbeAck nonce = encodeProbeFrame CONNECTION_PROBE_ACK_MAGIC nonce"

definition decodeConnectionProbe :: "bytes \<Rightarrow> relay_error_kind + int" where
  "decodeConnectionProbe encoded = decodeProbeFrame encoded CONNECTION_PROBE_MAGIC"

definition decodeConnectionProbeAck :: "bytes \<Rightarrow> relay_error_kind + int" where
  "decodeConnectionProbeAck encoded = decodeProbeFrame encoded CONNECTION_PROBE_ACK_MAGIC"

definition validErrorCode :: "int \<Rightarrow> bool" where
  "validErrorCode code = (code \<ge> 1 \<and> code \<le> 14)"

fun retry_value_ok :: "bool \<Rightarrow> js_number \<Rightarrow> bool" where
  "retry_value_ok retryAllowed (Integral r) =
     (\<not> (r < 0 \<or> r > 30000 \<or> (\<not> retryAllowed \<and> r \<noteq> 0) \<or> r > 0xffffffff))"
| "retry_value_ok retryAllowed Nonintegral = False"

definition encodeRelayError :: "relay_error_frame \<Rightarrow> relay_error_kind + bytes" where
  "encodeRelayError frame =
     (let retryAllowed = (re_code frame = 9 \<or> re_code frame = 10 \<or> re_code frame = 14) in
      if \<not> validErrorCode (re_code frame) \<or>
         \<not> retry_value_ok retryAllowed (re_retryAfterMilliseconds frame) then Inl Malformed
      else Inr (concatBytes [ascii ''WS2E'', [of_nat RELAY_WIRE_VERSION, 0],
             encodeUint16 (nat (re_code frame)),
             encodeUint32 (nat (js_int (re_retryAfterMilliseconds frame)))]))"

definition decodeRelayError :: "bytes \<Rightarrow> relay_error_kind + relay_error_frame" where
  "decodeRelayError encoded =
     (if length encoded \<noteq> 12 \<or> \<not> equalBytes (subarray 0 4 encoded) (ascii ''WS2E'') \<or>
         byte_at encoded 4 \<noteq> Some (of_nat RELAY_WIRE_VERSION) \<or> byte_at encoded 5 \<noteq> Some 0
      then Inl Malformed
      else let code = int (get_uint 2 6 encoded); retry = Integral (int (get_uint 4 8 encoded)) in
           if \<not> validErrorCode code then Inl Malformed
           else let frame = \<lparr>re_code = code, re_retryAfterMilliseconds = retry\<rparr> in
                bindE (encodeRelayError frame) (\<lambda>_. Inr frame))"

section \<open>Reading back what was written\<close>

lemma requireBytes_Inr [res_simps]:
  "requireBytes v n z = Inr w \<longleftrightarrow> w = v \<and> length v = n \<and> (z \<longrightarrow> nonzero v)"
  by (auto simp add: requireBytes_def)

lemma requireMode_Inr [res_simps]: "requireMode m = Inr m' \<longleftrightarrow> m' = m \<and> 0 \<le> m \<and> m \<le> 1"
  by (auto simp add: requireMode_def relay_constants)

lemma requirePurpose_Inr [res_simps]:
  "requirePurpose p = Inr p' \<longleftrightarrow> p' = p \<and> 0 \<le> p \<and> p \<le> 2"
  by (auto simp add: requirePurpose_def relay_constants)

lemma encodeUint64_Inr [res_simps]:
  "encodeUint64 v = Inr b \<longleftrightarrow> 0 \<le> v \<and> v < 256 ^ 8 \<and> b = be_bytes 8 (nat v)"
  by (auto simp add: encodeUint64_def relay_constants)

lemma validateRouteIdentity_Inr [res_simps]:
  "validateRouteIdentity sha s p = Inr u \<longleftrightarrow>
     length s = 12 \<and> length p = 16 \<and> subarray 0 12 (sha (SHARE_ID_DOMAIN @ p)) = s"
  by (auto simp add: validateRouteIdentity_def res_simps Let_def)

lemma length_frame_prefix: "length m = 4 \<Longrightarrow> length (frame_prefix m d) = 8"
  by (simp add: frame_prefix_def)

lemma length_8_conv:
  "length xs = 8 \<longleftrightarrow> (\<exists>a b c d e f g h. xs = [a, b, c, d, e, f, g, h])"
  by (auto simp add: numeral_eq_Suc length_Suc_conv)

lemma split_header:
  assumes "8 \<le> length bs"
  obtains a b c d e f g h rest where "bs = [a, b, c, d, e, f, g, h] @ rest"
proof -
  have "length (take 8 bs) = 8" using assms by simp
  then obtain a b c d e f g h where "take 8 bs = [a, b, c, d, e, f, g, h]"
    unfolding length_8_conv by blast
  then have "bs = [a, b, c, d, e, f, g, h] @ drop 8 bs"
    by (metis append_take_drop_id)
  then show ?thesis using that by blast
qed

lemma validPrefix_iff:
  assumes "8 \<le> length bs" "length m = 4"
  shows "validPrefix bs m (Some d) \<longleftrightarrow> subarray 0 8 bs = ascii m @ [2, d, 0, 0]"
    and "validPrefix bs m None \<longleftrightarrow> subarray 0 8 bs = ascii m @ [2, 0, 0, 0]"
proof -
  obtain x0 x1 x2 x3 x4 x5 x6 x7 rest where bs: "bs = [x0, x1, x2, x3, x4, x5, x6, x7] @ rest"
    using assms(1) by (rule split_header)
  obtain m0 m1 m2 m3 where m: "m = [m0, m1, m2, m3]"
    using assms(2) by (auto simp add: numeral_eq_Suc length_Suc_conv)
  show "validPrefix bs m (Some d) \<longleftrightarrow> subarray 0 8 bs = ascii m @ [2, d, 0, 0]"
    by (auto simp add: validPrefix_def bs m byte_at_def subarray_def ascii_def relay_constants)
  show "validPrefix bs m None \<longleftrightarrow> subarray 0 8 bs = ascii m @ [2, 0, 0, 0]"
    by (auto simp add: validPrefix_def bs m byte_at_def subarray_def ascii_def relay_constants)
qed


lemma reservedPrefix_eq: "reservedPrefix m = ascii m @ [2, 0, 0, 0]"
  by (simp add: reservedPrefix_def frame_prefix_def relay_constants)

lemma frame_prefix_eq: "frame_prefix m d = ascii m @ [2, word_of_int d, 0, 0]"
  by (simp add: frame_prefix_def relay_constants)

lemma uint_word_of_int_byte: "0 \<le> d \<Longrightarrow> d < 256 \<Longrightarrow> uint (word_of_int d :: byte) = d"
  by (simp add: uint_word_of_int)

text \<open>Reading back a header the encoder wrote.\<close>

lemma encoded_header [simp]:
  assumes "length m = 4"
  shows "validPrefix (frame_prefix m d @ r) m (byte_at (frame_prefix m d @ r) 5)"
    and "validPrefix (reservedPrefix m @ r) m None"
    and "subarray 0 4 (frame_prefix m d @ r) = ascii m"
    and "subarray 0 4 (reservedPrefix m @ r) = ascii m"
    and "length (frame_prefix m d) = 8"
    and "length (reservedPrefix m) = 8"
    and "0 \<le> d \<Longrightarrow> d < 256 \<Longrightarrow> discriminator_of (frame_prefix m d @ r) = d"
  using assms
  by (auto simp add: validPrefix_def frame_prefix_eq reservedPrefix_eq byte_at_def subarray_def
      relay_constants discriminator_of_def nth_append uint_word_of_int_byte)

text \<open>A header the decoder accepted is the header the encoder writes.\<close>

lemma accepted_header:
  assumes "validPrefix bs m None" "8 \<le> length bs" "length m = 4"
  shows "reservedPrefix m = subarray 0 8 bs"
  using assms by (simp add: validPrefix_iff reservedPrefix_eq)

lemma accepted_header_discriminator:
  assumes "validPrefix bs m (byte_at bs 5)" "8 \<le> length bs" "length m = 4"
  shows "frame_prefix m (discriminator_of bs) = subarray 0 8 bs"
proof -
  obtain d where "byte_at bs 5 = Some d"
    using assms(2) by (simp add: byte_at_def)
  with assms show ?thesis
    by (simp add: validPrefix_iff frame_prefix_eq discriminator_of_def)
qed

lemma window_count_iff: "window_count n limit \<longleftrightarrow> (\<exists>i. n = Integral i \<and> 0 \<le> i \<and> i \<le> limit)"
  by (cases n) auto

lemma retry_value_ok_iff:
  "retry_value_ok allowed n \<longleftrightarrow>
   (\<exists>i. n = Integral i \<and> 0 \<le> i \<and> i \<le> 30000 \<and> (allowed \<or> i = 0))"
  by (cases n) auto

lemmas enc_dec_simps =
  res_simps subarray_def get_uint_def Let_def encodeUint16_def encodeUint32_def relay_constants

lemmas dec_enc_simps =
  res_simps Let_def accepted_header accepted_header_discriminator slice_simps be_bytes_get_uint
  encodeUint16_def encodeUint32_def relay_constants

interpretation register_init_codec: tagged_codec "encodeRegisterInit sha" "decodeRegisterInit sha" "''WS2R''"
proof
  fix f b assume "encodeRegisterInit sha f = Inr b"
  then show "decodeRegisterInit sha b = Inr f"
    by (auto simp add: encodeRegisterInit_def decodeRegisterInit_def enc_dec_simps)
next
  fix f b assume "decodeRegisterInit sha b = Inr f"
  then show "encodeRegisterInit sha f = Inr b"
    by (auto simp add: encodeRegisterInit_def decodeRegisterInit_def dec_enc_simps)
next
  fix f b assume "encodeRegisterInit sha f = Inr b"
  then show "subarray 0 4 b = ascii ''WS2R''"
    by (auto simp add: encodeRegisterInit_def res_simps)
qed

interpretation challenge_codec: tagged_codec encodeChallenge decodeChallenge "''WS2Q''"
proof
  fix f b assume "encodeChallenge f = Inr b"
  then show "decodeChallenge b = Inr f"
    by (auto simp add: encodeChallenge_def decodeChallenge_def enc_dec_simps)
next
  fix f b assume "decodeChallenge b = Inr f"
  then show "encodeChallenge f = Inr b"
    using get_uint_bound [of 56 8 b]
    by (auto simp add: encodeChallenge_def decodeChallenge_def dec_enc_simps)
next
  fix f b assume "encodeChallenge f = Inr b"
  then show "subarray 0 4 b = ascii ''WS2Q''"
    by (auto simp add: encodeChallenge_def res_simps)
qed

interpretation register_proof_codec: tagged_codec encodeRegisterProof decodeRegisterProof "''WS2P''"
proof
  fix f b assume "encodeRegisterProof f = Inr b"
  then show "decodeRegisterProof b = Inr f"
    by (auto simp add: encodeRegisterProof_def decodeRegisterProof_def enc_dec_simps)
next
  fix f b assume "decodeRegisterProof b = Inr f"
  then show "encodeRegisterProof f = Inr b"
    by (auto simp add: encodeRegisterProof_def decodeRegisterProof_def dec_enc_simps)
next
  fix f b assume "encodeRegisterProof f = Inr b"
  then show "subarray 0 4 b = ascii ''WS2P''"
    by (auto simp add: encodeRegisterProof_def res_simps)
qed

interpretation resume_credential_codec: tagged_codec encodeResumeCredential decodeResumeCredential "''WS2T''"
proof
  fix f b assume "encodeResumeCredential f = Inr b"
  then show "decodeResumeCredential b = Inr f"
    by (auto simp add: encodeResumeCredential_def decodeResumeCredential_def enc_dec_simps)
next
  fix f b assume "decodeResumeCredential b = Inr f"
  then show "encodeResumeCredential f = Inr b"
    by (auto simp add: encodeResumeCredential_def decodeResumeCredential_def dec_enc_simps)
next
  fix f b assume "encodeResumeCredential f = Inr b"
  then show "subarray 0 4 b = ascii ''WS2T''"
    by (auto simp add: encodeResumeCredential_def res_simps)
qed

interpretation stop_init_codec: tagged_codec "encodeStopInit sha" "decodeStopInit sha" "''WS2X''"
proof
  fix f b assume "encodeStopInit sha f = Inr b"
  then show "decodeStopInit sha b = Inr f"
    by (auto simp add: encodeStopInit_def decodeStopInit_def enc_dec_simps)
next
  fix f b assume "decodeStopInit sha b = Inr f"
  then show "encodeStopInit sha f = Inr b"
    by (auto simp add: encodeStopInit_def decodeStopInit_def dec_enc_simps)
next
  fix f b assume "encodeStopInit sha f = Inr b"
  then show "subarray 0 4 b = ascii ''WS2X''"
    by (auto simp add: encodeStopInit_def res_simps)
qed

interpretation stop_proof_codec: tagged_codec encodeStopProof decodeStopProof "''WS2V''"
proof
  fix f b assume "encodeStopProof f = Inr b"
  then show "decodeStopProof b = Inr f"
    by (auto simp add: encodeStopProof_def decodeStopProof_def enc_dec_simps)
next
  fix f b assume "decodeStopProof b = Inr f"
  then show "encodeStopProof f = Inr b"
    by (auto simp add: encodeStopProof_def decodeStopProof_def dec_enc_simps)
next
  fix f b assume "encodeStopProof f = Inr b"
  then show "subarray 0 4 b = ascii ''WS2V''"
    by (auto simp add: encodeStopProof_def res_simps)
qed

interpretation registered_codec: tagged_codec encodeRegistered decodeRegistered "''WS2K''"
proof
  fix f b assume "encodeRegistered f = Inr b"
  then show "decodeRegistered b = Inr f"
    by (auto simp add: encodeRegistered_def decodeRegistered_def enc_dec_simps)
next
  fix f b assume "decodeRegistered b = Inr f"
  then show "encodeRegistered f = Inr b"
    by (auto simp add: encodeRegistered_def decodeRegistered_def dec_enc_simps)
next
  fix f b assume "encodeRegistered f = Inr b"
  then show "subarray 0 4 b = ascii ''WS2K''"
    by (auto simp add: encodeRegistered_def res_simps)
qed

interpretation stopped_codec: tagged_codec encodeStopped decodeStopped "''WS2Y''"
proof
  fix f b assume "encodeStopped f = Inr b"
  then show "decodeStopped b = Inr f"
    by (auto simp add: encodeStopped_def decodeStopped_def enc_dec_simps)
next
  fix f b assume "decodeStopped b = Inr f"
  then show "encodeStopped f = Inr b"
    by (auto simp add: encodeStopped_def decodeStopped_def dec_enc_simps)
next
  fix f b assume "encodeStopped f = Inr b"
  then show "subarray 0 4 b = ascii ''WS2Y''"
    by (auto simp add: encodeStopped_def res_simps)
qed

interpretation join_codec: tagged_codec encodeJoin decodeJoin "''WS2J''"
proof
  fix f b assume "encodeJoin f = Inr b"
  then show "decodeJoin b = Inr f"
    by (auto simp add: encodeJoin_def decodeJoin_def enc_dec_simps)
next
  fix f b assume "decodeJoin b = Inr f"
  then show "encodeJoin f = Inr b"
    by (auto simp add: encodeJoin_def decodeJoin_def dec_enc_simps)
next
  fix f b assume "encodeJoin f = Inr b"
  then show "subarray 0 4 b = ascii ''WS2J''"
    by (auto simp add: encodeJoin_def res_simps)
qed

interpretation descriptor_upload_codec: tagged_codec encodeDescriptorUpload decodeDescriptorUpload "''WS2U''"
proof
  fix f b assume "encodeDescriptorUpload f = Inr b"
  then show "decodeDescriptorUpload b = Inr f"
    by (auto simp add: encodeDescriptorUpload_def decodeDescriptorUpload_def enc_dec_simps encodeVariable_def decodeVariable_def)
next
  fix f b assume "decodeDescriptorUpload b = Inr f"
  then show "encodeDescriptorUpload f = Inr b"
    using length_field [of 8 b] by (auto simp add: encodeDescriptorUpload_def decodeDescriptorUpload_def dec_enc_simps encodeVariable_def decodeVariable_def)
next
  fix f b assume "encodeDescriptorUpload f = Inr b"
  then show "subarray 0 4 b = ascii ''WS2U''"
    by (auto simp add: encodeDescriptorUpload_def res_simps encodeVariable_def decodeVariable_def)
qed

interpretation descriptor_delivery_codec: tagged_codec encodeDescriptorDelivery decodeDescriptorDelivery "''WS2D''"
proof
  fix f b assume "encodeDescriptorDelivery f = Inr b"
  then show "decodeDescriptorDelivery b = Inr f"
    by (auto simp add: encodeDescriptorDelivery_def decodeDescriptorDelivery_def enc_dec_simps encodeVariable_def decodeVariable_def)
next
  fix f b assume "decodeDescriptorDelivery b = Inr f"
  then show "encodeDescriptorDelivery f = Inr b"
    using length_field [of 16 b] by (auto simp add: encodeDescriptorDelivery_def decodeDescriptorDelivery_def dec_enc_simps encodeVariable_def decodeVariable_def)
next
  fix f b assume "encodeDescriptorDelivery f = Inr b"
  then show "subarray 0 4 b = ascii ''WS2D''"
    by (auto simp add: encodeDescriptorDelivery_def res_simps encodeVariable_def decodeVariable_def)
qed

interpretation opaque_route_codec: tagged_codec encodeOpaqueRoute decodeOpaqueRoute "''WS2O''"
proof
  fix f b assume "encodeOpaqueRoute f = Inr b"
  then show "decodeOpaqueRoute b = Inr f"
    by (auto simp add: encodeOpaqueRoute_def decodeOpaqueRoute_def enc_dec_simps)
next
  fix f b assume "decodeOpaqueRoute b = Inr f"
  then show "encodeOpaqueRoute f = Inr b"
    using length_field [of 16 b] by (auto simp add: encodeOpaqueRoute_def decodeOpaqueRoute_def dec_enc_simps)
next
  fix f b assume "encodeOpaqueRoute f = Inr b"
  then show "subarray 0 4 b = ascii ''WS2O''"
    by (auto simp add: encodeOpaqueRoute_def res_simps)
qed

interpretation session_retired_codec: tagged_codec encodeSessionRetired decodeSessionRetired "''WS2F''"
proof
  fix f b assume "encodeSessionRetired f = Inr b"
  then show "decodeSessionRetired b = Inr f"
    by (auto simp add: encodeSessionRetired_def decodeSessionRetired_def enc_dec_simps)
next
  fix f b assume "decodeSessionRetired b = Inr f"
  then show "encodeSessionRetired f = Inr b"
    by (auto simp add: encodeSessionRetired_def decodeSessionRetired_def dec_enc_simps)
next
  fix f b assume "encodeSessionRetired f = Inr b"
  then show "subarray 0 4 b = ascii ''WS2F''"
    by (auto simp add: encodeSessionRetired_def res_simps)
qed

interpretation session_credit_codec: tagged_codec encodeSessionCredit decodeSessionCredit "''WS2W''"
proof
  fix f b assume "encodeSessionCredit f = Inr b"
  then show "decodeSessionCredit b = Inr f"
    by (cases f) (auto simp add: encodeSessionCredit_def decodeSessionCredit_def enc_dec_simps window_count_iff)
next
  fix f b assume "decodeSessionCredit b = Inr f"
  then show "encodeSessionCredit f = Inr b"
    by (auto simp add: encodeSessionCredit_def decodeSessionCredit_def dec_enc_simps)
next
  fix f b assume "encodeSessionCredit f = Inr b"
  then show "subarray 0 4 b = ascii ''WS2W''"
    by (auto simp add: encodeSessionCredit_def res_simps)
qed

interpretation session_admitted_codec: tagged_codec encodeSessionAdmitted decodeSessionAdmitted "''WS2M''"
proof
  fix f b assume "encodeSessionAdmitted f = Inr b"
  then show "decodeSessionAdmitted b = Inr f"
    by (auto simp add: encodeSessionAdmitted_def decodeSessionAdmitted_def enc_dec_simps)
next
  fix f b assume "decodeSessionAdmitted b = Inr f"
  then show "encodeSessionAdmitted f = Inr b"
    by (auto simp add: encodeSessionAdmitted_def decodeSessionAdmitted_def dec_enc_simps)
next
  fix f b assume "encodeSessionAdmitted f = Inr b"
  then show "subarray 0 4 b = ascii ''WS2M''"
    by (auto simp add: encodeSessionAdmitted_def res_simps)
qed

interpretation probe_codec: tagged_codec encodeConnectionProbe decodeConnectionProbe "''WS2H''"
proof
  fix f b assume "encodeConnectionProbe f = Inr b"
  then show "decodeConnectionProbe b = Inr f"
    by (auto simp add: encodeConnectionProbe_def decodeConnectionProbe_def enc_dec_simps encodeProbeFrame_def decodeProbeFrame_def CONNECTION_PROBE_MAGIC_def CONNECTION_PROBE_ACK_MAGIC_def)
next
  fix f b assume "decodeConnectionProbe b = Inr f"
  then show "encodeConnectionProbe f = Inr b"
    using get_uint_bound [of 8 8 b]
    by (auto simp add: encodeConnectionProbe_def decodeConnectionProbe_def dec_enc_simps encodeProbeFrame_def decodeProbeFrame_def CONNECTION_PROBE_MAGIC_def CONNECTION_PROBE_ACK_MAGIC_def)
next
  fix f b assume "encodeConnectionProbe f = Inr b"
  then show "subarray 0 4 b = ascii ''WS2H''"
    by (auto simp add: encodeConnectionProbe_def res_simps encodeProbeFrame_def decodeProbeFrame_def CONNECTION_PROBE_MAGIC_def CONNECTION_PROBE_ACK_MAGIC_def)
qed

interpretation probe_ack_codec: tagged_codec encodeConnectionProbeAck decodeConnectionProbeAck "''WS2A''"
proof
  fix f b assume "encodeConnectionProbeAck f = Inr b"
  then show "decodeConnectionProbeAck b = Inr f"
    by (auto simp add: encodeConnectionProbeAck_def decodeConnectionProbeAck_def enc_dec_simps encodeProbeFrame_def decodeProbeFrame_def CONNECTION_PROBE_MAGIC_def CONNECTION_PROBE_ACK_MAGIC_def)
next
  fix f b assume "decodeConnectionProbeAck b = Inr f"
  then show "encodeConnectionProbeAck f = Inr b"
    using get_uint_bound [of 8 8 b]
    by (auto simp add: encodeConnectionProbeAck_def decodeConnectionProbeAck_def dec_enc_simps encodeProbeFrame_def decodeProbeFrame_def CONNECTION_PROBE_MAGIC_def CONNECTION_PROBE_ACK_MAGIC_def)
next
  fix f b assume "encodeConnectionProbeAck f = Inr b"
  then show "subarray 0 4 b = ascii ''WS2A''"
    by (auto simp add: encodeConnectionProbeAck_def res_simps encodeProbeFrame_def decodeProbeFrame_def CONNECTION_PROBE_MAGIC_def CONNECTION_PROBE_ACK_MAGIC_def)
qed

interpretation relay_error_codec: tagged_codec encodeRelayError decodeRelayError "''WS2E''"
proof
  fix f b assume "encodeRelayError f = Inr b"
  then show "decodeRelayError b = Inr f"
    by (cases f) (auto simp add: encodeRelayError_def decodeRelayError_def enc_dec_simps
      retry_value_ok_iff validErrorCode_def byte_at_def ascii_def)
next
  fix f b assume dec: "decodeRelayError b = Inr f"
  then have len: "length b = 12" and head: "ascii ''WS2E'' = subarray 0 4 b"
      "[2, 0] = subarray 4 6 b" and f: "f = \<lparr>re_code = int (get_uint 2 6 b),
        re_retryAfterMilliseconds = Integral (int (get_uint 4 8 b))\<rparr>"
      and ok: "is_ok (encodeRelayError f)"
    using subarray_two [of 4 b 2 0]
    by (auto simp add: decodeRelayError_def res_simps Let_def relay_constants)
  then show "encodeRelayError f = Inr b"
    by (auto simp add: encodeRelayError_def dec_enc_simps subarray_join_drop
      simp flip: append_Cons append_assoc)
next
  fix f b assume "encodeRelayError f = Inr b"
  then show "subarray 0 4 b = ascii ''WS2E''"
    by (auto simp add: encodeRelayError_def enc_dec_simps)
qed

section \<open>Signed preimages\<close>

lemma preimage_domains:
  "length REGISTER_DOMAIN = 28" "length RESUME_DOMAIN = 26" "length STOP_DOMAIN = 24"
  by (simp_all add: REGISTER_DOMAIN_def RESUME_DOMAIN_def STOP_DOMAIN_def)

lemma encodeRegisterInit_widths:
  assumes "encodeRegisterInit sha f = Inr b"
  shows "length (ri_shareId f) = 12 \<and> length (ri_shareInstance f) = 16 \<and> length (ri_pkHash f) = 16 \<and>
    length (ri_descriptorDigest f) = 32 \<and> length (ri_resumeTokenHash f) = 32 \<and>
    (ri_mode f = 0 \<or> ri_mode f = 1)"
  using assms by (auto simp add: encodeRegisterInit_def res_simps)

lemma encodeStopInit_widths:
  assumes "encodeStopInit sha f = Inr b"
  shows "length (si_shareId f) = 12 \<and> length (si_shareInstance f) = 16 \<and> length (si_pkHash f) = 16 \<and>
    length (si_relayIdentity f) = 32 \<and> length (si_stopId f) = 16"
  using assms by (auto simp add: encodeStopInit_def res_simps)

lemma encodeChallenge_widths:
  assumes "encodeChallenge c = Inr b"
  shows "length (ch_id c) = 16 \<and> length (ch_nonce c) = 32 \<and>
    0 \<le> ch_expiresAtUnixSeconds c \<and> ch_expiresAtUnixSeconds c < 256 ^ 8"
  using assms by (auto simp add: encodeChallenge_def res_simps split: if_splits)

text \<open>What a registration preimage is made of.\<close>

lemma registrationProofPreimage_Inr:
  assumes "registrationProofPreimage sha i c r = Inr p"
  shows "ch_purpose c = ri_mode i" "length r = 32"
    and "is_ok (encodeRegisterInit sha i)" "is_ok (encodeChallenge c)"
    and "p = (if ri_mode i = 0 then REGISTER_DOMAIN else RESUME_DOMAIN) @ ri_shareId i @
       ri_shareInstance i @ ri_pkHash i @ ri_descriptorDigest i @ ri_resumeTokenHash i @ r @
       ch_id c @ ch_nonce c @ be_bytes 8 (nat (ch_expiresAtUnixSeconds c))"
  using assms
  by (auto simp add: registrationProofPreimage_def purposeForMode_def res_simps relay_constants
      dest!: encodeRegisterInit_widths split: if_splits)

lemma stopProofPreimage_Inr:
  assumes "stopProofPreimage sha i c = Inr p"
  shows "ch_purpose c = 2" "is_ok (encodeStopInit sha i)" "is_ok (encodeChallenge c)"
    and "p = STOP_DOMAIN @ si_shareId i @ si_shareInstance i @ si_pkHash i @ si_relayIdentity i @
       si_stopId i @ ch_id c @ ch_nonce c @ be_bytes 8 (nat (ch_expiresAtUnixSeconds c))"
  using assms by (auto simp add: stopProofPreimage_def res_simps relay_constants)

lemma registrationProofPreimage_length:
  assumes "registrationProofPreimage sha i c r = Inr p"
  shows "length p = (if ri_mode i = 0 then 224 else 222)"
  using registrationProofPreimage_Inr [OF assms]
  by (auto simp add: is_ok_iff preimage_domains dest!: encodeRegisterInit_widths encodeChallenge_widths)

lemma stopProofPreimage_length:
  assumes "stopProofPreimage sha i c = Inr p"
  shows "length p = 172"
  using stopProofPreimage_Inr [OF assms]
  by (auto simp add: is_ok_iff preimage_domains dest!: encodeStopInit_widths encodeChallenge_widths)

lemma expiry_inj:
  "0 \<le> x \<Longrightarrow> x < 256 ^ 8 \<Longrightarrow> 0 \<le> y \<Longrightarrow> y < 256 ^ 8 \<Longrightarrow>
   be_bytes 8 (nat x) = be_bytes 8 (nat y) \<longleftrightarrow> x = y"
  using be_bytes_inj [of "nat x" 8 "nat y"] by (auto simp add: nat_less_iff eq_nat_nat_iff)

lemma registration_preimage_inj:
  assumes p: "registrationProofPreimage sha i c r = Inr p"
    and q: "registrationProofPreimage sha' i' c' r' = Inr p"
  shows "i = i' \<and> c = c' \<and> r = r'"
proof -
  have mode: "ri_mode i = ri_mode i'"
    using registrationProofPreimage_length [OF p] registrationProofPreimage_length [OF q]
      registrationProofPreimage_Inr(3) [OF p] registrationProofPreimage_Inr(3) [OF q]
    by (auto simp add: is_ok_iff dest!: encodeRegisterInit_widths split: if_splits)
  note P = registrationProofPreimage_Inr [OF p] and Q = registrationProofPreimage_Inr [OF q]
  obtain bi bi' bc bc' where ok: "encodeRegisterInit sha i = Inr bi"
      "encodeRegisterInit sha' i' = Inr bi'" "encodeChallenge c = Inr bc" "encodeChallenge c' = Inr bc'"
    using P(3,4) Q(3,4) by (auto simp add: is_ok_iff)
  note W = ok(1) [THEN encodeRegisterInit_widths] ok(2) [THEN encodeRegisterInit_widths]
    ok(3) [THEN encodeChallenge_widths] ok(4) [THEN encodeChallenge_widths] P(2) Q(2)
  have "ri_shareId i = ri_shareId i' \<and> ri_shareInstance i = ri_shareInstance i' \<and>
      ri_pkHash i = ri_pkHash i' \<and> ri_descriptorDigest i = ri_descriptorDigest i' \<and>
      ri_resumeTokenHash i = ri_resumeTokenHash i' \<and> r = r' \<and> ch_id c = ch_id c' \<and>
      ch_nonce c = ch_nonce c' \<and> ch_expiresAtUnixSeconds c = ch_expiresAtUnixSeconds c'"
    using P(5) Q(5) W by (simp add: mode expiry_inj)
  moreover have "ch_purpose c = ch_purpose c'"
    using P(1) Q(1) mode by simp
  ultimately show ?thesis
    using mode by (auto intro: register_init.equality challenge.equality)
qed

section \<open>Properties\<close>


text \<open>
  C18. The same for the descriptor, session, probe and error frames, whose variable-length
  and counted fields are read back through their length and width fields.
\<close>

theorem relay_session_frames_round_trip:
  "(encodeDescriptorUpload obj = Inr b \<longleftrightarrow> decodeDescriptorUpload b = Inr obj) \<and>
   (encodeDescriptorDelivery dd = Inr b \<longleftrightarrow> decodeDescriptorDelivery b = Inr dd) \<and>
   (encodeOpaqueRoute route = Inr b \<longleftrightarrow> decodeOpaqueRoute b = Inr route) \<and>
   (encodeSessionRetired sr = Inr b \<longleftrightarrow> decodeSessionRetired b = Inr sr) \<and>
   (encodeSessionCredit sc = Inr b \<longleftrightarrow> decodeSessionCredit b = Inr sc) \<and>
   (encodeSessionAdmitted sa = Inr b \<longleftrightarrow> decodeSessionAdmitted b = Inr sa) \<and>
   (encodeConnectionProbe n = Inr b \<longleftrightarrow> decodeConnectionProbe b = Inr n) \<and>
   (encodeConnectionProbeAck n = Inr b \<longleftrightarrow> decodeConnectionProbeAck b = Inr n) \<and>
   (encodeRelayError re = Inr b \<longleftrightarrow> decodeRelayError b = Inr re)"
  by (intro conjI descriptor_upload_codec.round_trip descriptor_delivery_codec.round_trip
      opaque_route_codec.round_trip session_retired_codec.round_trip
      session_credit_codec.round_trip session_admitted_codec.round_trip probe_codec.round_trip
      probe_ack_codec.round_trip relay_error_codec.round_trip)


lemma preimage_example:
  "registrationProofPreimage (\<lambda>_. replicate 32 7)
     \<lparr>ri_mode = 0, ri_shareId = replicate 12 7, ri_shareInstance = replicate 16 1,
      ri_pkHash = replicate 16 2, ri_descriptorDigest = replicate 32 3,
      ri_resumeTokenHash = replicate 32 4\<rparr>
     \<lparr>ch_purpose = 0, ch_id = replicate 16 5, ch_nonce = replicate 32 6,
      ch_expiresAtUnixSeconds = 9\<rparr>
     (replicate 32 8) = Inr (REGISTER_DOMAIN @ replicate 12 7 @ replicate 16 1 @ replicate 16 2 @
       replicate 32 3 @ replicate 32 4 @ replicate 32 8 @ replicate 16 5 @ replicate 32 6 @
       be_bytes 8 9)"
  by (simp add: registrationProofPreimage_def encodeRegisterInit_def encodeChallenge_def
      requireMode_def requirePurpose_def requireBytes_def validateRouteIdentity_def
      encodeUint64_def purposeForMode_def relay_constants nonzero_replicate subarray_def)

end
