(* ===== verification/Relay_Delivery.thy ===== *)
theory Relay_Delivery
  imports Relay_Protocol
begin

text \<open>
  The delivery controls of the relay transport: \<^verbatim>\<open>delivery-totals-codec.ts\<close> (the layout
  shared by consumption feedback and settlement), \<^verbatim>\<open>delivery-consumed-codec.ts\<close>,
  \<^verbatim>\<open>delivery-settlement-codec.ts\<close>, \<^verbatim>\<open>delivery-handshake-codec.ts\<close> (receive capacity bound
  to the registration and join frames) and \<^verbatim>\<open>receive-credit-codec.ts\<close>.
\<close>

section \<open>Delivery totals\<close>

definition MIN_OPAQUE_BYTES :: int where
  "MIN_OPAQUE_BYTES = int (RELAY_OPAQUE_ROUTE_HEADER_BYTES + 1)"
definition MAX_OPAQUE_BYTES :: int where
  "MAX_OPAQUE_BYTES = int (RELAY_OPAQUE_ROUTE_HEADER_BYTES + RELAY_MAX_OPAQUE_CIPHERTEXT_BYTES)"

record delivery_totals =
  dt_relaySessionId :: bytes
  dt_totalFrames :: int
  dt_totalEncodedBytes :: int

definition validateTotals :: "delivery_totals \<Rightarrow> relay_error_kind + unit" where
  "validateTotals totals =
     (if length (dt_relaySessionId totals) \<noteq> RELAY_SESSION_ID_BYTES \<or>
         \<not> nonzero (dt_relaySessionId totals) then Inl Identity
      else let totalFrames = dt_totalFrames totals; totalEncodedBytes = dt_totalEncodedBytes totals in
      if totalFrames < 0 \<or> totalFrames > MAX_UINT64 \<or>
         totalEncodedBytes < 0 \<or> totalEncodedBytes > MAX_UINT64 then Inl Malformed
      else if totalEncodedBytes < totalFrames * MIN_OPAQUE_BYTES \<or>
              totalEncodedBytes > totalFrames * MAX_OPAQUE_BYTES then Inl Malformed
      else Inr ())"

definition totals_prefix :: "string \<Rightarrow> bytes" where
  "totals_prefix magic = map of_char (take 4 magic) @ [of_nat RELAY_WIRE_VERSION, 0, 0, 0]"

text \<open>\<^verbatim>\<open>header.every((byte, index) => encoded[index] === byte)\<close>.\<close>

definition starts_with :: "bytes \<Rightarrow> bytes \<Rightarrow> bool" where
  "starts_with header encoded =
     list_all (\<lambda>i. byte_at encoded i = Some (header ! i)) [0..<length header]"

definition encodeDeliveryTotals ::
  "delivery_totals \<Rightarrow> string \<Rightarrow> relay_error_kind + bytes" where
  "encodeDeliveryTotals totals magic =
     bindE (validateTotals totals) (\<lambda>_.
     let encoded = replicate 32 0;
         encoded = set_at 0 (totals_prefix magic) encoded;
         encoded = set_at 8 (dt_relaySessionId totals) encoded;
         encoded = set_at 16 (be_bytes 8 (nat (dt_totalFrames totals))) encoded;
         encoded = set_at 24 (be_bytes 8 (nat (dt_totalEncodedBytes totals))) encoded
     in Inr encoded)"

definition decodeDeliveryTotals ::
  "bytes \<Rightarrow> string \<Rightarrow> relay_error_kind + delivery_totals" where
  "decodeDeliveryTotals encoded magic =
     (if length encoded \<noteq> 32 \<or> \<not> starts_with (totals_prefix magic) encoded then Inl Malformed
      else let totals = \<lparr>dt_relaySessionId = subarray 8 16 encoded,
             dt_totalFrames = int (get_uint 8 16 encoded),
             dt_totalEncodedBytes = int (get_uint 8 24 encoded)\<rparr> in
           bindE (validateTotals totals) (\<lambda>_. Inr totals))"

definition encodeDeliveryConsumed :: "delivery_totals \<Rightarrow> relay_error_kind + bytes" where
  "encodeDeliveryConsumed feedback = encodeDeliveryTotals feedback ''WS2B''"

definition decodeDeliveryConsumed :: "bytes \<Rightarrow> relay_error_kind + delivery_totals" where
  "decodeDeliveryConsumed encoded = decodeDeliveryTotals encoded ''WS2B''"

datatype settlement_kind = Settlement_notice | Settlement_ack

record settlement =
  st_kind :: settlement_kind
  st_totals :: delivery_totals

definition encodeSettlementNotice :: "settlement \<Rightarrow> relay_error_kind + bytes" where
  "encodeSettlementNotice notice =
     (if st_kind notice \<noteq> Settlement_notice then Inl Malformed
      else encodeDeliveryTotals (st_totals notice) ''WS2N'')"

definition decodeSettlementNotice :: "bytes \<Rightarrow> relay_error_kind + settlement" where
  "decodeSettlementNotice encoded =
     bindE (decodeDeliveryTotals encoded ''WS2N'') (\<lambda>t.
     Inr \<lparr>st_kind = Settlement_notice, st_totals = t\<rparr>)"

definition encodeSettlementAck :: "settlement \<Rightarrow> relay_error_kind + bytes" where
  "encodeSettlementAck ack =
     (if st_kind ack \<noteq> Settlement_ack then Inl Malformed
      else encodeDeliveryTotals (st_totals ack) ''WS2S'')"

definition decodeSettlementAck :: "bytes \<Rightarrow> relay_error_kind + settlement" where
  "decodeSettlementAck encoded =
     bindE (decodeDeliveryTotals encoded ''WS2S'') (\<lambda>t.
     Inr \<lparr>st_kind = Settlement_ack, st_totals = t\<rparr>)"

section \<open>Receive capacity in the handshake\<close>

record receive_capacity =
  cap_frames :: int
  cap_encodedBytes :: int

record delivery_register_init =
  di_registration :: register_init
  di_receiveCapacity :: receive_capacity

record delivery_join =
  dj_shareId :: bytes
  dj_receiveCapacity :: receive_capacity

definition encodeCapacity :: "receive_capacity \<Rightarrow> relay_error_kind + bytes" where
  "encodeCapacity capacity =
     (if list_ex (\<lambda>v. v \<le> 0 \<or> v > MAX_UINT64) [cap_frames capacity, cap_encodedBytes capacity]
      then Inl Malformed
      else Inr (set_at 8 (be_bytes 8 (nat (cap_encodedBytes capacity)))
             (set_at 0 (be_bytes 8 (nat (cap_frames capacity))) (replicate 16 0))))"

definition decodeCapacity :: "bytes \<Rightarrow> nat \<Rightarrow> relay_error_kind + receive_capacity" where
  "decodeCapacity encoded identityBytes =
     (if length encoded \<noteq> identityBytes + 16 then Inl Malformed
      else let capacity = \<lparr>cap_frames = int (get_uint 8 identityBytes encoded),
             cap_encodedBytes = int (get_uint 8 (identityBytes + 8) encoded)\<rparr> in
           bindE (encodeCapacity capacity) (\<lambda>_. Inr capacity))"

definition encodeDeliveryRegisterInit ::
  "(bytes \<Rightarrow> bytes) \<Rightarrow> delivery_register_init \<Rightarrow> relay_error_kind + bytes" where
  "encodeDeliveryRegisterInit sha frame =
     bindE (encodeCapacity (di_receiveCapacity frame)) (\<lambda>capacity.
     bindE (encodeRegisterInit sha (di_registration frame)) (\<lambda>registration.
     Inr (concatBytes [registration, capacity])))"

definition decodeDeliveryRegisterInit ::
  "(bytes \<Rightarrow> bytes) \<Rightarrow> bytes \<Rightarrow> relay_error_kind + delivery_register_init" where
  "decodeDeliveryRegisterInit sha encoded =
     bindE (decodeCapacity encoded 116) (\<lambda>receiveCapacity.
     bindE (decodeRegisterInit sha (subarray 0 116 encoded)) (\<lambda>registration.
     Inr \<lparr>di_registration = registration, di_receiveCapacity = receiveCapacity\<rparr>))"

definition deliveryRegistrationProofPreimage ::
  "(bytes \<Rightarrow> bytes) \<Rightarrow> delivery_register_init \<Rightarrow> challenge \<Rightarrow> bytes \<Rightarrow> relay_error_kind + bytes" where
  "deliveryRegistrationProofPreimage sha init chal relayIdentity =
     bindE (encodeCapacity (di_receiveCapacity init)) (\<lambda>capacity.
     bindE (registrationProofPreimage sha (di_registration init) chal relayIdentity) (\<lambda>preimage.
     Inr (concatBytes [preimage, capacity])))"

definition encodeDeliveryJoin :: "delivery_join \<Rightarrow> relay_error_kind + bytes" where
  "encodeDeliveryJoin frame =
     bindE (encodeJoin (dj_shareId frame)) (\<lambda>join.
     bindE (encodeCapacity (dj_receiveCapacity frame)) (\<lambda>capacity.
     Inr (concatBytes [join, capacity])))"

definition decodeDeliveryJoin :: "bytes \<Rightarrow> relay_error_kind + delivery_join" where
  "decodeDeliveryJoin encoded =
     bindE (decodeCapacity encoded 20) (\<lambda>receiveCapacity.
     bindE (decodeJoin (subarray 0 20 encoded)) (\<lambda>shareId.
     Inr \<lparr>dj_shareId = shareId, dj_receiveCapacity = receiveCapacity\<rparr>))"

section \<open>Receive credit\<close>

definition RELAY_RECEIVE_WINDOW_FRAMES :: int where "RELAY_RECEIVE_WINDOW_FRAMES = 256"
definition RELAY_RECEIVE_WINDOW_BYTES :: int where "RELAY_RECEIVE_WINDOW_BYTES = 16777216"

record receive_credit =
  rc_relaySessionId :: bytes
  rc_frames :: js_number
  rc_bytes :: js_number

definition RECEIVE_CREDIT_PREFIX :: bytes where
  "RECEIVE_CREDIT_PREFIX = [0x57, 0x53, 0x32, 0x42, of_nat RELAY_WIRE_VERSION, 0, 0, 0]"

definition encodeReceiveCredit :: "receive_credit \<Rightarrow> relay_error_kind + bytes" where
  "encodeReceiveCredit credit =
     (if length (rc_relaySessionId credit) \<noteq> RELAY_SESSION_ID_BYTES \<or>
         \<not> nonzero (rc_relaySessionId credit) then Inl Identity
      else if \<not> window_count (rc_frames credit) RELAY_RECEIVE_WINDOW_FRAMES \<or>
              \<not> window_count (rc_bytes credit) RELAY_RECEIVE_WINDOW_BYTES \<or>
              (rc_frames credit = Integral 0 \<and> rc_bytes credit = Integral 0) then Inl Malformed
      else Inr (concatBytes [RECEIVE_CREDIT_PREFIX, rc_relaySessionId credit,
             encodeUint32 (nat (js_int (rc_frames credit))),
             encodeUint32 (nat (js_int (rc_bytes credit)))]))"

definition decodeReceiveCredit :: "bytes \<Rightarrow> relay_error_kind + receive_credit" where
  "decodeReceiveCredit encoded =
     (if length encoded \<noteq> 24 \<or> \<not> starts_with RECEIVE_CREDIT_PREFIX encoded then Inl Malformed
      else let credit = \<lparr>rc_relaySessionId = subarray 8 16 encoded,
             rc_frames = Integral (int (get_uint 4 16 encoded)),
             rc_bytes = Integral (int (get_uint 4 20 encoded))\<rparr> in
           bindE (encodeReceiveCredit credit) (\<lambda>_. Inr credit))"

section \<open>Codec laws\<close>

lemma starts_with_iff: "starts_with header encoded \<longleftrightarrow> take (length header) encoded = header"
proof
  assume s: "starts_with header encoded"
  have "length header \<le> length encoded"
  proof (cases header rule: rev_cases)
    case (snoc xs x)
    with s have "byte_at encoded (length xs) \<noteq> None"
      by (auto simp add: starts_with_def list_all_iff)
    with snoc show ?thesis by (auto simp add: byte_at_def split: if_splits)
  qed simp
  with s show "take (length header) encoded = header"
    by (intro nth_equalityI) (auto simp add: starts_with_def list_all_iff byte_at_def)
next
  assume t: "take (length header) encoded = header"
  then have "length header \<le> length encoded"
    by (metis length_take min.cobounded1)
  moreover from t have "\<And>i. i < length header \<Longrightarrow> encoded ! i = header ! i"
    by (metis nth_take)
  ultimately show "starts_with header encoded"
    by (auto simp add: starts_with_def list_all_iff byte_at_def)
qed

lemma length_totals_prefix [simp]: "length m = 4 \<Longrightarrow> length (totals_prefix m) = 8"
  by (simp add: totals_prefix_def)

lemma totals_prefix_eq: "length m = 4 \<Longrightarrow> totals_prefix m = reservedPrefix m"
  by (simp add: totals_prefix_def reservedPrefix_eq ascii_def relay_constants)

lemma encodeDeliveryTotals_Inr:
  assumes "length m = 4"
  shows "encodeDeliveryTotals t m = Inr b \<longleftrightarrow> validateTotals t = Inr () \<and>
    b = totals_prefix m @ dt_relaySessionId t @ be_bytes 8 (nat (dt_totalFrames t)) @
        be_bytes 8 (nat (dt_totalEncodedBytes t))"
proof -
  have "validateTotals t = Inr () \<Longrightarrow> length (dt_relaySessionId t) = 8"
    by (simp add: validateTotals_def relay_constants split: if_splits)
  then show ?thesis
    using assms by (auto simp add: encodeDeliveryTotals_def res_simps Let_def set_at_def)
qed

lemma validateTotals_Inr [res_simps]:
  "validateTotals t = Inr u \<longleftrightarrow> length (dt_relaySessionId t) = 8 \<and> nonzero (dt_relaySessionId t) \<and>
     0 \<le> dt_totalFrames t \<and> dt_totalEncodedBytes t < 256 ^ 8 \<and>
     21 * dt_totalFrames t \<le> dt_totalEncodedBytes t \<and>
     dt_totalEncodedBytes t \<le> 65556 * dt_totalFrames t"
  by (auto simp add: validateTotals_def Let_def relay_constants MIN_OPAQUE_BYTES_def
      MAX_OPAQUE_BYTES_def)

lemma totals_enc_dec:
  assumes "length m = 4" "encodeDeliveryTotals t m = Inr b"
  shows "decodeDeliveryTotals b m = Inr t"
  using assms by (cases t)
    (auto simp add: encodeDeliveryTotals_Inr decodeDeliveryTotals_def starts_with_iff enc_dec_simps res_simps)

lemma totals_dec_enc:
  assumes "length m = 4" "decodeDeliveryTotals b m = Inr t"
  shows "encodeDeliveryTotals t m = Inr b"
proof -
  have "take 8 b = totals_prefix m"
    using assms by (auto simp add: decodeDeliveryTotals_def starts_with_iff split: if_splits)
  then have "subarray 0 8 b = totals_prefix m"
    by (simp add: subarray_def)
  from this [symmetric] show ?thesis
    using assms by (auto simp add: encodeDeliveryTotals_Inr decodeDeliveryTotals_def
      be_bytes_get_uint subarray_join_drop subarray_is_drop res_simps Let_def split: if_splits)
qed

lemma totals_enc_magic:
  assumes "length m = 4" "encodeDeliveryTotals t m = Inr b"
  shows "subarray 0 4 b = ascii m"
  using assms by (auto simp add: encodeDeliveryTotals_Inr totals_prefix_eq)

interpretation consumed_codec: tagged_codec encodeDeliveryConsumed decodeDeliveryConsumed "''WS2B''"
  by unfold_locales (auto simp add: encodeDeliveryConsumed_def decodeDeliveryConsumed_def
      intro: totals_enc_dec totals_dec_enc totals_enc_magic)

interpretation notice_codec: tagged_codec encodeSettlementNotice decodeSettlementNotice "''WS2N''"
proof
  fix f b assume "encodeSettlementNotice f = Inr b"
  then show "decodeSettlementNotice b = Inr f"
    using totals_enc_dec [of "''WS2N''" "st_totals f" b]
    by (cases f) (auto simp add: encodeSettlementNotice_def decodeSettlementNotice_def split: if_splits)
next
  fix f b assume "decodeSettlementNotice b = Inr f"
  then show "encodeSettlementNotice f = Inr b"
    by (auto simp add: encodeSettlementNotice_def decodeSettlementNotice_def res_simps
        intro: totals_dec_enc)
next
  fix f b assume "encodeSettlementNotice f = Inr b"
  then show "subarray 0 4 b = ascii ''WS2N''"
    by (auto simp add: encodeSettlementNotice_def split: if_splits intro: totals_enc_magic)
qed

interpretation ack_codec: tagged_codec encodeSettlementAck decodeSettlementAck "''WS2S''"
proof
  fix f b assume "encodeSettlementAck f = Inr b"
  then show "decodeSettlementAck b = Inr f"
    using totals_enc_dec [of "''WS2S''" "st_totals f" b]
    by (cases f) (auto simp add: encodeSettlementAck_def decodeSettlementAck_def split: if_splits)
next
  fix f b assume "decodeSettlementAck b = Inr f"
  then show "encodeSettlementAck f = Inr b"
    by (auto simp add: encodeSettlementAck_def decodeSettlementAck_def res_simps
        intro: totals_dec_enc)
next
  fix f b assume "encodeSettlementAck f = Inr b"
  then show "subarray 0 4 b = ascii ''WS2S''"
    by (auto simp add: encodeSettlementAck_def split: if_splits intro: totals_enc_magic)
qed

lemma encodeCapacity_Inr [res_simps]:
  "encodeCapacity c = Inr b \<longleftrightarrow> 0 < cap_frames c \<and> cap_frames c < 256 ^ 8 \<and>
     0 < cap_encodedBytes c \<and> cap_encodedBytes c < 256 ^ 8 \<and>
     b = be_bytes 8 (nat (cap_frames c)) @ be_bytes 8 (nat (cap_encodedBytes c))"
  by (auto simp add: encodeCapacity_def set_at_def relay_constants)

text \<open>
  A capacity is an appended suffix: a frame codec of fixed width followed by a capacity
  declaration is again a codec.
\<close>

lemma capacity_enc_dec:
  assumes "encodeCapacity c = Inr b" "length identity = n"
  shows "decodeCapacity (identity @ b) n = Inr c"
  using assms by (cases c) (auto simp add: decodeCapacity_def get_uint_def res_simps Let_def)

lemma capacity_dec_enc:
  assumes "decodeCapacity b n = Inr c"
  shows "encodeCapacity c = Inr (drop n b)" "length b = n + 16"
proof -
  show len: "length b = n + 16"
    using assms by (auto simp add: decodeCapacity_def split: if_splits)
  then have "drop n b = be_bytes 8 (get_uint 8 n b) @ be_bytes 8 (get_uint 8 (n + 8) b)"
    by (simp add: be_bytes_get_uint subarray_is_drop subarray_join_drop)
  with assms show "encodeCapacity c = Inr (drop n b)"
    by (auto simp add: decodeCapacity_def res_simps Let_def)
qed

lemma encodeRegisterInit_length: "encodeRegisterInit sha f = Inr b \<Longrightarrow> length b = 116"
  by (auto simp add: encodeRegisterInit_def res_simps)

lemma encodeJoin_length: "encodeJoin s = Inr b \<Longrightarrow> length b = 20"
  by (auto simp add: encodeJoin_def res_simps)

interpretation delivery_register_codec:
  tagged_codec "encodeDeliveryRegisterInit sha" "decodeDeliveryRegisterInit sha" "''WS2R''"
proof
  fix f b assume "encodeDeliveryRegisterInit sha f = Inr b"
  then obtain c r where cap: "encodeCapacity (di_receiveCapacity f) = Inr c"
    and reg: "encodeRegisterInit sha (di_registration f) = Inr r" and b: "b = r @ c"
    by (auto simp add: encodeDeliveryRegisterInit_def bindE_eq_Inr)
  note len = encodeRegisterInit_length [OF reg]
  show "decodeDeliveryRegisterInit sha b = Inr f"
    using register_init_codec.enc_dec [OF reg] capacity_enc_dec [OF cap len] len
    by (cases f) (simp add: decodeDeliveryRegisterInit_def b subarray_def)
  show "subarray 0 4 b = ascii ''WS2R''"
    using register_init_codec.enc_magic [OF reg] len by (simp add: b subarray_append_left)
next
  fix f b assume "decodeDeliveryRegisterInit sha b = Inr f"
  then obtain c r where cap: "decodeCapacity b 116 = Inr c"
    and reg: "decodeRegisterInit sha (subarray 0 116 b) = Inr r"
    and f: "f = \<lparr>di_registration = r, di_receiveCapacity = c\<rparr>"
    by (auto simp add: decodeDeliveryRegisterInit_def bindE_eq_Inr)
  show "encodeDeliveryRegisterInit sha f = Inr b"
    using register_init_codec.dec_enc [OF reg] capacity_dec_enc [OF cap]
    by (simp add: encodeDeliveryRegisterInit_def f subarray_join_drop)
qed

interpretation delivery_join_codec: tagged_codec encodeDeliveryJoin decodeDeliveryJoin "''WS2J''"
proof
  fix f b assume "encodeDeliveryJoin f = Inr b"
  then obtain c r where cap: "encodeCapacity (dj_receiveCapacity f) = Inr c"
    and join: "encodeJoin (dj_shareId f) = Inr r" and b: "b = r @ c"
    by (auto simp add: encodeDeliveryJoin_def bindE_eq_Inr)
  note len = encodeJoin_length [OF join]
  show "decodeDeliveryJoin b = Inr f"
    using join_codec.enc_dec [OF join] capacity_enc_dec [OF cap len] len
    by (cases f) (simp add: decodeDeliveryJoin_def b subarray_def)
  show "subarray 0 4 b = ascii ''WS2J''"
    using join_codec.enc_magic [OF join] len by (simp add: b subarray_append_left)
next
  fix f b assume "decodeDeliveryJoin b = Inr f"
  then obtain c r where cap: "decodeCapacity b 20 = Inr c"
    and join: "decodeJoin (subarray 0 20 b) = Inr r"
    and f: "f = \<lparr>dj_shareId = r, dj_receiveCapacity = c\<rparr>"
    by (auto simp add: decodeDeliveryJoin_def bindE_eq_Inr)
  show "encodeDeliveryJoin f = Inr b"
    using join_codec.dec_enc [OF join] capacity_dec_enc [OF cap]
    by (simp add: encodeDeliveryJoin_def f subarray_join_drop)
qed

lemma receive_credit_prefix: "RECEIVE_CREDIT_PREFIX = reservedPrefix ''WS2B''"
  by (simp add: RECEIVE_CREDIT_PREFIX_def reservedPrefix_eq ascii_def relay_constants)

interpretation receive_credit_codec: tagged_codec encodeReceiveCredit decodeReceiveCredit "''WS2B''"
proof
  fix f b assume "encodeReceiveCredit f = Inr b"
  then show "decodeReceiveCredit b = Inr f"
    by (cases f) (auto simp add: encodeReceiveCredit_def decodeReceiveCredit_def enc_dec_simps
        window_count_iff receive_credit_prefix starts_with_iff RELAY_RECEIVE_WINDOW_FRAMES_def
        RELAY_RECEIVE_WINDOW_BYTES_def)
next
  fix f b assume dec: "decodeReceiveCredit b = Inr f"
  then have "reservedPrefix ''WS2B'' = subarray 0 8 b" "length b = 24"
    by (auto simp add: decodeReceiveCredit_def starts_with_iff receive_credit_prefix subarray_def
        split: if_splits)
  with dec show "encodeReceiveCredit f = Inr b"
    by (auto simp add: encodeReceiveCredit_def decodeReceiveCredit_def dec_enc_simps
        receive_credit_prefix)
next
  fix f b assume "encodeReceiveCredit f = Inr b"
  then show "subarray 0 4 b = ascii ''WS2B''"
    by (auto simp add: encodeReceiveCredit_def receive_credit_prefix split: if_splits)
qed

section \<open>Properties\<close>

text \<open>
  C20. The delivery controls and handshakes round-trip on the wire in both directions,
  with the cumulative 64-bit totals and the appended capacity declaration intact.
\<close>

theorem delivery_frames_round_trip:
  "(encodeDeliveryConsumed t = Inr b \<longleftrightarrow> decodeDeliveryConsumed b = Inr t) \<and>
   (encodeSettlementNotice s = Inr b \<longleftrightarrow> decodeSettlementNotice b = Inr s) \<and>
   (encodeSettlementAck s = Inr b \<longleftrightarrow> decodeSettlementAck b = Inr s) \<and>
   (encodeDeliveryRegisterInit sha di = Inr b \<longleftrightarrow> decodeDeliveryRegisterInit sha b = Inr di) \<and>
   (encodeDeliveryJoin dj = Inr b \<longleftrightarrow> decodeDeliveryJoin b = Inr dj) \<and>
   (encodeReceiveCredit rc = Inr b \<longleftrightarrow> decodeReceiveCredit b = Inr rc)"
  by (intro conjI consumed_codec.round_trip notice_codec.round_trip ack_codec.round_trip
      delivery_register_codec.round_trip delivery_join_codec.round_trip
      receive_credit_codec.round_trip)

end
