(* ===== verification/Receive_Ledger.thy ===== *)
theory Receive_Ledger
  imports Relay_Delivery
begin

text \<open>
  The receive ledger of one relay connection, \<^verbatim>\<open>web/src/transport/relay/receive-ledger\<close>
  (\<^verbatim>\<open>counts.ts\<close>, \<^verbatim>\<open>types.ts\<close>, \<^verbatim>\<open>index.ts\<close>). It charges every opaque envelope against the
  declared capacity when it arrives, follows the prefix that the application has consumed or
  discarded, and hands out the cumulative feedback and settlement controls.

  The state of \<^verbatim>\<open>RelayReceiveLedger\<close> is the record \<open>ledger\<close>. The opaque objects
  \<^verbatim>\<open>ReceiveSession\<close> and \<^verbatim>\<open>ReceiveReceipt\<close> are fresh numbers, the \<^verbatim>\<open>Map\<close> of sessions is
  an association list in insertion order, and \<^verbatim>\<open>#order\<close>, which holds references to the flows
  of that map, is the list of their sessions. Every rejection of the source precedes every
  mutation, so an operation is \<open>Inl\<close> of the failure or \<open>Inr\<close> of the new state and the
  result. The diagnostic callback \<^verbatim>\<open>observe\<close> is not modelled.
\<close>

section \<open>Counts\<close>

datatype receive_counts = Counts (frames: int) (encodedBytes: int)

datatype receive_failure =
  F_config | F_closed | F_session | F_session_limit | F_capacity | F_frame_size
| F_counter_exhausted | F_receipt | F_retirement | F_frozen_prefix | F_settlement
| F_settlement_pending

definition ZERO_COUNTS :: receive_counts where "ZERO_COUNTS = Counts 0 0"
definition MIN_ENVELOPE_BYTES :: int where
  "MIN_ENVELOPE_BYTES = int (RELAY_OPAQUE_ROUTE_HEADER_BYTES + 1)"
definition MAX_ENVELOPE_BYTES :: int where
  "MAX_ENVELOPE_BYTES = int (RELAY_OPAQUE_ROUTE_HEADER_BYTES + RELAY_MAX_OPAQUE_CIPHERTEXT_BYTES)"

definition positiveUint64 :: "int \<Rightarrow> bool" where
  "positiveUint64 v = (v > 0 \<and> v \<le> MAX_UINT64)"

definition addCounts :: "receive_counts \<Rightarrow> receive_counts \<Rightarrow> receive_counts" where
  "addCounts l r = Counts (frames l + frames r) (encodedBytes l + encodedBytes r)"

definition subtractCounts :: "receive_counts \<Rightarrow> receive_counts \<Rightarrow> receive_counts" where
  "subtractCounts l r = Counts (frames l - frames r) (encodedBytes l - encodedBytes r)"

definition sameCounts :: "receive_counts \<Rightarrow> receive_counts \<Rightarrow> bool" where
  "sameCounts l r = (frames l = frames r \<and> encodedBytes l = encodedBytes r)"

definition appendEnvelope ::
  "receive_counts \<Rightarrow> js_number \<Rightarrow> receive_failure + receive_counts" where
  "appendEnvelope pre n =
     (case n of
        Nonintegral \<Rightarrow> Inl F_frame_size
      | Integral i \<Rightarrow>
          if \<not> is_safe_integer n \<or> i < MIN_ENVELOPE_BYTES \<or> i > MAX_ENVELOPE_BYTES
          then Inl F_frame_size
          else let after = addCounts pre (Counts 1 i) in
               if frames after > MAX_UINT64 \<or> encodedBytes after > MAX_UINT64
               then Inl F_counter_exhausted else Inr after)"

section \<open>State\<close>

type_synonym session_id = nat
type_synonym receipt_id = nat

datatype settlement_state = Active | Retiring | Draining | Settled (ackPending: bool)

record flow =
  fl_wireId :: bytes
  fl_id :: string
  fl_state :: settlement_state
  fl_received :: receive_counts
  fl_consumed :: receive_counts
  fl_discarded :: receive_counts
  fl_consumedPrefix :: receive_counts
  fl_completed :: receive_counts
  fl_reported :: receive_counts

record receipt_prefix =
  rx_session :: session_id
  rx_before :: receive_counts
  rx_after :: receive_counts

record ledger =
  lg_capacity :: receive_counts
  lg_maxSessions :: int
  lg_sessions :: "(session_id \<times> flow) list"
  lg_wireSessions :: "string set"
  lg_order :: "session_id list"
  lg_receipts :: "receipt_id \<rightharpoonup> receipt_prefix"
  lg_held :: receive_counts
  lg_outstanding :: receive_counts
  lg_pendingConsumed :: receive_counts
  lg_cursor :: nat
  lg_closed :: bool
  lg_nextSession :: session_id
  lg_nextReceipt :: receipt_id

text \<open>\<^verbatim>\<open>sessions.get\<close>, the in-place update of a flow, and \<^verbatim>\<open>sessions.delete\<close>.\<close>

definition get_flow :: "ledger \<Rightarrow> session_id \<Rightarrow> flow option" where
  "get_flow l s = map_of (lg_sessions l) s"

definition put_flow :: "session_id \<Rightarrow> flow \<Rightarrow> ledger \<Rightarrow> ledger" where
  "put_flow s f l =
     l\<lparr>lg_sessions := map (\<lambda>(k, g). (k, if k = s then f else g)) (lg_sessions l)\<rparr>"

definition js_blank :: "string \<Rightarrow> bool" where
  "js_blank s = list_all (\<lambda>c. of_char c \<in> {9, 10, 11, 12, 13, 32, 160 :: nat}) s"

fun positive_safe :: "js_number \<Rightarrow> bool" where
  "positive_safe (Integral i) = (is_safe_integer (Integral i) \<and> \<not> i \<le> 0)"
| "positive_safe Nonintegral = False"

definition new_ledger ::
  "string \<Rightarrow> receive_counts \<Rightarrow> js_number \<Rightarrow> receive_failure + ledger" where
  "new_ledger connectionId capacity maxSessions =
     (if js_blank connectionId \<or> \<not> positive_safe maxSessions \<or>
         \<not> list_all positiveUint64 [frames capacity, encodedBytes capacity] then Inl F_config
      else Inr \<lparr>lg_capacity = capacity, lg_maxSessions = js_int maxSessions, lg_sessions = [],
             lg_wireSessions = {}, lg_order = [], lg_receipts = Map.empty, lg_held = ZERO_COUNTS,
             lg_outstanding = ZERO_COUNTS, lg_pendingConsumed = ZERO_COUNTS, lg_cursor = 0,
             lg_closed = False, lg_nextSession = 0, lg_nextReceipt = 0\<rparr>)"

section \<open>Operations\<close>

definition new_flow :: "bytes \<Rightarrow> string \<Rightarrow> flow" where
  "new_flow wireId i = \<lparr>fl_wireId = wireId, fl_id = i, fl_state = Active,
     fl_received = ZERO_COUNTS, fl_consumed = ZERO_COUNTS, fl_discarded = ZERO_COUNTS,
     fl_consumedPrefix = ZERO_COUNTS, fl_completed = ZERO_COUNTS, fl_reported = ZERO_COUNTS\<rparr>"

definition ledger_open :: "ledger \<Rightarrow> bytes \<Rightarrow> receive_failure + ledger \<times> session_id" where
  "ledger_open l wireId =
     (if lg_closed l then Inl F_closed
      else if length wireId \<noteq> RELAY_SESSION_ID_BYTES \<or> \<not> nonzero wireId then Inl F_session
      else let i = bytesToHex wireId in
      if i \<in> lg_wireSessions l then Inl F_session
      else if int (length (lg_sessions l)) \<ge> lg_maxSessions l then Inl F_session_limit
      else let s = lg_nextSession l in
        Inr (l\<lparr>lg_sessions := lg_sessions l @ [(s, new_flow wireId i)],
               lg_wireSessions := insert i (lg_wireSessions l),
               lg_order := lg_order l @ [s], lg_nextSession := Suc s\<rparr>, s))"

definition ledger_check :: "ledger \<Rightarrow> session_id \<Rightarrow> receive_failure + flow" where
  "ledger_check l s =
     (if lg_closed l then Inl F_closed
      else case get_flow l s of None \<Rightarrow> Inl F_session | Some f \<Rightarrow> Inr f)"

definition ledger_receive ::
  "ledger \<Rightarrow> session_id \<Rightarrow> js_number \<Rightarrow> receive_failure + ledger \<times> receipt_id" where
  "ledger_receive l s n =
     bindE (ledger_check l s) (\<lambda>f.
     if (case fl_state f of Draining \<Rightarrow> True | Settled _ \<Rightarrow> True | _ \<Rightarrow> False)
     then Inl F_frozen_prefix
     else bindE (appendEnvelope (fl_received f) n) (\<lambda>after.
     let size = subtractCounts after (fl_received f);
         outstanding = addCounts (lg_outstanding l) size in
     if frames outstanding > frames (lg_capacity l) \<or>
        encodedBytes outstanding > encodedBytes (lg_capacity l) then Inl F_capacity
     else let r = lg_nextReceipt l;
              l1 = l\<lparr>lg_receipts := (lg_receipts l)(r \<mapsto>
                     \<lparr>rx_session = s, rx_before = fl_received f, rx_after = after\<rparr>),
                     lg_nextReceipt := Suc r\<rparr>;
              l2 = put_flow s (f\<lparr>fl_received := after\<rparr>) l1 in
          Inr (l2\<lparr>lg_held := addCounts (lg_held l) size, lg_outstanding := outstanding\<rparr>, r)))"

text \<open>\<^verbatim>\<open>#complete\<close>, with \<open>discard\<close> for the action \<^verbatim>\<open>'discard'\<close> and its negation for
  \<^verbatim>\<open>'consume'\<close>.\<close>

definition ledger_complete :: "bool \<Rightarrow> ledger \<Rightarrow> receipt_id \<Rightarrow> receive_failure + ledger" where
  "ledger_complete discard l r =
     (if lg_closed l then Inl F_closed
      else case lg_receipts l r of None \<Rightarrow> Inl F_receipt | Some pre \<Rightarrow>
        bindE (ledger_check l (rx_session pre)) (\<lambda>f.
        if \<not> sameCounts (rx_before pre) (fl_completed f) then Inl F_receipt
        else if discard \<and> fl_state f = Active then Inl F_retirement
        else let size = subtractCounts (rx_after pre) (rx_before pre);
                 f1 = f\<lparr>fl_completed := rx_after pre\<rparr>;
                 l1 = l\<lparr>lg_held := subtractCounts (lg_held l) size\<rparr> in
          if discard then
            Inr (put_flow (rx_session pre) (f1\<lparr>fl_discarded := addCounts (fl_discarded f) size\<rparr>) l1)
          else
            let f2 = f1\<lparr>fl_consumed := addCounts (fl_consumed f) size\<rparr> in
            if frames (fl_discarded f) = 0 then
              Inr (put_flow (rx_session pre) (f2\<lparr>fl_consumedPrefix := rx_after pre\<rparr>)
                (l1\<lparr>lg_pendingConsumed := addCounts (lg_pendingConsumed l) size\<rparr>))
            else Inr (put_flow (rx_session pre) f2 l1)))"

definition ledger_consume :: "ledger \<Rightarrow> receipt_id \<Rightarrow> receive_failure + ledger" where
  "ledger_consume l r = ledger_complete False l r"

definition ledger_discard :: "ledger \<Rightarrow> receipt_id \<Rightarrow> receive_failure + ledger" where
  "ledger_discard l r = ledger_complete True l r"

definition ledger_retire :: "ledger \<Rightarrow> session_id \<Rightarrow> receive_failure + ledger" where
  "ledger_retire l s =
     bindE (ledger_check l s) (\<lambda>f.
     Inr (if fl_state f = Active then put_flow s (f\<lparr>fl_state := Retiring\<rparr>) l else l))"

definition is_settled :: "settlement_state \<Rightarrow> bool" where
  "is_settled st = (case st of Settled _ \<Rightarrow> True | _ \<Rightarrow> False)"

definition ledger_notice ::
  "ledger \<Rightarrow> session_id \<Rightarrow> settlement \<Rightarrow> receive_failure + ledger" where
  "ledger_notice l s notice =
     bindE (ledger_check l s) (\<lambda>f.
     let t = st_totals notice in
     if st_kind notice \<noteq> Settlement_notice \<or> \<not> equalBytes (dt_relaySessionId t) (fl_wireId f) \<or>
        dt_totalFrames t \<noteq> frames (fl_received f) \<or>
        dt_totalEncodedBytes t \<noteq> encodedBytes (fl_received f) then Inl F_settlement
     else Inr (put_flow s
       (f\<lparr>fl_state := (if is_settled (fl_state f) then Settled True else Draining)\<rparr>) l))"

definition feedbackReady :: "ledger \<Rightarrow> bool" where
  "feedbackReady l = (\<not> lg_closed l \<and> frames (lg_pendingConsumed l) \<noteq> 0)"

text \<open>
  The scan of \<^verbatim>\<open>takeConsumed\<close>: \<open>n\<close> counts the remaining iterations, and the cursor moves
  on every one of them.
\<close>

fun consumed_scan :: "nat \<Rightarrow> ledger \<Rightarrow> ledger \<times> delivery_totals option" where
  "consumed_scan 0 l = (l, None)"
| "consumed_scan (Suc n) l =
     (let s = lg_order l ! lg_cursor l;
          l1 = l\<lparr>lg_cursor := (lg_cursor l + 1) mod length (lg_order l)\<rparr> in
      case get_flow l s of
        None \<Rightarrow> consumed_scan n l1
      | Some f \<Rightarrow>
          if is_settled (fl_state f) \<or> sameCounts (fl_consumedPrefix f) (fl_reported f)
          then consumed_scan n l1
          else let delta = subtractCounts (fl_consumedPrefix f) (fl_reported f);
                   l2 = l1\<lparr>lg_outstanding := subtractCounts (lg_outstanding l) delta,
                           lg_pendingConsumed := subtractCounts (lg_pendingConsumed l) delta\<rparr>;
                   f1 = f\<lparr>fl_reported := fl_consumedPrefix f\<rparr> in
               (put_flow s f1 l2,
                Some \<lparr>dt_relaySessionId = fl_wireId f1, dt_totalFrames = frames (fl_reported f1),
                      dt_totalEncodedBytes = encodedBytes (fl_reported f1)\<rparr>))"

definition takeConsumed :: "ledger \<Rightarrow> ledger \<times> delivery_totals option" where
  "takeConsumed l =
     (if \<not> feedbackReady l then (l, None) else consumed_scan (length (lg_order l)) l)"

definition takeSettlement :: "ledger \<Rightarrow> session_id \<Rightarrow> ledger \<times> settlement option" where
  "takeSettlement l s =
     (case get_flow l s of
        None \<Rightarrow> (l, None)
      | Some f \<Rightarrow>
          if lg_closed l \<or> \<not> sameCounts (fl_completed f) (fl_received f) then (l, None)
          else if fl_state f = Active \<or> fl_state f = Retiring \<or> fl_state f = Settled False
          then (l, None)
          else
            let l1 = (if fl_state f = Draining then
                        l\<lparr>lg_outstanding := subtractCounts (lg_outstanding l)
                            (subtractCounts (fl_received f) (fl_reported f)),
                          lg_pendingConsumed := subtractCounts (lg_pendingConsumed l)
                            (subtractCounts (fl_consumedPrefix f) (fl_reported f))\<rparr>
                      else l) in
            (put_flow s (f\<lparr>fl_state := Settled False\<rparr>) l1,
             Some \<lparr>st_kind = Settlement_ack, st_totals =
               \<lparr>dt_relaySessionId = fl_wireId f, dt_totalFrames = frames (fl_received f),
                dt_totalEncodedBytes = encodedBytes (fl_received f)\<rparr>\<rparr>))"

fun index_of :: "'a \<Rightarrow> 'a list \<Rightarrow> nat" where
  "index_of x [] = 0"
| "index_of x (y # ys) = (if x = y then 0 else Suc (index_of x ys))"

definition ledger_forget :: "ledger \<Rightarrow> session_id \<Rightarrow> receive_failure + ledger" where
  "ledger_forget l s =
     bindE (ledger_check l s) (\<lambda>f.
     if fl_state f \<noteq> Settled False then Inl F_settlement_pending
     else let index = index_of s (lg_order l);
              order = take index (lg_order l) @ drop (Suc index) (lg_order l);
              cursor = (if lg_cursor l > index then lg_cursor l - 1 else lg_cursor l);
              cursor = (if cursor \<ge> length order then 0 else cursor) in
       Inr (l\<lparr>lg_sessions := filter (\<lambda>(k, _). k \<noteq> s) (lg_sessions l),
              lg_wireSessions := lg_wireSessions l - {fl_id f},
              lg_order := order, lg_cursor := cursor\<rparr>))"

definition ledger_close :: "ledger \<Rightarrow> ledger" where
  "ledger_close l = l\<lparr>lg_closed := True\<rparr>"

datatype receive_phase = Ph_active | Ph_retiring | Ph_draining | Ph_settled

fun phase_of :: "settlement_state \<Rightarrow> receive_phase" where
  "phase_of Active = Ph_active"
| "phase_of Retiring = Ph_retiring"
| "phase_of Draining = Ph_draining"
| "phase_of (Settled _) = Ph_settled"

record receive_progress =
  pg_phase :: receive_phase
  pg_received :: receive_counts
  pg_consumed :: receive_counts
  pg_discarded :: receive_counts
  pg_consumedPrefix :: receive_counts

definition ledger_progress :: "ledger \<Rightarrow> session_id \<Rightarrow> receive_progress option" where
  "ledger_progress l s =
     (case get_flow l s of
        Some f \<Rightarrow> if lg_closed l then None else
          Some \<lparr>pg_phase = phase_of (fl_state f), pg_received = fl_received f,
            pg_consumed = fl_consumed f, pg_discarded = fl_discarded f,
            pg_consumedPrefix = fl_consumedPrefix f\<rparr>
      | None \<Rightarrow> None)"


record receive_usage =
  us_held :: receive_counts
  us_outstanding :: receive_counts
  us_pendingConsumed :: receive_counts
  us_retainedSessions :: nat

definition ledger_usage :: "ledger \<Rightarrow> receive_usage" where
  "ledger_usage l = \<lparr>us_held = lg_held l, us_outstanding = lg_outstanding l,
     us_pendingConsumed = lg_pendingConsumed l, us_retainedSessions = length (lg_sessions l)\<rparr>"

section \<open>Counts form an ordered group\<close>

instantiation receive_counts :: ab_group_add
begin

definition zero_receive_counts :: receive_counts where
  "zero_receive_counts = ZERO_COUNTS"

definition plus_receive_counts :: "receive_counts \<Rightarrow> receive_counts \<Rightarrow> receive_counts" where
  "plus_receive_counts = addCounts"

definition minus_receive_counts :: "receive_counts \<Rightarrow> receive_counts \<Rightarrow> receive_counts" where
  "minus_receive_counts = subtractCounts"

definition uminus_receive_counts :: "receive_counts \<Rightarrow> receive_counts" where
  "uminus_receive_counts = subtractCounts ZERO_COUNTS"

instance
  by standard (auto simp add: zero_receive_counts_def plus_receive_counts_def
      minus_receive_counts_def uminus_receive_counts_def addCounts_def subtractCounts_def
      ZERO_COUNTS_def)

end

instantiation receive_counts :: ordered_ab_group_add
begin

definition less_eq_receive_counts :: "receive_counts \<Rightarrow> receive_counts \<Rightarrow> bool" where
  "less_eq_receive_counts a b \<longleftrightarrow> frames a \<le> frames b \<and> encodedBytes a \<le> encodedBytes b"

definition less_receive_counts :: "receive_counts \<Rightarrow> receive_counts \<Rightarrow> bool" where
  "less_receive_counts a b \<longleftrightarrow> a \<le> b \<and> \<not> b \<le> (a :: receive_counts)"

instance
  by standard (auto simp add: less_eq_receive_counts_def less_receive_counts_def
      plus_receive_counts_def addCounts_def intro: receive_counts.expand)

end

lemma counts_ops [simp]:
  "addCounts a b = a + b" "subtractCounts a b = a - b" "ZERO_COUNTS = 0"
  "sameCounts a b \<longleftrightarrow> a = b"
  by (auto simp add: plus_receive_counts_def minus_receive_counts_def zero_receive_counts_def
      sameCounts_def intro: receive_counts.expand)

lemma counts_sel [simp]:
  "frames (a + b) = frames a + frames b" "encodedBytes (a + b) = encodedBytes a + encodedBytes b"
  "frames (a - b) = frames a - frames b" "encodedBytes (a - b) = encodedBytes a - encodedBytes b"
  "frames 0 = 0" "encodedBytes 0 = 0"
  by (simp_all add: plus_receive_counts_def minus_receive_counts_def zero_receive_counts_def
      addCounts_def subtractCounts_def ZERO_COUNTS_def del: counts_ops)

lemma counts_le_iff: "a \<le> b \<longleftrightarrow> frames a \<le> frames b \<and> encodedBytes a \<le> encodedBytes b"
  for a b :: receive_counts
  by (simp add: less_eq_receive_counts_def)

lemma counts_eq_iff: "a = b \<longleftrightarrow> frames a = frames b \<and> encodedBytes a = encodedBytes b"
  by (auto intro: receive_counts.expand)

text \<open>
  Totals of complete envelopes: each frame contributes between the smallest and the largest
  envelope. This is the shape the wire validation of cumulative totals asks for.
\<close>

definition shaped :: "receive_counts \<Rightarrow> bool" where
  "shaped c \<longleftrightarrow> MIN_ENVELOPE_BYTES * frames c \<le> encodedBytes c \<and>
     encodedBytes c \<le> MAX_ENVELOPE_BYTES * frames c"

lemma shaped_iff: "shaped c \<longleftrightarrow> 21 * frames c \<le> encodedBytes c \<and> encodedBytes c \<le> 65556 * frames c"
  by (simp add: shaped_def MIN_ENVELOPE_BYTES_def MAX_ENVELOPE_BYTES_def relay_constants)

lemma shaped_zero [simp]: "shaped 0"
  by (simp add: shaped_iff)

lemma shaped_add: "shaped a \<Longrightarrow> shaped b \<Longrightarrow> shaped (a + b)"
  by (auto simp add: shaped_iff)

lemma shaped_chain: "shaped (b - a) \<Longrightarrow> shaped (c - b) \<Longrightarrow> shaped (c - a)"
  using shaped_add [of "b - a" "c - b"] by (simp add: algebra_simps)

lemma shaped_from: "shaped a \<Longrightarrow> shaped (b - a) \<Longrightarrow> shaped b"
  using shaped_add [of a "b - a"] by simp

lemma shaped_nonneg: "shaped c \<Longrightarrow> 0 \<le> c"
  by (auto simp add: shaped_iff counts_le_iff)

lemma shaped_le: "shaped (b - a) \<Longrightarrow> a \<le> b"
  using shaped_nonneg [of "b - a"] by (simp add: counts_le_iff)

lemma shaped_zero_frames: "shaped c \<Longrightarrow> frames c = 0 \<longleftrightarrow> c = 0"
  by (auto simp add: shaped_iff counts_eq_iff)

lemma appendEnvelope_Inr:
  "appendEnvelope pre n = Inr after \<longleftrightarrow>
     (\<exists>i. n = Integral i \<and> 21 \<le> i \<and> i \<le> 65556 \<and> after = pre + Counts 1 i \<and>
        frames after \<le> MAX_UINT64 \<and> encodedBytes after \<le> MAX_UINT64)"
  by (cases n) (auto simp add: appendEnvelope_def Let_def MIN_ENVELOPE_BYTES_def
      MAX_ENVELOPE_BYTES_def relay_constants max_safe_integer_def)

section \<open>Invariant\<close>

definition flow_ok :: "flow \<Rightarrow> bool" where
  "flow_ok f \<longleftrightarrow>
     length (fl_wireId f) = RELAY_SESSION_ID_BYTES \<and> nonzero (fl_wireId f) \<and>
     fl_id f = bytesToHex (fl_wireId f) \<and>
     shaped (fl_reported f) \<and> shaped (fl_consumedPrefix f - fl_reported f) \<and>
     shaped (fl_completed f - fl_consumedPrefix f) \<and> shaped (fl_received f - fl_completed f) \<and>
     frames (fl_received f) \<le> MAX_UINT64 \<and> encodedBytes (fl_received f) \<le> MAX_UINT64 \<and>
     fl_consumed f + fl_discarded f = fl_completed f \<and>
     shaped (fl_consumed f) \<and> shaped (fl_discarded f) \<and>
     (fl_discarded f = 0 \<longrightarrow> fl_consumedPrefix f = fl_completed f) \<and>
     (fl_state f = Active \<longrightarrow> fl_discarded f = 0) \<and>
     (is_settled (fl_state f) \<longrightarrow> fl_completed f = fl_received f)"

text \<open>What one flow contributes to the three connection totals.\<close>

definition held_of :: "flow \<Rightarrow> receive_counts" where
  "held_of f = fl_received f - fl_completed f"

definition outstanding_of :: "flow \<Rightarrow> receive_counts" where
  "outstanding_of f = (if is_settled (fl_state f) then 0 else fl_received f - fl_reported f)"

definition pending_of :: "flow \<Rightarrow> receive_counts" where
  "pending_of f = (if is_settled (fl_state f) then 0 else fl_consumedPrefix f - fl_reported f)"

definition flow_sum :: "(flow \<Rightarrow> receive_counts) \<Rightarrow> ledger \<Rightarrow> receive_counts" where
  "flow_sum g l = sum_list (map (\<lambda>p. g (snd p)) (lg_sessions l))"

definition ledger_structure :: "ledger \<Rightarrow> bool" where
  "ledger_structure l \<longleftrightarrow>
     lg_order l = map fst (lg_sessions l) \<and> distinct (lg_order l) \<and>
     (\<forall>s f. (s, f) \<in> set (lg_sessions l) \<longrightarrow> flow_ok f \<and> s < lg_nextSession l) \<and>
     lg_wireSessions l = (\<lambda>p. fl_id (snd p)) ` set (lg_sessions l) \<and>
     distinct (map (\<lambda>p. fl_id (snd p)) (lg_sessions l)) \<and>
     int (length (lg_sessions l)) \<le> lg_maxSessions l \<and>
     (lg_cursor l < length (lg_order l) \<or> lg_cursor l = 0)"

definition ledger_totals :: "ledger \<Rightarrow> bool" where
  "ledger_totals l \<longleftrightarrow>
     lg_held l = flow_sum held_of l \<and> lg_outstanding l = flow_sum outstanding_of l \<and>
     lg_pendingConsumed l = flow_sum pending_of l \<and> lg_outstanding l \<le> lg_capacity l"

definition ledger_receipts :: "ledger \<Rightarrow> bool" where
  "ledger_receipts l \<longleftrightarrow>
     (\<forall>r p. lg_receipts l r = Some p \<longrightarrow>
        r < lg_nextReceipt l \<and> rx_session p < lg_nextSession l \<and>
        frames (rx_after p - rx_before p) = 1 \<and> shaped (rx_after p - rx_before p) \<and>
        (\<forall>f. get_flow l (rx_session p) = Some f \<longrightarrow> shaped (fl_received f - rx_after p)))"

definition ledger_inv :: "ledger \<Rightarrow> bool" where
  "ledger_inv l \<longleftrightarrow> ledger_structure l \<and> ledger_totals l \<and> ledger_receipts l"

subsection \<open>Updating one flow\<close>

lemma get_flow_update [simp]:
  "get_flow (l\<lparr>lg_held := a\<rparr>) s = get_flow l s"
  "get_flow (l\<lparr>lg_outstanding := a\<rparr>) s = get_flow l s"
  "get_flow (l\<lparr>lg_pendingConsumed := a\<rparr>) s = get_flow l s"
  "get_flow (l\<lparr>lg_cursor := n\<rparr>) s = get_flow l s"
  "get_flow (l\<lparr>lg_closed := b\<rparr>) s = get_flow l s"
  "get_flow (l\<lparr>lg_receipts := rs\<rparr>) s = get_flow l s"
  "get_flow (l\<lparr>lg_nextReceipt := n\<rparr>) s = get_flow l s"
  by (simp_all add: get_flow_def)

lemma put_flow_sel [simp]:
  "lg_capacity (put_flow s f l) = lg_capacity l" "lg_maxSessions (put_flow s f l) = lg_maxSessions l"
  "lg_wireSessions (put_flow s f l) = lg_wireSessions l" "lg_order (put_flow s f l) = lg_order l"
  "lg_receipts (put_flow s f l) = lg_receipts l" "lg_held (put_flow s f l) = lg_held l"
  "lg_outstanding (put_flow s f l) = lg_outstanding l"
  "lg_pendingConsumed (put_flow s f l) = lg_pendingConsumed l"
  "lg_cursor (put_flow s f l) = lg_cursor l" "lg_closed (put_flow s f l) = lg_closed l"
  "lg_nextSession (put_flow s f l) = lg_nextSession l"
  "lg_nextReceipt (put_flow s f l) = lg_nextReceipt l"
  by (simp_all add: put_flow_def)

lemma map_of_put:
  "map_of (map (\<lambda>(k, g). (k, if k = s then f else g)) xs) t =
     (if t = s then (if map_of xs s = None then None else Some f) else map_of xs t)"
  by (induction xs) auto

lemma get_flow_put:
  "get_flow (put_flow s f l) t =
     (if t = s then (if get_flow l s = None then None else Some f) else get_flow l t)"
  by (simp add: get_flow_def put_flow_def map_of_put)

lemma put_absent: "s \<notin> fst ` set xs \<Longrightarrow> map (\<lambda>(k, g). (k, if k = s then f else g)) xs = xs"
  by (induction xs) (auto split: prod.splits)

lemma sum_put:
  fixes g :: "'f \<Rightarrow> 'c :: ab_group_add"
  assumes "distinct (map fst xs)" "map_of xs s = Some f"
  shows "sum_list (map (\<lambda>p. g (snd p)) (map (\<lambda>(k, h). (k, if k = s then f' else h)) xs)) =
     sum_list (map (\<lambda>p. g (snd p)) xs) + (g f' - g f)"
  using assms
proof (induction xs)
  case (Cons x xs)
  then show ?case
    by (cases x; cases "fst x = s") (auto simp add: put_absent algebra_simps)
qed simp

lemma ids_put:
  assumes "distinct (map fst xs)" "map_of xs s = Some f" "h f' = h f"
  shows "map (\<lambda>p. h (snd p)) (map (\<lambda>(k, g). (k, if k = s then f' else g)) xs) =
     map (\<lambda>p. h (snd p)) xs"
  using assms
proof (induction xs)
  case (Cons x xs)
  then show ?case
    by (cases x; cases "fst x = s") (auto simp add: put_absent)
qed simp

lemma fst_put: "map fst (map (\<lambda>(k, g). (k, if k = s then f else g)) xs) = map fst xs"
  by (induction xs) auto

lemma structure_get:
  assumes "ledger_structure l" "get_flow l s = Some f"
  shows "flow_ok f" "s < lg_nextSession l" "(s, f) \<in> set (lg_sessions l)"
    "distinct (map fst (lg_sessions l))"
  using assms by (auto simp add: ledger_structure_def get_flow_def dest: map_of_SomeD)

lemma structure_put:
  assumes inv: "ledger_structure l" and f: "get_flow l s = Some f"
    and f': "flow_ok f'" "fl_id f' = fl_id f"
    and l': "lg_sessions l' = lg_sessions (put_flow s f' l)" "lg_order l' = lg_order l"
      "lg_wireSessions l' = lg_wireSessions l" "lg_maxSessions l' = lg_maxSessions l"
      "lg_nextSession l' = lg_nextSession l"
      "lg_cursor l' < length (lg_order l) \<or> lg_cursor l' = 0"
  shows "ledger_structure l'"
proof -
  let ?xs = "lg_sessions l" and ?g = "\<lambda>(k, h). (k, if k = s then f' else h)"
  have l's: "lg_sessions l' = map ?g ?xs"
    using l' by (simp add: put_flow_def)
  have ids: "map (\<lambda>p. fl_id (snd p)) (map ?g ?xs) = map (\<lambda>p. fl_id (snd p)) ?xs"
    using structure_get(4) [OF inv f] f f'(2) by (intro ids_put) (auto simp add: get_flow_def)
  then have im: "(\<lambda>p. fl_id (snd p)) ` set (map ?g ?xs) = (\<lambda>p. fl_id (snd p)) ` set ?xs"
    by (metis list.set_map)
  have ok: "\<forall>t h. (t, h) \<in> set (map ?g ?xs) \<longrightarrow> flow_ok h \<and> t < lg_nextSession l"
    using inv f'(1) by (auto simp add: ledger_structure_def)
  from inv show ?thesis
    unfolding ledger_structure_def l's l'(2-5) fst_put ids im length_map
    using l'(6) ok by (elim conjE) (intro conjI; assumption)
qed

lemma totals_put:
  assumes tot: "ledger_totals l" and str: "ledger_structure l" and f: "get_flow l s = Some f"
    and l': "lg_sessions l' = lg_sessions (put_flow s f' l)"
      "lg_held l' = lg_held l + (held_of f' - held_of f)"
      "lg_outstanding l' = lg_outstanding l + (outstanding_of f' - outstanding_of f)"
      "lg_pendingConsumed l' = lg_pendingConsumed l + (pending_of f' - pending_of f)"
      "lg_outstanding l' \<le> lg_capacity l" "lg_capacity l' = lg_capacity l"
  shows "ledger_totals l'"
proof -
  have "flow_sum g l' = flow_sum g l + (g f' - g f)" for g
    using structure_get(4) [OF str f] f sum_put [of "lg_sessions l" s f g f'] l'(1)
    by (simp add: flow_sum_def put_flow_def get_flow_def)
  then show ?thesis
    using tot l' by (simp add: ledger_totals_def)
qed

lemma receipts_put:
  assumes rc: "ledger_receipts l" and f: "get_flow l s = Some f"
    and l': "lg_sessions l' = lg_sessions (put_flow s f' l)" "lg_receipts l' = lg_receipts l"
      "lg_nextReceipt l' = lg_nextReceipt l" "lg_nextSession l' = lg_nextSession l"
    and grow: "shaped (fl_received f' - fl_received f)"
  shows "ledger_receipts l'"
proof -
  have "get_flow l' t = get_flow (put_flow s f' l) t" for t
    using l'(1) by (simp add: get_flow_def)
  then have "shaped (fl_received g - rx_after p)"
    if "lg_receipts l r = Some p" "get_flow l' (rx_session p) = Some g" for r p g
    using rc f that shaped_chain [OF _ grow, of "rx_after p"]
    by (auto simp add: ledger_receipts_def get_flow_put split: if_splits)
  with rc l' show ?thesis
    by (simp add: ledger_receipts_def)
qed

lemma ledger_inv_put:
  assumes inv: "ledger_inv l" and f: "get_flow l s = Some f"
    and f': "flow_ok f'" "fl_id f' = fl_id f" "shaped (fl_received f' - fl_received f)"
    and l': "lg_sessions l' = lg_sessions (put_flow s f' l)" "lg_order l' = lg_order l"
      "lg_wireSessions l' = lg_wireSessions l" "lg_maxSessions l' = lg_maxSessions l"
      "lg_nextSession l' = lg_nextSession l" "lg_receipts l' = lg_receipts l"
      "lg_nextReceipt l' = lg_nextReceipt l" "lg_capacity l' = lg_capacity l"
      "lg_cursor l' < length (lg_order l) \<or> lg_cursor l' = 0"
      "lg_held l' = lg_held l + (held_of f' - held_of f)"
      "lg_outstanding l' = lg_outstanding l + (outstanding_of f' - outstanding_of f)"
      "lg_pendingConsumed l' = lg_pendingConsumed l + (pending_of f' - pending_of f)"
      "lg_outstanding l' \<le> lg_capacity l"
  shows "ledger_inv l'"
  using inv f f' l' unfolding ledger_inv_def
  by (blast intro: structure_put totals_put receipts_put)

lemma ledger_inv_get:
  assumes "ledger_inv l" "get_flow l s = Some f"
  shows "flow_ok f" "s < lg_nextSession l" "lg_outstanding l \<le> lg_capacity l"
    "lg_cursor l < length (lg_order l) \<or> lg_cursor l = 0"
proof -
  from assms(1) have "ledger_structure l" "ledger_totals l"
    by (simp_all add: ledger_inv_def)
  then show "flow_ok f" "s < lg_nextSession l" "lg_outstanding l \<le> lg_capacity l"
    using structure_get(1,2) [OF _ assms(2)] unfolding ledger_totals_def by blast+
  show "lg_cursor l < length (lg_order l) \<or> lg_cursor l = 0"
    using \<open>ledger_structure l\<close> unfolding ledger_structure_def by (elim conjE)
qed

lemma ledger_check_Inr [res_simps]:
  "ledger_check l s = Inr f \<longleftrightarrow> \<not> lg_closed l \<and> get_flow l s = Some f"
  by (auto simp add: ledger_check_def split: option.splits)

subsection \<open>Every operation keeps the invariant\<close>

lemma new_ledger_inv:
  assumes "new_ledger c cap n = Inr l"
  shows "ledger_inv l"
  using assms by (cases n) (auto simp add: new_ledger_def ledger_inv_def ledger_structure_def
      ledger_totals_def ledger_receipts_def flow_sum_def positiveUint64_def counts_le_iff
      split: if_splits)

lemma bytesToHex_new_flow: "flow_ok (new_flow w (bytesToHex w)) \<longleftrightarrow>
    length w = RELAY_SESSION_ID_BYTES \<and> nonzero w"
  by (auto simp add: flow_ok_def new_flow_def is_settled_def MAX_UINT64_def)

lemma ledger_open_inv:
  assumes inv: "ledger_inv l" and op: "ledger_open l w = Inr (l', s)"
  shows "ledger_inv l'"
proof -
  have s: "s = lg_nextSession l" and w: "length w = RELAY_SESSION_ID_BYTES" "nonzero w"
    and new: "bytesToHex w \<notin> lg_wireSessions l" "int (length (lg_sessions l)) < lg_maxSessions l"
    and l': "l' = l\<lparr>lg_sessions := lg_sessions l @ [(s, new_flow w (bytesToHex w))],
               lg_wireSessions := insert (bytesToHex w) (lg_wireSessions l),
               lg_order := lg_order l @ [s], lg_nextSession := Suc s\<rparr>"
    using op by (auto simp add: ledger_open_def Let_def split: if_splits)
  have fresh: "s \<notin> fst ` set (lg_sessions l)"
    using inv s unfolding ledger_inv_def ledger_structure_def by fastforce
  have get: "get_flow l' t = (if t = s then Some (new_flow w (bytesToHex w)) else get_flow l t)" for t
    using fresh map_of_eq_None_iff [of "lg_sessions l" s]
    by (auto simp add: l' get_flow_def map_add_def split: option.splits)
  have "ledger_structure l'"
    using inv w new fresh bytesToHex_new_flow [of w] unfolding ledger_inv_def ledger_structure_def
    by (auto simp add: l' s new_flow_def less_Suc_eq)
  moreover have "ledger_totals l'"
    using inv by (auto simp add: ledger_inv_def ledger_totals_def l' flow_sum_def new_flow_def
        held_of_def outstanding_of_def pending_of_def)
  moreover have "ledger_receipts l'"
    using inv unfolding ledger_inv_def ledger_receipts_def get
    by (fastforce simp add: s l' less_Suc_eq)
  ultimately show ?thesis by (simp add: ledger_inv_def)
qed

lemma ledger_retire_inv:
  assumes inv: "ledger_inv l" and op: "ledger_retire l s = Inr l'"
  shows "ledger_inv l'"
proof -
  obtain f where f: "get_flow l s = Some f"
    and l': "l' = (if fl_state f = Active then put_flow s (f\<lparr>fl_state := Retiring\<rparr>) l else l)"
    using op by (auto simp add: ledger_retire_def res_simps)
  show ?thesis
  proof (cases "fl_state f = Active")
    case True
    show ?thesis
      using ledger_inv_get [OF inv f] True
      by (intro ledger_inv_put [OF inv f, where f' = "f\<lparr>fl_state := Retiring\<rparr>"])
         (auto simp add: l' flow_ok_def is_settled_def held_of_def outstanding_of_def pending_of_def)
  qed (simp add: l' inv)
qed

lemma ledger_notice_inv:
  assumes inv: "ledger_inv l" and op: "ledger_notice l s n = Inr l'"
  shows "ledger_inv l'"
proof -
  obtain f where f: "get_flow l s = Some f" and l': "l' = put_flow s
      (f\<lparr>fl_state := (if is_settled (fl_state f) then Settled True else Draining)\<rparr>) l"
    using op by (auto simp add: ledger_notice_def res_simps Let_def split: if_splits)
  show ?thesis
    using ledger_inv_get [OF inv f]
    by (intro ledger_inv_put [OF inv f, where f' =
          "f\<lparr>fl_state := (if is_settled (fl_state f) then Settled True else Draining)\<rparr>"])
       (auto simp add: l' flow_ok_def is_settled_def held_of_def outstanding_of_def pending_of_def
          split: settlement_state.splits)
qed

lemma ledger_receive_cases:
  assumes "ledger_receive l s n = Inr (l', r)"
  obtains f i after where "get_flow l s = Some f" "\<not> lg_closed l" "\<not> is_settled (fl_state f)"
    "n = Integral i" "21 \<le> i" "i \<le> 65556" "after = fl_received f + Counts 1 i"
    "frames after \<le> MAX_UINT64" "encodedBytes after \<le> MAX_UINT64"
    "lg_outstanding l + Counts 1 i \<le> lg_capacity l" "r = lg_nextReceipt l"
    "l' = put_flow s (f\<lparr>fl_received := after\<rparr>) (l\<lparr>lg_receipts := (lg_receipts l)(r \<mapsto>
       \<lparr>rx_session = s, rx_before = fl_received f, rx_after = after\<rparr>), lg_nextReceipt := Suc r,
       lg_held := lg_held l + Counts 1 i, lg_outstanding := lg_outstanding l + Counts 1 i\<rparr>)"
proof -
  obtain f after where f: "get_flow l s = Some f" "\<not> lg_closed l" "\<not> is_settled (fl_state f)"
    and app: "appendEnvelope (fl_received f) n = Inr after"
    using assms by (cases "ledger_check l s")
      (auto simp add: ledger_receive_def res_simps is_settled_def split: if_splits settlement_state.splits)
  then obtain i where i: "n = Integral i" "21 \<le> i" "i \<le> 65556" "after = fl_received f + Counts 1 i"
      "frames after \<le> MAX_UINT64" "encodedBytes after \<le> MAX_UINT64"
    by (auto simp add: appendEnvelope_Inr)
  have "ledger_check l s = Inr f"
    using f by (simp add: res_simps)
  then have "lg_outstanding l + Counts 1 i \<le> lg_capacity l \<and> r = lg_nextReceipt l \<and>
    l' = put_flow s (f\<lparr>fl_received := after\<rparr>) (l\<lparr>lg_receipts := (lg_receipts l)(r \<mapsto>
       \<lparr>rx_session = s, rx_before = fl_received f, rx_after = after\<rparr>), lg_nextReceipt := Suc r,
       lg_held := lg_held l + Counts 1 i, lg_outstanding := lg_outstanding l + Counts 1 i\<rparr>)"
    using assms app i
    by (auto simp add: ledger_receive_def Let_def counts_le_iff put_flow_def split: if_splits)
  with f i that show ?thesis by blast
qed

lemma ledger_receive_inv:
  assumes inv: "ledger_inv l" and op: "ledger_receive l s n = Inr (l', r)"
  shows "ledger_inv l'"
  using op
proof (cases rule: ledger_receive_cases)
  case (1 f i after)
  let ?f = "f\<lparr>fl_received := after\<rparr>"
  note parts = inv [unfolded ledger_inv_def]
  have env: "shaped (Counts 1 i)"
    using 1 by (simp add: shaped_iff)
  have ok: "flow_ok ?f"
    using ledger_inv_get(1) [OF inv 1(1)] 1 shaped_add [OF _ env, of "fl_received f - fl_completed f"]
    by (auto simp add: flow_ok_def algebra_simps)
  have sess: "lg_sessions l' = lg_sessions (put_flow s ?f l)"
    by (simp add: 1(12) put_flow_def)
  have "ledger_structure l'"
    using parts
    by (intro structure_put [of l s f ?f, OF _ 1(1) ok _ sess])
      (auto simp add: 1(12) ledger_structure_def)
  moreover have "ledger_totals l'"
    using parts 1(10)
    by (intro totals_put [of l s f l' ?f, OF _ _ 1(1) sess])
      (auto simp add: 1(3,7,12) held_of_def outstanding_of_def pending_of_def ledger_totals_def)
  moreover have "ledger_receipts l'"
    unfolding ledger_receipts_def
  proof (intro allI impI)
    fix r' p assume p: "lg_receipts l' r' = Some p"
    have get: "get_flow l' t = (if t = s then Some ?f else get_flow l t)" for t
      using get_flow_put [of s ?f l t] 1(1) by (simp add: 1 get_flow_def put_flow_def)
    have grow: "shaped (after - a)" if "shaped (fl_received f - a)" for a
      using shaped_add [OF that env] 1(7) by (simp add: algebra_simps)
    show "r' < lg_nextReceipt l' \<and> rx_session p < lg_nextSession l' \<and>
        frames (rx_after p - rx_before p) = 1 \<and> shaped (rx_after p - rx_before p) \<and>
        (\<forall>g. get_flow l' (rx_session p) = Some g \<longrightarrow> shaped (fl_received g - rx_after p))"
    proof (cases "r' = r")
      case True
      then have "p = \<lparr>rx_session = s, rx_before = fl_received f, rx_after = after\<rparr>"
        using p 1 by simp
      then show ?thesis
        using 1 True env get ledger_inv_get(2) [OF inv 1(1)] by simp
    next
      case False
      then have "lg_receipts l r' = Some p"
        using p 1 by simp
      then have "r' < lg_nextReceipt l \<and> rx_session p < lg_nextSession l \<and>
          frames (rx_after p - rx_before p) = 1 \<and> shaped (rx_after p - rx_before p) \<and>
          (\<forall>g. get_flow l (rx_session p) = Some g \<longrightarrow> shaped (fl_received g - rx_after p))"
        using parts unfolding ledger_receipts_def by blast
      then show ?thesis
        using 1 get grow by auto
    qed
  qed
  ultimately show ?thesis by (simp add: ledger_inv_def)
qed

text \<open>The flow after completing \<open>z\<close> more envelopes, on the three branches of the code.\<close>

definition discarded_flow :: "flow \<Rightarrow> receive_counts \<Rightarrow> flow" where
  "discarded_flow f z = f\<lparr>fl_completed := fl_completed f + z, fl_discarded := fl_discarded f + z\<rparr>"

definition consumed_flow :: "flow \<Rightarrow> receive_counts \<Rightarrow> flow" where
  "consumed_flow f z =
     (if frames (fl_discarded f) = 0
      then f\<lparr>fl_completed := fl_completed f + z, fl_consumed := fl_consumed f + z,
             fl_consumedPrefix := fl_completed f + z\<rparr>
      else f\<lparr>fl_completed := fl_completed f + z, fl_consumed := fl_consumed f + z\<rparr>)"

lemma discarded_flow_sel [simp]:
  "fl_id (discarded_flow f z) = fl_id f" "fl_received (discarded_flow f z) = fl_received f"
  "fl_state (discarded_flow f z) = fl_state f"
  by (simp_all add: discarded_flow_def)

lemma consumed_flow_sel [simp]:
  "fl_id (consumed_flow f z) = fl_id f" "fl_received (consumed_flow f z) = fl_received f"
  "fl_state (consumed_flow f z) = fl_state f"
  by (simp_all add: consumed_flow_def)

lemma flow_ok_discarded:
  assumes "flow_ok f" "shaped z" "frames z = 1" "fl_state f \<noteq> Active" "\<not> is_settled (fl_state f)"
    "shaped (fl_received f - (fl_completed f + z))"
  shows "flow_ok (discarded_flow f z)"
proof -
  have "shaped (fl_discarded f + z)" "shaped (fl_completed f - fl_consumedPrefix f + z)"
    using assms by (auto simp add: flow_ok_def intro: shaped_add)
  moreover have "fl_discarded f + z \<noteq> 0"
    using assms shaped_nonneg [of "fl_discarded f"]
    by (auto simp add: flow_ok_def counts_le_iff counts_eq_iff)
  ultimately show ?thesis
    using assms by (simp add: flow_ok_def discarded_flow_def algebra_simps)
qed

lemma flow_ok_consumed:
  assumes "flow_ok f" "shaped z" "\<not> is_settled (fl_state f)"
    "shaped (fl_received f - (fl_completed f + z))"
  shows "flow_ok (consumed_flow f z)"
proof (cases "fl_discarded f = 0")
  case True
  with assms have "shaped (fl_completed f - fl_reported f + z)" "shaped (fl_consumed f + z)"
    by (auto simp add: flow_ok_def intro: shaped_add)
  with True assms show ?thesis
    by (auto simp add: flow_ok_def consumed_flow_def algebra_simps)
next
  case False
  with assms have "frames (fl_discarded f) \<noteq> 0"
    using shaped_zero_frames by (auto simp add: flow_ok_def)
  moreover from assms have "shaped (fl_completed f - fl_consumedPrefix f + z)" "shaped (fl_consumed f + z)"
    by (auto simp add: flow_ok_def intro: shaped_add)
  ultimately show ?thesis
    using False assms by (auto simp add: flow_ok_def consumed_flow_def algebra_simps)
qed

lemma ledger_complete_cases:
  assumes "ledger_complete d l r = Inr l'"
  obtains p f z where "lg_receipts l r = Some p" "get_flow l (rx_session p) = Some f"
    "\<not> lg_closed l" "rx_before p = fl_completed f" "d \<Longrightarrow> fl_state f \<noteq> Active"
    "rx_after p = fl_completed f + z"
    "l' = put_flow (rx_session p) (if d then discarded_flow f z else consumed_flow f z)
       (l\<lparr>lg_held := lg_held l - z, lg_pendingConsumed :=
          (if \<not> d \<and> frames (fl_discarded f) = 0 then lg_pendingConsumed l + z
           else lg_pendingConsumed l)\<rparr>)"
proof -
  obtain p f where p: "lg_receipts l r = Some p" "get_flow l (rx_session p) = Some f"
      "\<not> lg_closed l" "rx_before p = fl_completed f" "d \<Longrightarrow> fl_state f \<noteq> Active"
    using assms
    by (auto simp add: ledger_complete_def res_simps Let_def split: if_splits option.splits)
  moreover have "rx_after p = fl_completed f + (rx_after p - rx_before p)"
    using p(4) by simp
  moreover have "l' = put_flow (rx_session p) (if d then discarded_flow f (rx_after p - rx_before p)
        else consumed_flow f (rx_after p - rx_before p))
       (l\<lparr>lg_held := lg_held l - (rx_after p - rx_before p), lg_pendingConsumed :=
          (if \<not> d \<and> frames (fl_discarded f) = 0 then lg_pendingConsumed l + (rx_after p - rx_before p)
           else lg_pendingConsumed l)\<rparr>)"
    using assms p
    by (cases d; cases "frames (fl_discarded f) = 0")
       (simp_all add: ledger_complete_def ledger_check_def Let_def discarded_flow_def
         consumed_flow_def)
  ultimately show ?thesis using that by blast
qed

lemma ledger_complete_inv:
  assumes inv: "ledger_inv l" and op: "ledger_complete d l r = Inr l'"
  shows "ledger_inv l'"
  using op
proof (cases rule: ledger_complete_cases)
  case (1 p f z)
  have "frames (rx_after p - rx_before p) = 1 \<and> shaped (rx_after p - rx_before p) \<and>
      shaped (fl_received f - rx_after p)"
    using inv 1(1,2) unfolding ledger_inv_def ledger_receipts_def by blast
  then have rcpt: "frames z = 1" "shaped z" "shaped (fl_received f - (fl_completed f + z))"
    using 1 by auto
  have f: "flow_ok f"
    using ledger_inv_get(1) [OF inv 1(2)] .
  have unsettled: "\<not> is_settled (fl_state f)"
    using f rcpt shaped_nonneg [OF rcpt(3)] by (auto simp add: flow_ok_def counts_le_iff)
  have zero: "frames (fl_discarded f) = 0 \<longleftrightarrow> fl_discarded f = 0"
    using f shaped_zero_frames by (simp add: flow_ok_def)
  let ?f = "if d then discarded_flow f z else consumed_flow f z"
  have ok: "flow_ok ?f"
    using flow_ok_discarded [OF f rcpt(2,1) _ unsettled rcpt(3)]
      flow_ok_consumed [OF f rcpt(2) unsettled rcpt(3)] 1(5) by simp
  have held: "held_of ?f = held_of f - z"
    by (simp add: held_of_def discarded_flow_def consumed_flow_def algebra_simps)
  have out: "outstanding_of ?f = outstanding_of f"
    by (simp add: outstanding_of_def discarded_flow_def consumed_flow_def)
  have pend: "pending_of ?f = pending_of f +
      (if \<not> d \<and> frames (fl_discarded f) = 0 then z else 0)"
    using f unsettled zero
    by (auto simp add: pending_of_def discarded_flow_def consumed_flow_def flow_ok_def)
  show ?thesis
    using ok held out pend 1(7) ledger_inv_get(3,4) [OF inv 1(2)]
    by (intro ledger_inv_put [OF inv 1(2), of ?f]) (auto simp add: put_flow_def)
qed

lemma ledger_close_inv: "ledger_inv l \<Longrightarrow> ledger_inv (ledger_close l)"
  by (auto simp add: ledger_close_def ledger_inv_def ledger_structure_def ledger_totals_def
      ledger_receipts_def flow_sum_def)

subsection \<open>Feedback\<close>

definition reportable :: "ledger \<Rightarrow> session_id \<Rightarrow> bool" where
  "reportable l s \<longleftrightarrow> (case get_flow l s of None \<Rightarrow> False
     | Some f \<Rightarrow> \<not> is_settled (fl_state f) \<and> fl_consumedPrefix f \<noteq> fl_reported f)"

text \<open>The session that the scan looks at \<open>k\<close> iterations from now.\<close>

definition scanned :: "ledger \<Rightarrow> nat \<Rightarrow> session_id" where
  "scanned l k = lg_order l ! ((lg_cursor l + k) mod length (lg_order l))"

definition reported_flow :: "flow \<Rightarrow> flow" where
  "reported_flow f = f\<lparr>fl_reported := fl_consumedPrefix f\<rparr>"

definition report_of :: "flow \<Rightarrow> delivery_totals" where
  "report_of f = \<lparr>dt_relaySessionId = fl_wireId f, dt_totalFrames = frames (fl_consumedPrefix f),
     dt_totalEncodedBytes = encodedBytes (fl_consumedPrefix f)\<rparr>"

lemma scanned_Suc:
  "scanned (l\<lparr>lg_cursor := (lg_cursor l + 1) mod length (lg_order l)\<rparr>) k = scanned l (Suc k)"
  by (simp add: scanned_def mod_add_left_eq)

lemma mod_below: "c < n \<Longrightarrow> x mod n < n" for c n x :: nat
  by simp

lemma reportable_cursor [simp]: "reportable (l\<lparr>lg_cursor := c\<rparr>) s = reportable l s"
  by (simp add: reportable_def)

text \<open>The scan stops at the first reportable session from the cursor on, and only there.\<close>

lemma consumed_scan_None:
  assumes "\<And>k. k < n \<Longrightarrow> \<not> reportable l (scanned l k)"
    "lg_cursor l < length (lg_order l)"
  shows "consumed_scan n l = (l\<lparr>lg_cursor := (lg_cursor l + n) mod length (lg_order l)\<rparr>, None)"
  using assms
proof (induction n arbitrary: l)
  case (Suc n)
  let ?l = "l\<lparr>lg_cursor := (lg_cursor l + 1) mod length (lg_order l)\<rparr>"
  have "consumed_scan (Suc n) l = consumed_scan n ?l"
    using Suc.prems(1) [of 0] Suc.prems(2)
    by (auto simp add: scanned_def reportable_def Let_def split: option.splits)
  also have "\<dots> = (?l\<lparr>lg_cursor := (lg_cursor ?l + n) mod length (lg_order ?l)\<rparr>, None)"
    using Suc.prems by (intro Suc.IH) (auto simp add: scanned_Suc intro: mod_below simp del: One_nat_def)
  finally show ?case
    by (simp add: mod_add_left_eq)
qed (simp)

lemma consumed_scan_Some:
  assumes "k < n" "reportable l (scanned l k)" "\<And>j. j < k \<Longrightarrow> \<not> reportable l (scanned l j)"
    "lg_cursor l < length (lg_order l)" "get_flow l (scanned l k) = Some f"
  shows "consumed_scan n l =
    (put_flow (scanned l k) (reported_flow f)
       (l\<lparr>lg_cursor := (lg_cursor l + Suc k) mod length (lg_order l),
          lg_outstanding := lg_outstanding l - (fl_consumedPrefix f - fl_reported f),
          lg_pendingConsumed := lg_pendingConsumed l - (fl_consumedPrefix f - fl_reported f)\<rparr>),
     Some (report_of f))"
  using assms
proof (induction n arbitrary: l k)
  case (Suc n)
  show ?case
  proof (cases k)
    case 0
    with Suc.prems show ?thesis
      by (simp add: scanned_def reportable_def reported_flow_def report_of_def Let_def)
  next
    case (Suc k')
    let ?l = "l\<lparr>lg_cursor := (lg_cursor l + 1) mod length (lg_order l)\<rparr>"
    have "consumed_scan (Suc n) l = consumed_scan n ?l"
      using Suc.prems(3) [of 0] Suc.prems(4) Suc
      by (auto simp add: scanned_def reportable_def Let_def split: option.splits)
    also have "\<dots> = (put_flow (scanned ?l k') (reported_flow f)
       (?l\<lparr>lg_cursor := (lg_cursor ?l + Suc k') mod length (lg_order ?l),
          lg_outstanding := lg_outstanding ?l - (fl_consumedPrefix f - fl_reported f),
          lg_pendingConsumed := lg_pendingConsumed ?l - (fl_consumedPrefix f - fl_reported f)\<rparr>),
       Some (report_of f))"
      using Suc.prems Suc by (intro Suc.IH) (auto simp add: scanned_Suc intro: mod_below simp del: One_nat_def)
    finally have "consumed_scan (Suc n) l = \<dots>" .
    moreover have "(lg_cursor ?l + Suc k') mod length (lg_order ?l) =
        (lg_cursor l + Suc (Suc k')) mod length (lg_order l)"
      using mod_add_left_eq [of "lg_cursor l + 1" "length (lg_order l)" "Suc k'"] by simp
    ultimately show ?thesis
      unfolding scanned_Suc Suc by (simp del: consumed_scan.simps)
  qed
qed simp


lemma scanned_all:
  assumes "s \<in> set (lg_order l)" "lg_cursor l < length (lg_order l)"
  shows "\<exists>k < length (lg_order l). scanned l k = s"
proof -
  let ?n = "length (lg_order l)" and ?c = "lg_cursor l"
  obtain i where i: "i < ?n" "lg_order l ! i = s"
    using assms(1) by (auto simp add: in_set_conv_nth)
  let ?k = "(i + (?n - ?c)) mod ?n"
  have "(?c + ?k) mod ?n = (?c + (i + (?n - ?c))) mod ?n"
    by (simp add: mod_add_right_eq)
  also have "\<dots> = i"
    using i assms(2) by simp
  finally have "scanned l ?k = s"
    using i by (simp add: scanned_def)
  moreover have "?k < ?n"
    using assms(2) by (rule mod_below)
  ultimately show ?thesis by blast
qed

lemma pending_reportable:
  assumes inv: "ledger_inv l" and ready: "frames (lg_pendingConsumed l) \<noteq> 0"
  obtains s where "s \<in> set (lg_order l)" "reportable l s"
proof -
  from inv have str: "ledger_structure l" and tot: "ledger_totals l"
    by (simp_all add: ledger_inv_def)
  have "\<exists>p \<in> set (lg_sessions l). pending_of (snd p) \<noteq> 0"
  proof (rule ccontr)
    assume "\<not> ?thesis"
    then have "map (\<lambda>p. pending_of (snd p)) (lg_sessions l) = map (\<lambda>_. 0) (lg_sessions l)"
      by simp
    then have "flow_sum pending_of l = 0"
      unfolding flow_sum_def by (simp only: sum_list_0)
    with tot ready show False
      by (simp add: ledger_totals_def)
  qed
  then obtain s f where sf: "(s, f) \<in> set (lg_sessions l)" "pending_of f \<noteq> 0"
    by auto
  from str have dist: "lg_order l = map fst (lg_sessions l)" "distinct (map fst (lg_sessions l))"
    by (auto simp add: ledger_structure_def)
  have "get_flow l s = Some f"
    using sf dist by (simp add: get_flow_def)
  with sf have "reportable l s"
    by (auto simp add: reportable_def pending_of_def split: if_splits)
  moreover have "s \<in> set (lg_order l)"
    using sf dist by force
  ultimately show ?thesis using that by blast
qed

text \<open>What \<^verbatim>\<open>takeConsumed\<close> does when feedback is due.\<close>

lemma takeConsumed_ready:
  assumes inv: "ledger_inv l" and ready: "feedbackReady l"
  obtains k f where "k < length (lg_order l)" "reportable l (scanned l k)"
    "\<And>j. j < k \<Longrightarrow> \<not> reportable l (scanned l j)" "get_flow l (scanned l k) = Some f"
    "takeConsumed l = (put_flow (scanned l k) (reported_flow f)
       (l\<lparr>lg_cursor := (lg_cursor l + Suc k) mod length (lg_order l),
          lg_outstanding := lg_outstanding l - (fl_consumedPrefix f - fl_reported f),
          lg_pendingConsumed := lg_pendingConsumed l - (fl_consumedPrefix f - fl_reported f)\<rparr>),
     Some (report_of f))"
proof -
  obtain s where s: "s \<in> set (lg_order l)" "reportable l s"
    using pending_reportable [OF inv] ready by (auto simp add: feedbackReady_def)
  then have cur: "lg_cursor l < length (lg_order l)"
    using inv by (auto simp add: ledger_inv_def ledger_structure_def)
  define k where "k = (LEAST k. reportable l (scanned l k))"
  obtain i where i: "i < length (lg_order l)" "reportable l (scanned l i)"
    using scanned_all [OF s(1) cur] s(2) by auto
  have k: "reportable l (scanned l k)" "k < length (lg_order l)"
    using LeastI [of "\<lambda>k. reportable l (scanned l k)", OF i(2)]
      Least_le [of "\<lambda>k. reportable l (scanned l k)", OF i(2)] i(1) by (auto simp add: k_def)
  have least: "\<not> reportable l (scanned l j)" if "j < k" for j
    using not_less_Least that unfolding k_def by blast
  obtain f where f: "get_flow l (scanned l k) = Some f"
    using k by (auto simp add: reportable_def split: option.splits)
  from that [OF k(2,1) least f] consumed_scan_Some [OF k(2,1) least cur f] ready
  show ?thesis by (simp add: takeConsumed_def)
qed

lemma flow_ok_reported: "flow_ok f \<Longrightarrow> \<not> is_settled (fl_state f) \<Longrightarrow> flow_ok (reported_flow f)"
  using shaped_from [of "fl_reported f" "fl_consumedPrefix f"]
  by (auto simp add: flow_ok_def reported_flow_def)

lemma takeConsumed_inv:
  assumes inv: "ledger_inv l"
  shows "ledger_inv (fst (takeConsumed l))"
proof (cases "feedbackReady l")
  case True
  obtain k f where k: "k < length (lg_order l)" "reportable l (scanned l k)"
      and f: "get_flow l (scanned l k) = Some f" and
      eq: "takeConsumed l = (put_flow (scanned l k) (reported_flow f)
       (l\<lparr>lg_cursor := (lg_cursor l + Suc k) mod length (lg_order l),
          lg_outstanding := lg_outstanding l - (fl_consumedPrefix f - fl_reported f),
          lg_pendingConsumed := lg_pendingConsumed l - (fl_consumedPrefix f - fl_reported f)\<rparr>),
     Some (report_of f))"
    using takeConsumed_ready [OF inv True] by blast
  let ?l' = "fst (takeConsumed l)"
  have uns: "\<not> is_settled (fl_state f)"
    using k(2) f by (simp add: reportable_def)
  have fok: "flow_ok f"
    using ledger_inv_get(1) [OF inv f] .
  have sess: "lg_sessions ?l' = lg_sessions (put_flow (scanned l k) (reported_flow f) l)"
    by (simp add: eq put_flow_def)
  have d: "0 \<le> fl_consumedPrefix f - fl_reported f"
    using fok by (intro shaped_nonneg) (simp add: flow_ok_def)
  have "lg_outstanding l - (fl_consumedPrefix f - fl_reported f) \<le> lg_capacity l"
    using d ledger_inv_get(3) [OF inv f] by (auto simp add: counts_le_iff)
  moreover have "(lg_cursor l + Suc k) mod length (lg_order l) < length (lg_order l)"
    using k(1) by (rule mod_below)
  ultimately show ?thesis
    using uns by (intro ledger_inv_put [OF inv f flow_ok_reported [OF fok uns] _ _ sess])
      (simp_all add: eq reported_flow_def held_of_def outstanding_of_def pending_of_def)
qed (simp add: takeConsumed_def inv)


subsection \<open>Settlement and release\<close>

definition ack_of :: "flow \<Rightarrow> settlement" where
  "ack_of f = \<lparr>st_kind = Settlement_ack, st_totals =
     \<lparr>dt_relaySessionId = fl_wireId f, dt_totalFrames = frames (fl_received f),
      dt_totalEncodedBytes = encodedBytes (fl_received f)\<rparr>\<rparr>"

text \<open>The acknowledgement that frees the unreported suffix, and its repetition.\<close>

lemma takeSettlement_Draining:
  "get_flow l s = Some f \<Longrightarrow> \<not> lg_closed l \<Longrightarrow> fl_completed f = fl_received f \<Longrightarrow>
   fl_state f = Draining \<Longrightarrow>
   takeSettlement l s = (put_flow s (f\<lparr>fl_state := Settled False\<rparr>)
     (l\<lparr>lg_outstanding := lg_outstanding l - (fl_received f - fl_reported f),
        lg_pendingConsumed := lg_pendingConsumed l - (fl_consumedPrefix f - fl_reported f)\<rparr>),
     Some (ack_of f))"
  by (simp add: takeSettlement_def ack_of_def Let_def)

lemma takeSettlement_again:
  "get_flow l s = Some f \<Longrightarrow> \<not> lg_closed l \<Longrightarrow> fl_completed f = fl_received f \<Longrightarrow>
   fl_state f = Settled True \<Longrightarrow>
   takeSettlement l s = (put_flow s (f\<lparr>fl_state := Settled False\<rparr>) l, Some (ack_of f))"
  by (simp add: takeSettlement_def ack_of_def Let_def)

lemma takeSettlement_cases:
  obtains (none) "takeSettlement l s = (l, None)"
  | (drain) f where "get_flow l s = Some f" "\<not> lg_closed l" "fl_completed f = fl_received f"
      "fl_state f = Draining"
  | (again) f where "get_flow l s = Some f" "\<not> lg_closed l" "fl_completed f = fl_received f"
      "fl_state f = Settled True"
proof (cases "get_flow l s")
  case None
  then show ?thesis
    using none by (simp add: takeSettlement_def)
next
  case (Some f)
  show ?thesis
  proof (cases "lg_closed l \<or> fl_completed f \<noteq> fl_received f \<or> fl_state f \<in> {Active, Retiring, Settled False}")
    case True
    then show ?thesis
      using none Some by (auto simp add: takeSettlement_def)
  next
    case False
    then have "fl_state f = Draining \<or> fl_state f = Settled True"
      by (cases "fl_state f") auto
    then show ?thesis
      using drain again Some False by auto
  qed
qed

lemma is_settled_simps [simp]:
  "\<not> is_settled Active" "\<not> is_settled Retiring" "\<not> is_settled Draining" "is_settled (Settled b)"
  by (simp_all add: is_settled_def)

lemma flow_ok_settle:
  "flow_ok f \<Longrightarrow> fl_completed f = fl_received f \<Longrightarrow> fl_state f \<noteq> Active \<Longrightarrow>
   flow_ok (f\<lparr>fl_state := Settled b\<rparr>)"
  by (simp add: flow_ok_def)

lemma takeSettlement_inv:
  assumes inv: "ledger_inv l"
  shows "ledger_inv (fst (takeSettlement l s))"
proof (cases rule: takeSettlement_cases [of l s])
  case (drain f)
  note f = ledger_inv_get [OF inv drain(1)] and eq = takeSettlement_Draining [OF drain]
  have "shaped (fl_consumedPrefix f)" "shaped (fl_completed f - fl_reported f)"
    using f(1) shaped_from [of "fl_reported f" "fl_consumedPrefix f"]
      shaped_chain [of "fl_consumedPrefix f" "fl_reported f" "fl_completed f"]
    by (auto simp add: flow_ok_def)
  then have "lg_outstanding l - (fl_received f - fl_reported f) \<le> lg_capacity l"
    using f(3) shaped_nonneg [of "fl_completed f - fl_reported f"] drain(3)
    by (auto simp add: counts_le_iff)
  moreover have "flow_ok (f\<lparr>fl_state := Settled False\<rparr>)"
    using f(1) drain by (intro flow_ok_settle) auto
  moreover have "lg_sessions (fst (takeSettlement l s)) =
      lg_sessions (put_flow s (f\<lparr>fl_state := Settled False\<rparr>) l)"
    by (simp add: eq put_flow_def)
  ultimately show ?thesis
    using f(4) drain by (intro ledger_inv_put [OF inv drain(1), of "f\<lparr>fl_state := Settled False\<rparr>"])
      (simp_all add: eq held_of_def outstanding_of_def pending_of_def)
next
  case (again f)
  note f = ledger_inv_get [OF inv again(1)] and eq = takeSettlement_again [OF again]
  have "flow_ok (f\<lparr>fl_state := Settled False\<rparr>)"
    using f(1) again by (intro flow_ok_settle) auto
  moreover have "lg_sessions (fst (takeSettlement l s)) =
      lg_sessions (put_flow s (f\<lparr>fl_state := Settled False\<rparr>) l)"
    by (simp add: eq)
  ultimately show ?thesis
    using f(3,4) again by (intro ledger_inv_put [OF inv again(1), of "f\<lparr>fl_state := Settled False\<rparr>"])
      (simp_all add: eq held_of_def outstanding_of_def pending_of_def)
qed (simp add: inv)

lemma splice_index_of:
  "distinct xs \<Longrightarrow> take (index_of x xs) xs @ drop (Suc (index_of x xs)) xs = filter (\<lambda>y. y \<noteq> x) xs"
proof (induction xs)
  case (Cons a xs)
  then show ?case
    by (cases "x = a") (auto intro!: filter_True [symmetric])
qed simp

lemma index_of_less: "x \<in> set xs \<Longrightarrow> index_of x xs < length xs"
  by (induction xs) auto

lemma sum_filter:
  fixes g :: "'f \<Rightarrow> 'c :: ab_group_add"
  assumes "distinct (map fst xs)" "map_of xs s = Some f" "g f = 0"
  shows "sum_list (map (\<lambda>p. g (snd p)) (filter (\<lambda>(k, _). k \<noteq> s) xs)) =
     sum_list (map (\<lambda>p. g (snd p)) xs)"
  using assms
proof (induction xs)
  case (Cons x xs)
  show ?case
  proof (cases "fst x = s")
    case True
    then have "filter (\<lambda>(k, _). k \<noteq> s) xs = xs"
      using Cons.prems by (auto simp add: filter_id_conv image_iff)
    with True Cons.prems show ?thesis
      by (cases x) auto
  next
    case False
    with Cons show ?thesis
      by (cases x) auto
  qed
qed simp


lemma structureD:
  assumes "ledger_structure l"
  shows "lg_order l = map fst (lg_sessions l)" "distinct (lg_order l)"
    "\<forall>s f. (s, f) \<in> set (lg_sessions l) \<longrightarrow> flow_ok f \<and> s < lg_nextSession l"
    "lg_wireSessions l = (\<lambda>p. fl_id (snd p)) ` set (lg_sessions l)"
    "distinct (map (\<lambda>p. fl_id (snd p)) (lg_sessions l))"
    "int (length (lg_sessions l)) \<le> lg_maxSessions l"
    "lg_cursor l < length (lg_order l) \<or> lg_cursor l = 0"
  using assms unfolding ledger_structure_def by auto

lemma ledger_forget_cases:
  assumes op: "ledger_forget l s = Inr l'" and str: "ledger_structure l"
  obtains f where "get_flow l s = Some f" "\<not> lg_closed l" "fl_state f = Settled False"
    "lg_sessions l' = filter (\<lambda>(k, _). k \<noteq> s) (lg_sessions l)"
    "lg_order l' = filter (\<lambda>y. y \<noteq> s) (lg_order l)"
    "lg_wireSessions l' = lg_wireSessions l - {fl_id f}"
    "lg_cursor l' < length (lg_order l') \<or> lg_cursor l' = 0"
    "\<And>t. get_flow l' t = (if t = s then None else get_flow l t)"
    "l' = l\<lparr>lg_sessions := lg_sessions l', lg_wireSessions := lg_wireSessions l',
        lg_order := lg_order l', lg_cursor := lg_cursor l'\<rparr>"
proof -
  from op obtain f where f: "get_flow l s = Some f" "\<not> lg_closed l" "fl_state f = Settled False"
    by (auto simp add: ledger_forget_def res_simps Let_def split: if_splits)
  have order: "take (index_of s (lg_order l)) (lg_order l) @ drop (Suc (index_of s (lg_order l))) (lg_order l) =
      filter (\<lambda>y. y \<noteq> s) (lg_order l)"
    using structureD(2) [OF str] by (rule splice_index_of)
  have l': "l' = l\<lparr>lg_sessions := filter (\<lambda>(k, _). k \<noteq> s) (lg_sessions l),
      lg_wireSessions := lg_wireSessions l - {fl_id f}, lg_order := filter (\<lambda>y. y \<noteq> s) (lg_order l),
      lg_cursor := lg_cursor l'\<rparr>"
    and "lg_cursor l' < length (filter (\<lambda>y. y \<noteq> s) (lg_order l)) \<or> lg_cursor l' = 0"
    using op f unfolding ledger_forget_def Let_def order
    by (auto simp add: ledger_check_def not_le)
  moreover have "get_flow l' t = (if t = s then None else get_flow l t)" for t
  proof -
    have "map_of (filter (\<lambda>(k, _). k \<noteq> s) xs) t = (if t = s then None else map_of xs t)" for xs :: "(nat \<times> flow) list"
      by (induction xs) auto
    then show ?thesis
      by (subst l') (simp add: get_flow_def)
  qed
  moreover have "lg_sessions l' = filter (\<lambda>(k, _). k \<noteq> s) (lg_sessions l)"
    "lg_order l' = filter (\<lambda>y. y \<noteq> s) (lg_order l)" "lg_wireSessions l' = lg_wireSessions l - {fl_id f}"
    by (subst l', simp)+
  ultimately show ?thesis
    using f by (intro that [of f]) auto
qed

lemma structure_forget:
  assumes str: "ledger_structure l" and f: "get_flow l s = Some f"
    and l': "lg_sessions l' = filter (\<lambda>(k, _). k \<noteq> s) (lg_sessions l)"
      "lg_order l' = filter (\<lambda>y. y \<noteq> s) (lg_order l)" "lg_wireSessions l' = lg_wireSessions l - {fl_id f}"
      "lg_cursor l' < length (lg_order l') \<or> lg_cursor l' = 0"
      "lg_maxSessions l' = lg_maxSessions l" "lg_nextSession l' = lg_nextSession l"
  shows "ledger_structure l'"
proof -
  have mem: "(s, f) \<in> set (lg_sessions l)"
    using structure_get(3) [OF str f] .
  have dist: "inj_on fst (set (lg_sessions l))" "inj_on (\<lambda>p. fl_id (snd p)) (set (lg_sessions l))"
    using structureD(5) [OF str] structure_get(4) [OF str f] by (simp_all add: distinct_map)
  have uniq: "fl_id (snd p) = fl_id f \<longleftrightarrow> fst p = s" if "p \<in> set (lg_sessions l)" for p
    using inj_onD [OF dist(1) _ that mem] inj_onD [OF dist(2) _ that mem] by (cases p) auto
  have fil: "filter (\<lambda>(k, _). k \<noteq> s) (lg_sessions l) = filter (\<lambda>p. fst p \<noteq> s) (lg_sessions l)"
    by (simp add: case_prod_unfold)
  have "lg_order l' = map fst (lg_sessions l')"
    unfolding l' structureD(1) [OF str] fil by (simp add: filter_map comp_def)
  moreover have "distinct (lg_order l')"
    using structureD(2) [OF str] unfolding l' by (rule distinct_filter)
  moreover have "\<forall>t h. (t, h) \<in> set (lg_sessions l') \<longrightarrow> flow_ok h \<and> t < lg_nextSession l'"
    using structureD(3) [OF str] unfolding l' by auto
  moreover have "lg_wireSessions l' = (\<lambda>p. fl_id (snd p)) ` set (lg_sessions l')"
  proof -
    show ?thesis
      unfolding l' fil structureD(4) [OF str] using uniq by auto
  qed
  moreover have "distinct (map (\<lambda>p. fl_id (snd p)) (lg_sessions l'))"
    using structureD(5) [OF str] unfolding l' by (rule distinct_map_filter)
  moreover have "int (length (lg_sessions l')) \<le> lg_maxSessions l'"
    using structureD(6) [OF str] length_filter_le [of "\<lambda>(k, _). k \<noteq> s" "lg_sessions l"]
    unfolding l' by linarith
  ultimately show ?thesis
    using l'(4) unfolding ledger_structure_def by blast
qed

lemma ledger_forget_inv:
  assumes inv: "ledger_inv l" and op: "ledger_forget l s = Inr l'"
  shows "ledger_inv l'"
proof -
  from inv have str: "ledger_structure l" and tot: "ledger_totals l" and rc: "ledger_receipts l"
    by (simp_all add: ledger_inv_def)
  from op str show ?thesis
  proof (cases rule: ledger_forget_cases)
    case (1 f)
    have sel: "lg_maxSessions l' = lg_maxSessions l" "lg_nextSession l' = lg_nextSession l"
      "lg_nextReceipt l' = lg_nextReceipt l" "lg_receipts l' = lg_receipts l" "lg_held l' = lg_held l"
      "lg_outstanding l' = lg_outstanding l" "lg_pendingConsumed l' = lg_pendingConsumed l"
      "lg_capacity l' = lg_capacity l"
      by (subst 1(9), simp)+
    have "ledger_structure l'"
      using structure_forget [OF str 1(1,4-7) sel(1,2)] .
    moreover have "flow_sum g l' = flow_sum g l" if "g f = 0" for g
      using sum_filter [of "lg_sessions l" s f g] structure_get(4) [OF str 1(1)] 1(1,4) that
      by (simp add: flow_sum_def get_flow_def)
    moreover have "held_of f = 0" "outstanding_of f = 0" "pending_of f = 0"
      using structure_get(1) [OF str 1(1)] 1(3)
      by (simp_all add: held_of_def outstanding_of_def pending_of_def flow_ok_def)
    moreover have "ledger_receipts l'"
      using rc by (auto simp add: ledger_receipts_def sel 1(8))
    ultimately show ?thesis
      using tot by (auto simp add: ledger_inv_def ledger_totals_def sel)
  qed
qed

end
