(* ===== verification/Receive_Runs.thy ===== *)
theory Receive_Runs
  imports Receive_Ledger "HOL-Library.Sublist"
begin

text \<open>
  Runs of the receive ledger. \<open>ledger_step\<close> has one rule per operation of
  \<^verbatim>\<open>RelayReceiveLedger\<close> that changes its state, labelled with what the operation returned, and
  \<open>ledger_run\<close> is a sequence of them in any order. The properties relate the ledger to the
  account that the relay can keep from the wire alone, to a queue of receipts per session, and
  to the settlement protocol.
\<close>

section \<open>Runs\<close>

datatype ledger_event =
  Opened session_id
| Received session_id receipt_id int
| Completed bool session_id receipt_id
| Retired session_id
| Noticed session_id
| Reported session_id delivery_totals
| Acked session_id settlement
| Forgotten session_id
| Ended

inductive ledger_step :: "ledger \<Rightarrow> ledger_event \<Rightarrow> ledger \<Rightarrow> bool" where
  step_open: "ledger_open l w = Inr (l', s) \<Longrightarrow> ledger_step l (Opened s) l'"
| step_receive: "ledger_receive l s (Integral n) = Inr (l', r) \<Longrightarrow>
    ledger_step l (Received s r n) l'"
| step_complete: "ledger_complete d l r = Inr l' \<Longrightarrow> lg_receipts l r = Some p \<Longrightarrow>
    ledger_step l (Completed d (rx_session p) r) l'"
| step_retire: "ledger_retire l s = Inr l' \<Longrightarrow> ledger_step l (Retired s) l'"
| step_notice: "ledger_notice l s k = Inr l' \<Longrightarrow> ledger_step l (Noticed s) l'"
| step_report: "takeConsumed l = (l', Some t) \<Longrightarrow> get_flow l s = Some f \<Longrightarrow>
    fl_wireId f = dt_relaySessionId t \<Longrightarrow> ledger_step l (Reported s t) l'"
| step_ack: "takeSettlement l s = (l', Some k) \<Longrightarrow> ledger_step l (Acked s k) l'"
| step_forget: "ledger_forget l s = Inr l' \<Longrightarrow> ledger_step l (Forgotten s) l'"
| step_close: "ledger_close l = l' \<Longrightarrow> ledger_step l Ended l'"

inductive ledger_run :: "ledger \<Rightarrow> ledger_event list \<Rightarrow> ledger \<Rightarrow> bool" where
  run_nil: "ledger_run l [] l"
| run_snoc: "ledger_run l es l' \<Longrightarrow> ledger_step l' e l'' \<Longrightarrow> ledger_run l (es @ [e]) l''"

inductive_simps ledger_run_Nil [simp]: "ledger_run l [] l'"

definition reachable :: "ledger \<Rightarrow> bool" where
  "reachable l \<longleftrightarrow> (\<exists>c capacity m l0 es. new_ledger c capacity m = Inr l0 \<and> ledger_run l0 es l)"

lemma ledger_run_append:
  "ledger_run l (es @ es') l' \<longleftrightarrow> (\<exists>m. ledger_run l es m \<and> ledger_run m es' l')"
proof (induction es' arbitrary: l' rule: rev_induct)
  case (snoc e es')
  have "ledger_run k (xs @ [e]) l' \<longleftrightarrow> (\<exists>m. ledger_run k xs m \<and> ledger_step m e l')" for k xs
    by (auto elim: ledger_run.cases intro: run_snoc)
  then show ?case
    using snoc by (simp flip: append_assoc) blast
qed simp

lemma ledger_run_snoc [simp]:
  "ledger_run l (es @ [e]) l' \<longleftrightarrow> (\<exists>m. ledger_run l es m \<and> ledger_step m e l')"
  by (auto elim: ledger_run.cases intro: run_snoc)

lemma ledger_run_single: "ledger_run l [e] l' \<longleftrightarrow> ledger_step l e l'"
  using ledger_run_snoc [of l "[]"] by simp

lemma ledger_run_Cons: "ledger_run l (e # es) l' \<longleftrightarrow> (\<exists>m. ledger_step l e m \<and> ledger_run m es l')"
  using ledger_run_append [of l "[e]" es l'] by (simp add: ledger_run_single)

lemma ledger_step_inv: "ledger_step l e l' \<Longrightarrow> ledger_inv l \<Longrightarrow> ledger_inv l'"
proof (induction rule: ledger_step.induct)
  case (step_report l l' t s f)
  then show ?case using takeConsumed_inv [of l] by simp
next
  case (step_ack l s l' k)
  then show ?case using takeSettlement_inv [of l s] by simp
qed (auto intro: ledger_open_inv ledger_receive_inv ledger_complete_inv ledger_retire_inv
    ledger_notice_inv ledger_forget_inv ledger_close_inv)

lemma ledger_run_inv: "ledger_run l es l' \<Longrightarrow> ledger_inv l \<Longrightarrow> ledger_inv l'"
  by (induction rule: ledger_run.induct) (auto intro: ledger_step_inv)

lemma reachable_inv: "reachable l \<Longrightarrow> ledger_inv l"
  using new_ledger_inv ledger_run_inv unfolding reachable_def by blast

text \<open>The session that the next report is about is the scanned one.\<close>

lemma wire_unique:
  assumes "ledger_structure l" "get_flow l s = Some f" "get_flow l t = Some g"
    "fl_wireId f = fl_wireId g"
  shows "s = t \<and> f = g"
proof -
  have "inj_on (\<lambda>p. fl_id (snd p)) (set (lg_sessions l))"
    using structureD(5) [OF assms(1)] by (simp add: distinct_map)
  moreover have "fl_id f = fl_id g"
    using structure_get(1) [OF assms(1,2)] structure_get(1) [OF assms(1,3)] assms(4)
    by (simp add: flow_ok_def)
  ultimately show ?thesis
    using inj_onD [of _ _ "(s, f)" "(t, g)"] structure_get(3) [OF assms(1,2)]
      structure_get(3) [OF assms(1,3)] by fastforce
qed

lemma takeConsumed_report:
  assumes inv: "ledger_inv l" and op: "takeConsumed l = (l', Some t)"
    and s: "get_flow l s = Some f" "fl_wireId f = dt_relaySessionId t"
  obtains c where "l' = put_flow s (reported_flow f)
       (l\<lparr>lg_cursor := c, lg_outstanding := lg_outstanding l - (fl_consumedPrefix f - fl_reported f),
          lg_pendingConsumed := lg_pendingConsumed l - (fl_consumedPrefix f - fl_reported f)\<rparr>)"
    "t = report_of f" "reportable l s"
proof -
  have ready: "feedbackReady l"
    using op by (auto simp add: takeConsumed_def split: if_splits)
  obtain k g where "reportable l (scanned l k)" and g: "get_flow l (scanned l k) = Some g"
    "takeConsumed l = (put_flow (scanned l k) (reported_flow g)
       (l\<lparr>lg_cursor := (lg_cursor l + Suc k) mod length (lg_order l),
          lg_outstanding := lg_outstanding l - (fl_consumedPrefix g - fl_reported g),
          lg_pendingConsumed := lg_pendingConsumed l - (fl_consumedPrefix g - fl_reported g)\<rparr>),
     Some (report_of g))"
    using takeConsumed_ready [OF inv ready] by metis
  moreover from this op s have "s = scanned l k \<and> f = g"
    using wire_unique [of l s f "scanned l k" g] inv
    by (simp add: report_of_def ledger_inv_def)
  ultimately show ?thesis
    using that op by (metis prod.inject option.inject)
qed


subsection \<open>How one step changes a flow\<close>

text \<open>
  The account of the peer: what it has sent on a session and the totals that the last control
  for the session returned. The relay keeps the same two numbers to compute its credit.
\<close>

type_synonym account = "session_id \<Rightarrow> receive_counts \<times> receive_counts"

definition totals_counts :: "delivery_totals \<Rightarrow> receive_counts" where
  "totals_counts t = Counts (dt_totalFrames t) (dt_totalEncodedBytes t)"

fun account_step :: "ledger_event \<Rightarrow> account \<Rightarrow> account" where
  "account_step (Received s r n) a = a(s := (fst (a s) + Counts 1 n, snd (a s)))"
| "account_step (Reported s t) a = a(s := (fst (a s), totals_counts t))"
| "account_step (Acked s k) a = a(s := (fst (a s), totals_counts (st_totals k)))"
| "account_step _ a = a"

definition account_of :: "ledger_event list \<Rightarrow> account" where
  "account_of es = fold account_step es (\<lambda>_. (0, 0))"

definition credited :: "flow \<Rightarrow> receive_counts" where
  "credited f = (if is_settled (fl_state f) then fl_received f else fl_reported f)"

text \<open>The four shapes of a step: a new flow, a flow that advances, a flow that leaves, the end.\<close>

definition frozen :: "settlement_state \<Rightarrow> bool" where
  "frozen st \<longleftrightarrow> st = Draining \<or> is_settled st"

definition flow_grows :: "flow \<Rightarrow> flow \<Rightarrow> bool" where
  "flow_grows f f' \<longleftrightarrow> fl_wireId f' = fl_wireId f \<and> fl_received f \<le> fl_received f' \<and>
     fl_completed f \<le> fl_completed f' \<and> fl_reported f \<le> fl_reported f' \<and>
     (frozen (fl_state f) \<longrightarrow> frozen (fl_state f') \<and> fl_received f' = fl_received f)"

text \<open>Events that neither receive nor complete an envelope.\<close>

fun quiet :: "ledger_event \<Rightarrow> bool" where
  "quiet (Received s r n) = False"
| "quiet (Completed d s r) = False"
| "quiet _ = True"

definition accounts :: "ledger_event \<Rightarrow> session_id \<Rightarrow> flow \<Rightarrow> flow \<Rightarrow> bool" where
  "accounts e t f f' \<longleftrightarrow>
     (quiet e \<longrightarrow> fl_received f' = fl_received f \<and> fl_completed f' = fl_completed f) \<and> (\<forall>a. (\<forall>s. s \<noteq> t \<longrightarrow> account_step e a s = a s) \<and>
     (a t = (fl_received f, credited f) \<longrightarrow> account_step e a t = (fl_received f', credited f')))"

definition flow_change :: "ledger \<Rightarrow> ledger_event \<Rightarrow> ledger \<Rightarrow> session_id \<Rightarrow> flow \<Rightarrow> flow \<Rightarrow> bool" where
  "flow_change l e l' t f f' \<longleftrightarrow> get_flow l t = Some f \<and>
     (\<forall>s. get_flow l' s = (if s = t then Some f' else get_flow l s)) \<and>
     lg_nextSession l' = lg_nextSession l \<and> flow_grows f f' \<and> accounts e t f f'"

lemma flow_changeI:
  assumes "get_flow l t = Some f" "\<And>s. get_flow l' s = (if s = t then Some f' else get_flow l s)"
    "lg_nextSession l' = lg_nextSession l" "flow_grows f f'" "accounts e t f f'"
  shows "\<exists>t f f'. flow_change l e l' t f f'"
  using assms unfolding flow_change_def by blast

lemmas flow_change_simps = flow_grows_def frozen_def accounts_def credited_def get_flow_put counts_le_iff

lemma ledger_open_get:
  assumes inv: "ledger_inv l" and op: "ledger_open l w = Inr (l', s)"
  shows "s = lg_nextSession l" "lg_nextSession l' = Suc s" "get_flow l s = None"
    "get_flow l' t = (if t = s then Some (new_flow w (bytesToHex w)) else get_flow l t)"
proof -
  have s: "s = lg_nextSession l" and l': "lg_sessions l' = lg_sessions l @ [(s, new_flow w (bytesToHex w))]"
    "lg_nextSession l' = Suc s"
    using op by (auto simp add: ledger_open_def Let_def split: if_splits)
  have "s \<notin> fst ` set (lg_sessions l)"
    using inv s structureD(3) [of l] by (fastforce simp add: ledger_inv_def)
  then show "get_flow l s = None"
    by (simp add: get_flow_def map_of_eq_None_iff)
  then show "get_flow l' t = (if t = s then Some (new_flow w (bytesToHex w)) else get_flow l t)"
    by (auto simp add: l' get_flow_def map_add_def split: option.splits)
  show "s = lg_nextSession l" "lg_nextSession l' = Suc s"
    by (fact s l')+
qed

lemma ledger_receive_open:
  "ledger_receive l s n = Inr x \<Longrightarrow> get_flow l s = Some f \<Longrightarrow> \<not> frozen (fl_state f)"
  by (auto simp add: ledger_receive_def res_simps frozen_def is_settled_def
      split: settlement_state.splits)

lemma step_shape:
  assumes "ledger_step l e l'" "ledger_inv l"
  shows "(e = Opened (lg_nextSession l) \<and> get_flow l (lg_nextSession l) = None \<and>
           lg_nextSession l' = Suc (lg_nextSession l) \<and> (\<exists>w. \<forall>s. get_flow l' s =
             (if s = lg_nextSession l then Some (new_flow w (bytesToHex w)) else get_flow l s)))
     \<or> (\<exists>t f f'. flow_change l e l' t f f')
     \<or> (\<exists>t f. e = Forgotten t \<and> get_flow l t = Some f \<and> fl_state f = Settled False \<and>
           lg_nextSession l' = lg_nextSession l \<and>
           (\<forall>s. get_flow l' s = (if s = t then None else get_flow l s)))
     \<or> (e = Ended \<and> get_flow l' = get_flow l \<and> lg_nextSession l' = lg_nextSession l)"
  using assms
proof (induction rule: ledger_step.induct)
  case (step_open l w l' t)
  then show ?case
    using ledger_open_get by auto
next
  case (step_receive l t n l' r)
  from step_receive(1) show ?case
  proof (cases rule: ledger_receive_cases)
    case (1 f i after)
    with ledger_receive_open [OF step_receive(1) 1(1)]
    have "\<exists>t' f f'. flow_change l (Received t r n) l' t' f f'"
      by (intro flow_changeI [of _ t f _ "f\<lparr>fl_received := after\<rparr>"])
        (auto simp add: flow_change_simps)
    then show ?thesis by blast
  qed
next
  case (step_complete d l r l' p)
  from step_complete(1) show ?case
  proof (cases rule: ledger_complete_cases)
    case (1 q f z)
    have "shaped (rx_after q - rx_before q)"
      using step_complete(3) 1(1) unfolding ledger_inv_def ledger_receipts_def by blast
    then have z: "shaped z"
      using 1 by simp
    let ?f = "if d then discarded_flow f z else consumed_flow f z"
    have "flow_grows f ?f" "accounts (Completed d (rx_session p) r) (rx_session p) f ?f"
      using shaped_nonneg [OF z] by (auto simp add: flow_change_simps discarded_flow_def consumed_flow_def)
    then have "\<exists>t f f'. flow_change l (Completed d (rx_session p) r) l' t f f'"
      using 1 step_complete(2)
      by (intro flow_changeI [of _ "rx_session p" f _ ?f]) (auto simp add: get_flow_put)
    then show ?thesis by blast
  qed
next
  case (step_retire l t l')
  then obtain f where f: "get_flow l t = Some f"
    and l': "l' = (if fl_state f = Active then put_flow t (f\<lparr>fl_state := Retiring\<rparr>) l else l)"
    by (auto simp add: ledger_retire_def res_simps)
  let ?f = "if fl_state f = Active then f\<lparr>fl_state := Retiring\<rparr> else f"
  have "\<exists>t' f f'. flow_change l (Retired t) l' t' f f'"
    using f l' by (intro flow_changeI [of _ t f _ ?f]) (auto simp add: flow_change_simps)
  then show ?case by blast
next
  case (step_notice l t k l')
  then obtain f where f: "get_flow l t = Some f" and l': "l' = put_flow t
      (f\<lparr>fl_state := (if is_settled (fl_state f) then Settled True else Draining)\<rparr>) l"
    by (auto simp add: ledger_notice_def res_simps Let_def split: if_splits)
  have "\<exists>t' f f'. flow_change l (Noticed t) l' t' f f'"
    using f l' by (intro flow_changeI [of _ t f _
      "f\<lparr>fl_state := (if is_settled (fl_state f) then Settled True else Draining)\<rparr>"])
      (auto simp add: flow_change_simps)
  then show ?case by blast
next
  case (step_report l l' u t f)
  have "shaped (fl_consumedPrefix f - fl_reported f)"
    using ledger_inv_get(1) [OF step_report(4,2)] by (simp add: flow_ok_def)
  note le = shaped_nonneg [OF this]
  from takeConsumed_report [OF step_report(4,1-3)]
  have "\<exists>t' f f'. flow_change l (Reported t u) l' t' f f'"
  proof cases
    case (1 c)
    with le step_report(2) show ?thesis
      by (intro flow_changeI [of _ t f _ "reported_flow f"]) (auto simp add: flow_change_simps
         reported_flow_def report_of_def totals_counts_def counts_eq_iff reportable_def)
  qed
  then show ?case by blast
next
  case (step_ack l t l' k)
  have "\<exists>t' f f'. flow_change l (Acked t k) l' t' f f'"
  proof (cases rule: takeSettlement_cases [of l t])
    case none
    with step_ack show ?thesis by simp
  next
    case (drain f)
    with step_ack takeSettlement_Draining [OF drain] show ?thesis
      by (intro flow_changeI [of _ t f _ "f\<lparr>fl_state := Settled False\<rparr>"])
        (auto simp add: flow_change_simps ack_of_def totals_counts_def counts_eq_iff)
  next
    case (again f)
    with step_ack takeSettlement_again [OF again] show ?thesis
      by (intro flow_changeI [of _ t f _ "f\<lparr>fl_state := Settled False\<rparr>"])
        (auto simp add: flow_change_simps ack_of_def totals_counts_def counts_eq_iff)
  qed
  then show ?case by blast
next
  case (step_forget l t l')
  from step_forget(2) have "ledger_structure l"
    by (simp add: ledger_inv_def)
  from step_forget(1) this show ?case
  proof (cases rule: ledger_forget_cases)
    case (1 f)
    have "lg_nextSession l' = lg_nextSession l"
      by (subst 1(9)) simp
    with 1 show ?thesis by auto
  qed
next
  case (step_close l l')
  then show ?case by (auto simp add: ledger_close_def)
qed


subsection \<open>The peer's account\<close>

lemma account_of_snoc [simp]:
  "account_of [] = (\<lambda>_. (0, 0))" "account_of (es @ [e]) = account_step e (account_of es)"
  by (simp_all add: account_of_def)

definition account_inv :: "account \<Rightarrow> ledger \<Rightarrow> bool" where
  "account_inv a l \<longleftrightarrow> (\<forall>s. case get_flow l s of
       Some f \<Rightarrow> a s = (fl_received f, credited f)
     | None \<Rightarrow> fst (a s) = snd (a s) \<and> (lg_nextSession l \<le> s \<longrightarrow> a s = (0, 0)))"

lemma account_invD:
  assumes "account_inv a l"
  shows "get_flow l s = Some f \<Longrightarrow> a s = (fl_received f, credited f)"
    "get_flow l s = None \<Longrightarrow> fst (a s) = snd (a s)"
    "get_flow l s = None \<Longrightarrow> lg_nextSession l \<le> s \<Longrightarrow> a s = (0, 0)"
  using spec [OF assms [unfolded account_inv_def], of s] by simp_all

lemma account_invI:
  assumes "\<And>s f. get_flow l s = Some f \<Longrightarrow> a s = (fl_received f, credited f)"
    "\<And>s. get_flow l s = None \<Longrightarrow> fst (a s) = snd (a s) \<and> (lg_nextSession l \<le> s \<longrightarrow> a s = (0, 0))"
  shows "account_inv a l"
  using assms unfolding account_inv_def by (auto split: option.split)

lemma account_inv_step:
  assumes step: "ledger_step l e l'" and inv: "ledger_inv l" and acc: "account_inv a l"
  shows "account_inv (account_step e a) l'"
  using step_shape [OF step inv]
proof (elim disjE exE conjE)
  fix w assume e: "e = Opened (lg_nextSession l)" "get_flow l (lg_nextSession l) = None"
    "lg_nextSession l' = Suc (lg_nextSession l)" "\<forall>s. get_flow l' s =
       (if s = lg_nextSession l then Some (new_flow w (bytesToHex w)) else get_flow l s)"
  show ?thesis
    using e account_invD [OF acc] by (intro account_invI) (auto simp add: new_flow_def credited_def split: if_splits)
next
  fix t f f' assume ch: "flow_change l e l' t f f'"
  then have get: "\<And>s. get_flow l' s = (if s = t then Some f' else get_flow l s)"
    and f: "get_flow l t = Some f" and next': "lg_nextSession l' = lg_nextSession l"
    and same: "\<And>s. s \<noteq> t \<Longrightarrow> account_step e a s = a s"
    and t: "a t = (fl_received f, credited f) \<Longrightarrow> account_step e a t = (fl_received f', credited f')"
    unfolding flow_change_def accounts_def by blast+
  show ?thesis
    using account_invD [OF acc] t [OF account_invD(1) [OF acc f]]
    by (intro account_invI) (auto simp add: get same next' split: if_splits)
next
  fix t f assume e: "e = Forgotten t" "get_flow l t = Some f" "fl_state f = Settled False"
    "lg_nextSession l' = lg_nextSession l" "\<forall>s. get_flow l' s = (if s = t then None else get_flow l s)"
  have "a t = (fl_received f, fl_received f)" "t < lg_nextSession l"
    using account_invD(1) [OF acc e(2)] e ledger_inv_get(2) [OF inv e(2)] by (auto simp add: credited_def)
  with e account_invD [OF acc] show ?thesis
    by (intro account_invI) (auto split: if_splits)
next
  assume "e = Ended" "get_flow l' = get_flow l" "lg_nextSession l' = lg_nextSession l"
  with account_invD [OF acc] show ?thesis
    by (intro account_invI) auto
qed

lemma account_inv_run:
  "ledger_run l0 es l \<Longrightarrow> ledger_inv l0 \<Longrightarrow> account_inv (\<lambda>_. (0, 0)) l0 \<Longrightarrow>
   account_inv (account_of es) l"
  by (induction rule: ledger_run.induct) (auto intro: account_inv_step ledger_run_inv)

lemma new_ledger_empty: "new_ledger c capacity m = Inr l \<Longrightarrow> lg_sessions l = [] \<and> lg_nextSession l = 0"
  by (auto simp add: new_ledger_def split: if_splits)

lemma account_inv_new: "new_ledger c capacity m = Inr l \<Longrightarrow> account_inv (\<lambda>_. (0, 0)) l"
  using new_ledger_empty by (simp add: account_inv_def get_flow_def)

lemma sum_map_of:
  fixes g :: "'f \<Rightarrow> 'c :: comm_monoid_add" and xs :: "(nat \<times> 'f) list"
  assumes "distinct (map fst xs)" "\<forall>p \<in> set xs. fst p < n"
  shows "(\<Sum>s<n. case map_of xs s of None \<Rightarrow> 0 | Some f \<Rightarrow> g f) = sum_list (map (\<lambda>p. g (snd p)) xs)"
  using assms
proof (induction xs)
  case (Cons p xs)
  obtain k f where p: "p = (k, f)" by (cases p)
  have k: "map_of xs k = None" "k < n"
    using Cons.prems by (auto simp add: p map_of_eq_None_iff)
  have "(\<Sum>s<n. case map_of (p # xs) s of None \<Rightarrow> 0 | Some f \<Rightarrow> g f) =
    (\<Sum>s<n. (if s = k then g f else 0) + (case map_of xs s of None \<Rightarrow> 0 | Some f \<Rightarrow> g f))"
    using k by (intro sum.cong) (auto simp add: p)
  also have "\<dots> = g f + sum_list (map (\<lambda>p. g (snd p)) xs)"
    using Cons k by (simp add: sum.distrib)
  finally show ?case by (simp add: p)
qed simp

lemma account_outstanding:
  assumes inv: "ledger_inv l" and acc: "account_inv a l"
  shows "lg_outstanding l = (\<Sum>s<lg_nextSession l. fst (a s) - snd (a s))"
proof -
  from inv have str: "ledger_structure l" and tot: "ledger_totals l"
    by (simp_all add: ledger_inv_def)
  have "fst (a s) - snd (a s) = (case get_flow l s of None \<Rightarrow> 0 | Some f \<Rightarrow> outstanding_of f)" for s
    using account_invD(1,2) [OF acc, of s]
    by (auto simp add: outstanding_of_def credited_def split: option.split)
  moreover have "distinct (map fst (lg_sessions l))" "\<forall>p \<in> set (lg_sessions l). fst p < lg_nextSession l"
    using structureD(1-3) [OF str] by auto
  ultimately show ?thesis
    using tot by (simp add: ledger_totals_def flow_sum_def get_flow_def sum_map_of)
qed

lemma flow_ok_order:
  assumes "flow_ok f"
  shows "0 \<le> fl_reported f" "fl_reported f \<le> fl_consumedPrefix f" "fl_consumedPrefix f \<le> fl_completed f"
    "fl_completed f \<le> fl_received f" "credited f \<le> fl_received f"
  using assms shaped_nonneg [of "fl_reported f"] shaped_le [of "fl_consumedPrefix f" "fl_reported f"]
    shaped_le [of "fl_completed f" "fl_consumedPrefix f"] shaped_le [of "fl_received f" "fl_completed f"]
  by (auto simp add: flow_ok_def credited_def)

subsection \<open>Receipts are completed in order\<close>

definition receipts_of :: "session_id \<Rightarrow> ledger_event list \<Rightarrow> receipt_id list" where
  "receipts_of s es = concat (map (\<lambda>e. case e of Received t r n \<Rightarrow> if t = s then [r] else [] | _ \<Rightarrow> []) es)"

definition completions_of :: "session_id \<Rightarrow> ledger_event list \<Rightarrow> receipt_id list" where
  "completions_of s es =
     concat (map (\<lambda>e. case e of Completed d t r \<Rightarrow> if t = s then [r] else [] | _ \<Rightarrow> []) es)"

lemma receipts_of_snoc [simp]:
  "receipts_of s [] = []" "completions_of s [] = []"
  "receipts_of s (es @ [Received t r n]) = receipts_of s es @ (if t = s then [r] else [])"
  "receipts_of s (es @ [Completed d t r]) = receipts_of s es"
  "completions_of s (es @ [Received t r n]) = completions_of s es"
  "completions_of s (es @ [Completed d t r]) = completions_of s es @ (if t = s then [r] else [])"
  "quiet e \<Longrightarrow> receipts_of s (es @ [e]) = receipts_of s es"
  "quiet e \<Longrightarrow> completions_of s (es @ [e]) = completions_of s es"
  by (cases e; simp add: receipts_of_def completions_of_def)+

text \<open>
  The receipts \<open>rs\<close> of a live flow carry consecutive prefixes of its arrivals, and the first
  \<open>k\<close> of them are completed.
\<close>

definition fifo :: "ledger \<Rightarrow> session_id \<Rightarrow> flow \<Rightarrow> receipt_id list \<Rightarrow> nat \<Rightarrow> bool" where
  "fifo l s f rs k \<longleftrightarrow> k \<le> length rs \<and> (\<exists>pos.
     pos 0 = 0 \<and> pos k = fl_completed f \<and> pos (length rs) = fl_received f \<and>
     (\<forall>i < length rs. lg_receipts l (rs ! i) =
        Some \<lparr>rx_session = s, rx_before = pos i, rx_after = pos (Suc i)\<rparr> \<and>
        frames (pos (Suc i)) = frames (pos i) + 1)) \<and>
     (\<forall>r p. lg_receipts l r = Some p \<longrightarrow> rx_session p = s \<longrightarrow> r \<in> set rs)"

definition fifo_inv :: "ledger_event list \<Rightarrow> ledger \<Rightarrow> bool" where
  "fifo_inv es l \<longleftrightarrow>
     (\<forall>s f. get_flow l s = Some f \<longrightarrow>
        fifo l s f (receipts_of s es) (length (completions_of s es))) \<and>
     (\<forall>s. prefix (completions_of s es) (receipts_of s es)) \<and>
     (\<forall>s \<ge> lg_nextSession l. receipts_of s es = [])"

lemma fifo_frames:
  assumes "\<forall>i < n. frames (pos (Suc i)) = frames (pos i) + 1" "i \<le> n" "pos 0 = 0"
  shows "frames (pos i) = int i"
  using assms(2) by (induction i) (use assms in auto)

lemma fifo_receive:
  assumes "fifo l s f rs k" "r \<notin> dom (lg_receipts l)" "frames after = frames (fl_received f) + 1"
    "lg_receipts l' = (lg_receipts l)(r \<mapsto> \<lparr>rx_session = s, rx_before = fl_received f, rx_after = after\<rparr>)"
    "fl_received f' = after" "fl_completed f' = fl_completed f"
  shows "fifo l' s f' (rs @ [r]) k"
proof -
  from assms(1) obtain pos where k: "k \<le> length rs" and pos: "pos 0 = 0" "pos k = fl_completed f"
    "pos (length rs) = fl_received f"
    "\<forall>i < length rs. lg_receipts l (rs ! i) =
        Some \<lparr>rx_session = s, rx_before = pos i, rx_after = pos (Suc i)\<rparr> \<and>
        frames (pos (Suc i)) = frames (pos i) + 1"
    and all: "\<forall>r p. lg_receipts l r = Some p \<longrightarrow> rx_session p = s \<longrightarrow> r \<in> set rs"
    unfolding fifo_def by blast
  have fresh: "rs ! i \<noteq> r" if "i < length rs" for i
    using pos(4) that assms(2) by (metis domIff option.distinct(1))
  let ?pos = "pos(Suc (length rs) := after)"
  have "?pos 0 = 0 \<and> ?pos k = fl_completed f' \<and> ?pos (length (rs @ [r])) = fl_received f'"
    using k pos assms by auto
  moreover have "\<forall>i < length (rs @ [r]). lg_receipts l' ((rs @ [r]) ! i) =
        Some \<lparr>rx_session = s, rx_before = ?pos i, rx_after = ?pos (Suc i)\<rparr> \<and>
        frames (?pos (Suc i)) = frames (?pos i) + 1"
    using pos assms(3,4) fresh by (auto simp add: less_Suc_eq nth_append)
  moreover have "\<forall>q p. lg_receipts l' q = Some p \<longrightarrow> rx_session p = s \<longrightarrow> q \<in> set (rs @ [r])"
    using all assms(4) by (auto split: if_splits)
  ultimately show ?thesis
    unfolding fifo_def using k by (metis le_SucI length_append_singleton)
qed

lemma fifo_complete:
  assumes "fifo l s f rs k" "lg_receipts l r = Some p" "rx_session p = s"
    "rx_before p = fl_completed f" "lg_receipts l' = lg_receipts l"
    "fl_received f' = fl_received f" "fl_completed f' = rx_after p"
  shows "k < length rs" "rs ! k = r" "fifo l' s f' rs (Suc k)"
proof -
  from assms(1) obtain pos where k: "k \<le> length rs" and pos: "pos 0 = 0" "pos k = fl_completed f"
    "pos (length rs) = fl_received f"
    "\<forall>i < length rs. lg_receipts l (rs ! i) =
        Some \<lparr>rx_session = s, rx_before = pos i, rx_after = pos (Suc i)\<rparr> \<and>
        frames (pos (Suc i)) = frames (pos i) + 1"
    and all: "\<forall>r p. lg_receipts l r = Some p \<longrightarrow> rx_session p = s \<longrightarrow> r \<in> set rs"
    unfolding fifo_def by blast
  obtain i where i: "i < length rs" "rs ! i = r"
    using all assms(2,3) by (metis in_set_conv_nth)
  then have p: "p = \<lparr>rx_session = s, rx_before = pos i, rx_after = pos (Suc i)\<rparr>"
    using pos(4) assms(2) by auto
  have "frames (pos j) = int j" if "j \<le> length rs" for j
    using fifo_frames [of "length rs" pos j] pos that by auto
  then have "i = k"
    using p assms(4) pos(2) i k by (metis less_or_eq_imp_le of_nat_eq_iff receipt_prefix.select_convs(2))
  with i p pos all assms show "k < length rs" "rs ! k = r" "fifo l' s f' rs (Suc k)"
    unfolding fifo_def by auto
qed

lemma fifo_other:
  assumes "fifo l s f rs k" "\<And>r. lg_receipts l' r = lg_receipts l r \<or>
      (\<exists>p. lg_receipts l r = None \<and> lg_receipts l' r = Some p \<and> rx_session p \<noteq> s)"
    "fl_received f' = fl_received f" "fl_completed f' = fl_completed f"
  shows "fifo l' s f' rs k"
proof -
  have a: "lg_receipts l r = Some p \<Longrightarrow> lg_receipts l' r = Some p" for r p
    using assms(2) [of r] by auto
  have b: "lg_receipts l' r = Some p \<Longrightarrow> rx_session p = s \<Longrightarrow> lg_receipts l r = Some p" for r p
    using assms(2) [of r] by auto
  from assms(1) obtain pos where pos: "k \<le> length rs" "pos 0 = 0" "pos k = fl_completed f"
    "pos (length rs) = fl_received f"
    and at: "\<forall>i < length rs. lg_receipts l (rs ! i) =
        Some \<lparr>rx_session = s, rx_before = pos i, rx_after = pos (Suc i)\<rparr> \<and>
        frames (pos (Suc i)) = frames (pos i) + 1"
    and all: "\<forall>r p. lg_receipts l r = Some p \<longrightarrow> rx_session p = s \<longrightarrow> r \<in> set rs"
    unfolding fifo_def by blast
  have "\<forall>i < length rs. lg_receipts l' (rs ! i) =
        Some \<lparr>rx_session = s, rx_before = pos i, rx_after = pos (Suc i)\<rparr> \<and>
        frames (pos (Suc i)) = frames (pos i) + 1"
    using at a by blast
  moreover have "\<forall>r p. lg_receipts l' r = Some p \<longrightarrow> rx_session p = s \<longrightarrow> r \<in> set rs"
    using all b by blast
  ultimately show ?thesis
    using pos unfolding fifo_def assms(3,4) by blast
qed

lemma fifo_cong:
  "lg_receipts l' = lg_receipts l \<Longrightarrow> fl_received f' = fl_received f \<Longrightarrow>
   fl_completed f' = fl_completed f \<Longrightarrow> fifo l' s f' rs k \<longleftrightarrow> fifo l s f rs k"
  by (simp add: fifo_def)

lemma receiptsD:
  assumes "ledger_inv l" "lg_receipts l r = Some p"
  shows "r < lg_nextReceipt l" "rx_session p < lg_nextSession l"
  using assms unfolding ledger_inv_def ledger_receipts_def by blast+

lemma step_receipts: "ledger_step l e l' \<Longrightarrow> ledger_inv l \<Longrightarrow> quiet e \<Longrightarrow> lg_receipts l' = lg_receipts l"
proof (induction rule: ledger_step.induct)
  case (step_report l l' t s f)
  from takeConsumed_report [OF step_report(4,1-3)] show ?case by cases simp
next
  case (step_ack l s l' k)
  then show ?case
    by (auto simp add: takeSettlement_def Let_def split: option.splits if_splits)
qed (auto simp add: ledger_open_def ledger_retire_def ledger_notice_def ledger_forget_def
    ledger_close_def Let_def res_simps split: if_splits)

lemma fifo_inv_quiet:
  assumes inv: "ledger_inv l" and fi: "fifo_inv es l" and step: "ledger_step l e l'" and q: "quiet e"
  shows "fifo_inv (es @ [e]) l'"
proof -
  note rc = step_receipts [OF step inv q]
  have live: "fifo l s f (receipts_of s es) (length (completions_of s es))" if "get_flow l s = Some f" for s f
    using fi that by (simp add: fifo_inv_def)
  have pre: "prefix (completions_of s es) (receipts_of s es)" for s
    using fi by (simp add: fifo_inv_def)
  have new: "receipts_of s es = []" if "lg_nextSession l \<le> s" for s
    using fi that by (simp add: fifo_inv_def)
  from step_shape [OF step inv] have "(\<forall>s f'. get_flow l' s = Some f' \<longrightarrow>
      fifo l' s f' (receipts_of s es) (length (completions_of s es))) \<and> lg_nextSession l \<le> lg_nextSession l'"
  proof (elim disjE exE conjE)
    fix w assume e: "e = Opened (lg_nextSession l)" "lg_nextSession l' = Suc (lg_nextSession l)"
      "\<forall>s. get_flow l' s = (if s = lg_nextSession l then Some (new_flow w (bytesToHex w)) else get_flow l s)"
    let ?s = "lg_nextSession l"
    have none: "receipts_of ?s es = [] \<and> completions_of ?s es = []"
      using new [of ?s] pre [of ?s] by simp
    have "rx_session p \<noteq> ?s" if "lg_receipts l r = Some p" for r p
      using receiptsD(2) [OF inv that] by simp
    then have "fifo l' ?s (new_flow w (bytesToHex w)) [] 0"
      by (auto simp add: fifo_def new_flow_def rc)
    with e none live rc show ?thesis
      by (simp add: fifo_cong [OF rc refl refl])
  next
    fix t f f' assume "flow_change l e l' t f f'"
    with q have ch: "get_flow l t = Some f" "\<And>s. get_flow l' s = (if s = t then Some f' else get_flow l s)"
      "lg_nextSession l' = lg_nextSession l" "fl_received f' = fl_received f" "fl_completed f' = fl_completed f"
      unfolding flow_change_def accounts_def by blast+
    have "fifo l' t f' (receipts_of t es) (length (completions_of t es))"
      using live [OF ch(1)] fifo_cong [OF rc ch(4,5)] by blast
    with live ch(2,3) show ?thesis
      by (auto simp add: fifo_cong [OF rc refl refl] split: if_splits)
  qed (use live in \<open>auto simp add: fifo_cong [OF rc refl refl] split: if_splits\<close>)
  with q pre new show ?thesis
    by (auto simp add: fifo_inv_def)
qed

lemma fifo_inv_step:
  assumes inv: "ledger_inv l" and fi: "fifo_inv es l" and step: "ledger_step l e l'"
  shows "fifo_inv (es @ [e]) l'"
proof (cases "quiet e")
  case True
  then show ?thesis using fifo_inv_quiet [OF inv fi step] by simp
next
  case False
  note live = fi [unfolded fifo_inv_def, THEN conjunct1, rule_format]
    and pre = fi [unfolded fifo_inv_def, THEN conjunct2, THEN conjunct1, rule_format]
    and new = fi [unfolded fifo_inv_def, THEN conjunct2, THEN conjunct2, rule_format]
  from step False show ?thesis
  proof cases
    case (step_receive s n r)
    from step_receive(2) show ?thesis
    proof (cases rule: ledger_receive_cases)
      case (1 f i after)
      let ?f = "f\<lparr>fl_received := after\<rparr>"
      have fresh: "r \<notin> dom (lg_receipts l)"
        using receiptsD(1) [OF inv] 1(11) by blast
      have sel: "lg_receipts l' = (lg_receipts l)(r \<mapsto> \<lparr>rx_session = s, rx_before = fl_received f, rx_after = after\<rparr>)"
        "lg_nextSession l' = lg_nextSession l"
        "\<And>t. get_flow l' t = (if t = s then Some ?f else get_flow l t)"
        using 1(1) by (simp_all add: 1(12) get_flow_put)
      have "fifo l' s ?f (receipts_of s es @ [r]) (length (completions_of s es))"
        using fifo_receive [OF live [OF 1(1)] fresh _ sel(1)] 1(7) by simp
      moreover have "fifo l' t g (receipts_of t es) (length (completions_of t es))"
        if "t \<noteq> s" "get_flow l t = Some g" for t g
        using fresh that(1) by (intro fifo_other [OF live [OF that(2)]]) (auto simp add: sel(1))
      ultimately show ?thesis
        using pre new ledger_inv_get(2) [OF inv 1(1)]
        by (auto simp add: fifo_inv_def step_receive(1) sel intro: prefix_order.trans split: if_splits)
    qed
  next
    case (step_complete d r p)
    from step_complete(2) show ?thesis
    proof (cases rule: ledger_complete_cases)
      case (1 q f z)
      let ?f = "if d then discarded_flow f z else consumed_flow f z" and ?s = "rx_session q"
      have sel: "lg_receipts l' = lg_receipts l" "lg_nextSession l' = lg_nextSession l"
        "\<And>t. get_flow l' t = (if t = ?s then Some ?f else get_flow l t)"
        using 1(2) by (simp_all add: 1(7) get_flow_put)
      have f: "fl_received ?f = fl_received f" "fl_completed ?f = rx_after q"
        using 1(6) by (simp_all add: discarded_flow_def consumed_flow_def)
      note fin = fifo_complete [OF live [OF 1(2)] 1(1) _ 1(4) sel(1) f, simplified]
      have "completions_of ?s es @ [r] = take (Suc (length (completions_of ?s es))) (receipts_of ?s es)"
        using pre [of ?s] fin(1,2) by (auto simp add: take_Suc_conv_app_nth elim!: prefixE)
      then have "prefix (completions_of ?s es @ [r]) (receipts_of ?s es)"
        by (metis take_is_prefix)
      moreover have "fifo l' t g (receipts_of t es) (length (completions_of t es))"
        if "get_flow l t = Some g" for t g
        using live [OF that] by (simp add: fifo_cong [OF sel(1) refl refl])
      ultimately show ?thesis
        using pre new fin(3) 1(1) step_complete(3)
        by (auto simp add: fifo_inv_def step_complete(1) sel split: if_splits)
    qed
  qed auto
qed

lemma fifo_inv_run:
  "ledger_run l0 es l \<Longrightarrow> ledger_inv l0 \<Longrightarrow> fifo_inv [] l0 \<Longrightarrow> fifo_inv es l"
proof (induction rule: ledger_run.induct)
  case (run_snoc l es l' e l'')
  then show ?case
    using fifo_inv_step ledger_run_inv by metis
qed simp

section \<open>Properties\<close>

text \<open>
  C1. On every run from a fresh ledger, the outstanding total of the ledger is what the peer
  computes from the wire alone: over all sessions ever opened, what it sent minus the totals in
  the last control (feedback or settlement acknowledgement) it got for the session; and no
  control ever returns more than was sent.
\<close>

theorem ledger_refines_peer_account:
  assumes "new_ledger c capacity m = Inr l0" "ledger_run l0 es l"
  shows "lg_outstanding l = (\<Sum>s<lg_nextSession l. fst (account_of es s) - snd (account_of es s)) \<and>
    (\<forall>s. snd (account_of es s) \<le> fst (account_of es s))"
proof
  have inv: "ledger_inv l"
    using assms new_ledger_inv ledger_run_inv by blast
  have acc: "account_inv (account_of es) l"
    using account_inv_run [OF assms(2)] new_ledger_inv account_inv_new assms(1) by blast
  show "lg_outstanding l = (\<Sum>s<lg_nextSession l. fst (account_of es s) - snd (account_of es s))"
    by (rule account_outstanding [OF inv acc])
  show "\<forall>s. snd (account_of es s) \<le> fst (account_of es s)"
  proof
    fix s show "snd (account_of es s) \<le> fst (account_of es s)"
      using account_invD(1,2) [OF acc, of s] flow_ok_order(5) ledger_inv_get(1) [OF inv, of s]
      by (cases "get_flow l s") auto
  qed
qed


lemma flow_sum_mono:
  assumes "ledger_structure l" "\<And>f. flow_ok f \<Longrightarrow> g f \<le> h f"
  shows "flow_sum g l \<le> flow_sum h l"
  unfolding flow_sum_def using structureD(3) [OF assms(1)] assms(2) by (intro sum_list_mono) auto

lemma flow_sum_add: "flow_sum (\<lambda>f. g f + h f) l = flow_sum g l + flow_sum h l"
  by (simp add: flow_sum_def sum_list_addf)

lemma flow_sum_zero: "flow_sum (\<lambda>_. 0) l = 0"
  by (simp add: flow_sum_def)

lemma held_pending_outstanding: "flow_ok f \<Longrightarrow> held_of f + pending_of f \<le> outstanding_of f"
  using flow_ok_order(3) [of f]
  by (auto simp add: held_of_def pending_of_def outstanding_of_def flow_ok_def counts_le_iff)

lemma held_pending_nonneg: "flow_ok f \<Longrightarrow> 0 \<le> held_of f" "flow_ok f \<Longrightarrow> 0 \<le> pending_of f"
  using flow_ok_order [of f] by (auto simp add: held_of_def pending_of_def)

text \<open>
  C16. In every reachable ledger the held and the consumed-but-unreported envelopes are never
  negative and together fit in the outstanding total, which never exceeds the declared capacity.
\<close>

theorem ledger_within_capacity:
  assumes "reachable l"
  shows "0 \<le> lg_held l \<and> 0 \<le> lg_pendingConsumed l \<and>
    lg_held l + lg_pendingConsumed l \<le> lg_outstanding l \<and> lg_outstanding l \<le> lg_capacity l"
proof -
  have str: "ledger_structure l" and tot: "ledger_totals l"
    using reachable_inv [OF assms] by (simp_all add: ledger_inv_def)
  show ?thesis
    using tot flow_sum_mono [OF str, of "\<lambda>_. 0" held_of] flow_sum_mono [OF str, of "\<lambda>_. 0" pending_of]
      flow_sum_mono [OF str, of "\<lambda>f. held_of f + pending_of f" outstanding_of]
    by (auto simp add: held_pending_nonneg held_pending_outstanding ledger_totals_def flow_sum_add flow_sum_zero)
qed

text \<open>
  C5. Completion is first in, first out: on every run, and for every session, the receipts that
  were consumed or discarded, in the order of their completion, are a prefix of the receipts
  that were issued for the session. So no receipt is completed twice, and none is skipped.
\<close>

theorem receipts_complete_in_order:
  assumes "new_ledger c capacity m = Inr l0" "ledger_run l0 es l"
  shows "prefix (completions_of s es) (receipts_of s es)"
proof -
  have "fifo_inv [] l0"
    using new_ledger_empty [OF assms(1)] by (simp add: fifo_inv_def get_flow_def)
  then show ?thesis
    using fifo_inv_run [OF assms(2)] new_ledger_inv [OF assms(1)] by (simp add: fifo_inv_def)
qed

lemma report_encodes:
  assumes "flow_ok f"
  shows "\<exists>b. encodeDeliveryConsumed (report_of f) = Inr b" "\<exists>b. encodeSettlementAck (ack_of f) = Inr b"
proof -
  have sh: "shaped (fl_consumedPrefix f)" "shaped (fl_received f)"
    using assms shaped_from [of "fl_reported f" "fl_consumedPrefix f"]
      shaped_from [of "fl_consumedPrefix f" "fl_completed f"] shaped_from [of "fl_completed f" "fl_received f"]
    by (auto simp add: flow_ok_def)
  have "encodedBytes (fl_received f) < 256 ^ 8" "length (fl_wireId f) = 8" "nonzero (fl_wireId f)"
    using assms by (simp_all add: flow_ok_def relay_constants)
  moreover have "encodedBytes (fl_consumedPrefix f) \<le> encodedBytes (fl_received f)"
    using flow_ok_order(3,4) [OF assms] by (auto simp add: counts_le_iff)
  ultimately have "validateTotals (report_of f) = Inr () \<and> validateTotals (st_totals (ack_of f)) = Inr ()"
    using sh shaped_nonneg [OF sh(1)] shaped_nonneg [OF sh(2)]
    by (auto simp add: validateTotals_Inr report_of_def ack_of_def shaped_iff counts_le_iff)
  then show "\<exists>b. encodeDeliveryConsumed (report_of f) = Inr b" "\<exists>b. encodeSettlementAck (ack_of f) = Inr b"
    by (simp_all add: encodeDeliveryConsumed_def encodeSettlementAck_def encodeDeliveryTotals_Inr
        ack_of_def)
qed

text \<open>
  C9. Feedback that is due is never withheld: whenever \<^verbatim>\<open>feedbackReady\<close> holds in a reachable
  ledger, \<^verbatim>\<open>takeConsumed\<close> returns a report that the wire encoder accepts, and the outstanding
  total falls by exactly the consumption that the report takes off the pending total, which is
  at least one frame.
\<close>

theorem feedback_never_withheld:
  assumes "reachable l" "feedbackReady l"
  shows "\<exists>l' t b. takeConsumed l = (l', Some t) \<and> encodeDeliveryConsumed t = Inr b \<and>
    lg_outstanding l - lg_outstanding l' = lg_pendingConsumed l - lg_pendingConsumed l' \<and>
    frames (lg_pendingConsumed l') < frames (lg_pendingConsumed l)"
proof -
  note inv = reachable_inv [OF assms(1)]
  obtain k f where k: "reportable l (scanned l k)" "get_flow l (scanned l k) = Some f"
    and eq: "takeConsumed l = (put_flow (scanned l k) (reported_flow f)
       (l\<lparr>lg_cursor := (lg_cursor l + Suc k) mod length (lg_order l),
          lg_outstanding := lg_outstanding l - (fl_consumedPrefix f - fl_reported f),
          lg_pendingConsumed := lg_pendingConsumed l - (fl_consumedPrefix f - fl_reported f)\<rparr>),
     Some (report_of f))"
    using takeConsumed_ready [OF inv assms(2)] by metis
  have "flow_ok f" "fl_consumedPrefix f - fl_reported f \<noteq> 0"
    using ledger_inv_get(1) [OF inv k(2)] k by (simp_all add: reportable_def)
  moreover then have "shaped (fl_consumedPrefix f - fl_reported f)"
    by (simp add: flow_ok_def)
  ultimately have "0 < frames (fl_consumedPrefix f - fl_reported f)"
    using shaped_zero_frames shaped_nonneg by (metis counts_le_iff counts_sel(5) order_le_less)
  then show ?thesis
    using eq report_encodes(1) [OF \<open>flow_ok f\<close>] by auto
qed


lemma frames_flow_sum: "frames (flow_sum g l) = sum_list (map (\<lambda>p. frames (g (snd p))) (lg_sessions l))"
proof -
  have "frames (sum_list (map (\<lambda>p. g (snd p)) xs)) = sum_list (map (\<lambda>p. frames (g (snd p))) xs)"
    for xs :: "(session_id \<times> flow) list"
    by (induction xs) auto
  then show ?thesis by (simp add: flow_sum_def)
qed

lemma reportable_ready:
  assumes inv: "ledger_inv l" and rep: "reportable l s" and "\<not> lg_closed l"
  shows "feedbackReady l"
proof -
  from inv have str: "ledger_structure l" and tot: "ledger_totals l"
    by (simp_all add: ledger_inv_def)
  obtain f where f: "get_flow l s = Some f" "\<not> is_settled (fl_state f)" "fl_consumedPrefix f \<noteq> fl_reported f"
    using rep by (auto simp add: reportable_def split: option.splits)
  have "shaped (pending_of f)" "pending_of f \<noteq> 0"
    using structure_get(1) [OF str f(1)] f by (simp_all add: pending_of_def flow_ok_def)
  then have "frames (pending_of f) \<noteq> 0"
    using shaped_zero_frames by blast
  moreover have "0 \<le> frames (pending_of (snd p))" if "p \<in> set (lg_sessions l)" for p
    using structureD(3) [OF str] that held_pending_nonneg(2) [of "snd p"]
    by (cases p) (auto simp add: counts_le_iff)
  ultimately have "frames (flow_sum pending_of l) \<noteq> 0"
    using structure_get(3) [OF str f(1)] unfolding frames_flow_sum
    by (subst sum_list_nonneg_eq_0_iff) force+
  with tot assms(3) show ?thesis
    by (simp add: feedbackReady_def ledger_totals_def)
qed

lemma feedback_reaches:
  assumes "ledger_inv l" "\<not> lg_closed l" "reportable l s" "get_flow l s = Some f"
    "scanned l k = s" "k < length (lg_order l)"
  shows "\<exists>n \<le> k. snd (takeConsumed (((fst \<circ> takeConsumed) ^^ n) l)) = Some (report_of f)"
  using assms
proof (induction k arbitrary: l rule: less_induct)
  case (less k)
  obtain j g where j: "j < length (lg_order l)" "reportable l (scanned l j)"
      "\<And>i. i < j \<Longrightarrow> \<not> reportable l (scanned l i)" "get_flow l (scanned l j) = Some g"
    and eq: "takeConsumed l = (put_flow (scanned l j) (reported_flow g)
       (l\<lparr>lg_cursor := (lg_cursor l + Suc j) mod length (lg_order l),
          lg_outstanding := lg_outstanding l - (fl_consumedPrefix g - fl_reported g),
          lg_pendingConsumed := lg_pendingConsumed l - (fl_consumedPrefix g - fl_reported g)\<rparr>),
     Some (report_of g))"
    using takeConsumed_ready [OF less.prems(1) reportable_ready [OF less.prems(1,3,2)]] by blast
  show ?case
  proof (cases "scanned l j = s")
    case True
    then show ?thesis
      using eq j(4) less.prems(4) by (intro exI [of _ 0]) simp
  next
    case False
    let ?l = "fst (takeConsumed l)"
    have "j < k"
      using j(3) [of k] less.prems(3,5) False by (metis linorder_neqE_nat)
    have "scanned ?l (k - Suc j) = s"
      using less.prems(5) \<open>j < k\<close> mod_add_left_eq [of "lg_cursor l + Suc j" "length (lg_order l)" "k - Suc j"]
      by (simp add: eq scanned_def)
    moreover have get: "get_flow ?l s = Some f"
      using less.prems(4) False by (simp add: eq get_flow_put)
    moreover have "reportable ?l s"
      using less.prems(3,4) get by (simp add: reportable_def)
    moreover have "\<not> lg_closed ?l" "k - Suc j < length (lg_order ?l)" "k - Suc j < k"
      using less.prems(2,6) \<open>j < k\<close> by (simp_all add: eq)
    ultimately obtain n where "n \<le> k - Suc j"
      "snd (takeConsumed (((fst \<circ> takeConsumed) ^^ n) ?l)) = Some (report_of f)"
      using less.IH [of "k - Suc j" ?l] takeConsumed_inv [OF less.prems(1)] by blast
    then have "Suc n \<le> k"
      "snd (takeConsumed (((fst \<circ> takeConsumed) ^^ Suc n) l)) = Some (report_of f)"
      using \<open>j < k\<close> by (simp, simp only: funpow_Suc_right o_apply)
    then show ?thesis by blast
  qed
qed

text \<open>
  C15. Feedback is fair: a session with consumption that was not reported yet gets its report
  within as many calls of \<^verbatim>\<open>takeConsumed\<close> as there are sessions, whatever the others consumed,
  and the report carries the session's whole consumed prefix.
\<close>

theorem feedback_is_fair:
  assumes "reachable l" "\<not> lg_closed l" "get_flow l s = Some f" "\<not> is_settled (fl_state f)"
    "fl_consumedPrefix f \<noteq> fl_reported f"
  shows "\<exists>n < length (lg_order l). \<exists>t. snd (takeConsumed (((fst \<circ> takeConsumed) ^^ n) l)) = Some t \<and>
    dt_relaySessionId t = fl_wireId f \<and> totals_counts t = fl_consumedPrefix f"
proof -
  note inv = reachable_inv [OF assms(1)]
  from inv have str: "ledger_structure l" by (simp add: ledger_inv_def)
  have rep: "reportable l s"
    using assms by (simp add: reportable_def)
  have s: "s \<in> set (lg_order l)"
    using structure_get(3) [OF str assms(3)] structureD(1) [OF str] by force
  then have "lg_cursor l < length (lg_order l)"
    using structureD(7) [OF str] by auto
  then obtain k where k: "k < length (lg_order l)" "scanned l k = s"
    using scanned_all [OF s] by blast
  obtain n where n: "n \<le> k" "snd (takeConsumed (((fst \<circ> takeConsumed) ^^ n) l)) = Some (report_of f)"
    using feedback_reaches [OF inv assms(2) rep assms(3) k(2,1)] by blast
  show ?thesis
    using n k(1) by (intro exI [of _ n] conjI exI [of _ "report_of f"])
      (simp_all add: report_of_def totals_counts_def)
qed


lemma flow_grows_refl [simp]: "flow_grows f f"
  by (simp add: flow_grows_def)

lemma flow_grows_trans: "flow_grows f g \<Longrightarrow> flow_grows g h \<Longrightarrow> flow_grows f h"
  by (auto simp add: flow_grows_def)

lemma run_flow:
  assumes "ledger_run l es l'" "ledger_inv l" "get_flow l s = Some f"
  shows "s < lg_nextSession l' \<and> (\<forall>f'. get_flow l' s = Some f' \<longrightarrow> flow_grows f f')"
  using assms
proof (induction rule: ledger_run.induct)
  case (run_nil l)
  then show ?case using ledger_inv_get(2) by simp
next
  case (run_snoc l es l' e l'')
  have "ledger_inv l'"
    using ledger_run_inv run_snoc by blast
  from step_shape [OF run_snoc(2) this] run_snoc(3) [OF run_snoc(4,5)]
  show ?case
    by (elim disjE exE conjE) (auto simp add: flow_change_def intro: flow_grows_trans split: if_splits)
qed

text \<open>
  The reports of one session are strictly increasing: on every run that starts with a
  report of a session and ends with another one of it, the second report names the same wire
  session and larger cumulative totals.
\<close>

theorem reports_strictly_increase:
  assumes "reachable l" "ledger_run l (Reported s t # es @ [Reported s t']) l'"
  shows "dt_relaySessionId t' = dt_relaySessionId t \<and> dt_totalFrames t < dt_totalFrames t' \<and>
    dt_totalEncodedBytes t < dt_totalEncodedBytes t'"
proof -
  obtain m m' where first: "ledger_step l (Reported s t) m" and run: "ledger_run m es m'"
    and last: "ledger_step m' (Reported s t') l'"
    using assms(2) by (auto simp add: ledger_run_Cons)
  have inv: "ledger_inv l" "ledger_inv m" "ledger_inv m'"
    using reachable_inv [OF assms(1)] ledger_step_inv [OF first] ledger_run_inv [OF run] by auto
  from first obtain f where f: "takeConsumed l = (m, Some t)" "get_flow l s = Some f"
    "fl_wireId f = dt_relaySessionId t"
    by cases auto
  from last obtain g where g: "takeConsumed m' = (l', Some t')" "get_flow m' s = Some g"
    "fl_wireId g = dt_relaySessionId t'"
    by cases auto
  have m: "get_flow m s = Some (reported_flow f)" "t = report_of f"
    by (rule takeConsumed_report [OF inv(1) f]; simp add: get_flow_put f(2))+
  have t': "t' = report_of g" "reportable m' s"
    by (rule takeConsumed_report [OF inv(3) g], assumption)+
  have grows: "flow_grows (reported_flow f) g"
    using run_flow [OF run inv(2) m(1)] g(2) by blast
  have "shaped (fl_consumedPrefix g - fl_reported g)" "fl_consumedPrefix g - fl_reported g \<noteq> 0"
    using ledger_inv_get(1) [OF inv(3) g(2)] t'(2) g(2) by (simp_all add: flow_ok_def reportable_def)
  then have "0 < frames (fl_consumedPrefix g - fl_reported g)" "0 < encodedBytes (fl_consumedPrefix g - fl_reported g)"
    by (auto simp add: shaped_iff counts_eq_iff)
  then show ?thesis
    using grows m(2) t'(1)
    by (auto simp add: report_of_def reported_flow_def flow_grows_def counts_le_iff)
qed


text \<open>
  A drained session leaves completely: when a session whose arrivals were frozen by a notice
  has nothing uncompleted left, \<^verbatim>\<open>takeSettlement\<close> returns an acknowledgement that the wire
  encoder accepts, gives back everything the session still had outstanding, and \<^verbatim>\<open>forget\<close> then
  succeeds.
\<close>

theorem drained_session_released:
  assumes "reachable l" "\<not> lg_closed l" "get_flow l s = Some f" "fl_state f = Draining"
    "fl_completed f = fl_received f"
  shows "\<exists>l' k b l''. takeSettlement l s = (l', Some k) \<and> encodeSettlementAck k = Inr b \<and>
    lg_outstanding l' = lg_outstanding l - (fl_received f - fl_reported f) \<and>
    ledger_forget l' s = Inr l'' \<and> get_flow l'' s = None"
proof -
  note inv = reachable_inv [OF assms(1)] and eq = takeSettlement_Draining [OF assms(3,2,5,4)]
  let ?l = "fst (takeSettlement l s)"
  have "ledger_check ?l s = Inr (f\<lparr>fl_state := Settled False\<rparr>)"
    using assms(2,3) by (simp add: eq ledger_check_def get_flow_put)
  then obtain l'' where l'': "ledger_forget ?l s = Inr l''"
    by (simp add: ledger_forget_def Let_def)
  moreover have "ledger_structure ?l"
    using takeSettlement_inv [OF inv, of s] by (simp add: ledger_inv_def)
  from l'' this have "get_flow l'' s = None"
    by (cases rule: ledger_forget_cases) simp
  ultimately show ?thesis
    using report_encodes(2) [OF ledger_inv_get(1) [OF inv assms(3)]] by (auto simp add: eq)
qed

section \<open>A concrete run\<close>

text \<open>
  One session receives two envelopes of 30 and 40 bytes, consumes and reports both, and is
  settled. The witnesses below apply the properties to this run.
\<close>

definition demo_id :: bytes where "demo_id = [1, 0, 0, 0, 0, 0, 0, 0]"

definition demo_flow :: "settlement_state \<Rightarrow> receive_counts \<Rightarrow> receive_counts \<Rightarrow> receive_counts \<Rightarrow> flow" where
  "demo_flow st received consumed reported = \<lparr>fl_wireId = demo_id, fl_id = bytesToHex demo_id,
     fl_state = st, fl_received = received, fl_consumed = consumed, fl_discarded = 0,
     fl_consumedPrefix = consumed, fl_completed = consumed, fl_reported = reported\<rparr>"

definition demo_ledger :: "(session_id \<times> flow) list \<Rightarrow> nat \<Rightarrow> receive_counts \<Rightarrow>
  receive_counts \<Rightarrow> receive_counts \<Rightarrow> ledger" where
  "demo_ledger fs n held outstanding pending =
     \<lparr>lg_capacity = Counts 4 400, lg_maxSessions = 2, lg_sessions = fs,
      lg_wireSessions = (\<lambda>p. fl_id (snd p)) ` set fs, lg_order = map fst fs,
      lg_receipts = (\<lambda>r. if n \<le> r then None else
        if r = 0 then Some \<lparr>rx_session = 0, rx_before = 0, rx_after = Counts 1 30\<rparr>
        else Some \<lparr>rx_session = 0, rx_before = Counts 1 30, rx_after = Counts 2 70\<rparr>),
      lg_held = held, lg_outstanding = outstanding, lg_pendingConsumed = pending, lg_cursor = 0,
      lg_closed = False, lg_nextSession = length fs, lg_nextReceipt = n\<rparr>"

definition demo_totals :: "int \<Rightarrow> int \<Rightarrow> delivery_totals" where
  "demo_totals f b = \<lparr>dt_relaySessionId = demo_id, dt_totalFrames = f, dt_totalEncodedBytes = b\<rparr>"

lemma counts_calc:
  "Counts a b + Counts c d = Counts (a + c) (b + d)" "Counts a b - Counts c d = Counts (a - c) (b - d)"
  "Counts 0 0 = 0"
  by (simp_all add: counts_eq_iff)

lemmas demo_simps = demo_ledger_def demo_flow_def demo_totals_def Let_def res_simps counts_calc
  counts_eq_iff relay_constants get_flow_def put_flow_def max_safe_integer_def

lemma demo_new: "new_ledger ''c'' (Counts 4 400) (Integral 2) = Inr (demo_ledger [] 0 0 0 0)"
  by (simp add: demo_simps new_ledger_def js_blank_def positiveUint64_def fun_eq_iff)

lemma demo_open: "ledger_step (demo_ledger [] 0 0 0 0) (Opened 0)
    (demo_ledger [(0, demo_flow Active 0 0 0)] 0 0 0 0)"
  by (rule step_open [of _ demo_id]) (simp add: demo_simps ledger_open_def demo_id_def nonzero_def new_flow_def)

lemma demo_receive: 
  "ledger_step (demo_ledger [(0, demo_flow Active 0 0 0)] 0 0 0 0) (Received 0 0 30)
    (demo_ledger [(0, demo_flow Active (Counts 1 30) 0 0)] 1 (Counts 1 30) (Counts 1 30) 0)"
  "ledger_step (demo_ledger [(0, demo_flow Active (Counts 1 30) 0 0)] 1 (Counts 1 30) (Counts 1 30) 0)
    (Received 0 1 40)
    (demo_ledger [(0, demo_flow Active (Counts 2 70) 0 0)] 2 (Counts 2 70) (Counts 2 70) 0)"
  by (rule step_receive; simp add: demo_simps ledger_receive_def ledger_check_def appendEnvelope_def
      MIN_ENVELOPE_BYTES_def MAX_ENVELOPE_BYTES_def fun_eq_iff)+


abbreviation demo_live :: "settlement_state \<Rightarrow> receive_counts \<Rightarrow> receive_counts \<Rightarrow> receive_counts \<Rightarrow>
  receive_counts \<Rightarrow> receive_counts \<Rightarrow> ledger" where
  "demo_live st consumed reported \<equiv> demo_ledger [(0, demo_flow st (Counts 2 70) consumed reported)] 2"

lemma demo_complete:
  "ledger_step (demo_live Active 0 0 (Counts 2 70) (Counts 2 70) 0) (Completed False 0 0)
    (demo_live Active (Counts 1 30) 0 (Counts 1 40) (Counts 2 70) (Counts 1 30))"
  "ledger_step (demo_live Active (Counts 1 30) (Counts 1 30) (Counts 1 40) (Counts 1 40) 0)
    (Completed False 0 1)
    (demo_live Active (Counts 2 70) (Counts 1 30) 0 (Counts 1 40) (Counts 1 40))"
  using step_complete [of False "demo_live Active 0 0 (Counts 2 70) (Counts 2 70) 0" 0
      "demo_live Active (Counts 1 30) 0 (Counts 1 40) (Counts 2 70) (Counts 1 30)"
      "\<lparr>rx_session = 0, rx_before = 0, rx_after = Counts 1 30\<rparr>"]
    step_complete [of False "demo_live Active (Counts 1 30) (Counts 1 30) (Counts 1 40) (Counts 1 40) 0" 1
      "demo_live Active (Counts 2 70) (Counts 1 30) 0 (Counts 1 40) (Counts 1 40)"
      "\<lparr>rx_session = 0, rx_before = Counts 1 30, rx_after = Counts 2 70\<rparr>"]
  by (simp_all add: demo_simps ledger_complete_def ledger_check_def)

lemma demo_report:
  "ledger_step (demo_live Active (Counts 1 30) 0 (Counts 1 40) (Counts 2 70) (Counts 1 30))
    (Reported 0 (demo_totals 1 30))
    (demo_live Active (Counts 1 30) (Counts 1 30) (Counts 1 40) (Counts 1 40) 0)"
  "ledger_step (demo_live Active (Counts 2 70) (Counts 1 30) 0 (Counts 1 40) (Counts 1 40))
    (Reported 0 (demo_totals 2 70)) (demo_live Active (Counts 2 70) (Counts 2 70) 0 0 0)"
  by (rule step_report, simp add: demo_simps takeConsumed_def feedbackReady_def,
      simp add: demo_simps, simp add: demo_simps)+

lemma demo_notice:
  "ledger_notice (demo_live Active (Counts 2 70) (Counts 1 30) 0 (Counts 1 40) (Counts 1 40)) 0
      \<lparr>st_kind = Settlement_notice, st_totals = demo_totals 2 70\<rparr> =
    Inr (demo_live Draining (Counts 2 70) (Counts 1 30) 0 (Counts 1 40) (Counts 1 40))"
  by (simp add: demo_simps ledger_notice_def ledger_check_def)

lemma demo_ack:
  "takeSettlement (demo_live Draining (Counts 2 70) (Counts 1 30) 0 (Counts 1 40) (Counts 1 40)) 0 =
    (demo_live (Settled False) (Counts 2 70) (Counts 1 30) 0 0 0,
     Some \<lparr>st_kind = Settlement_ack, st_totals = demo_totals 2 70\<rparr>)"
  by (simp add: demo_simps takeSettlement_def)

text \<open>The run up to the second completion, in its two halves.\<close>

lemma demo_run:
  "ledger_run (demo_ledger [] 0 0 0 0) [Opened 0, Received 0 0 30, Received 0 1 40, Completed False 0 0]
     (demo_live Active (Counts 1 30) 0 (Counts 1 40) (Counts 2 70) (Counts 1 30))"
  "ledger_run (demo_ledger [] 0 0 0 0) [Opened 0, Received 0 0 30, Received 0 1 40, Completed False 0 0,
     Reported 0 (demo_totals 1 30), Completed False 0 1]
     (demo_live Active (Counts 2 70) (Counts 1 30) 0 (Counts 1 40) (Counts 1 40))"
  unfolding ledger_run_Cons using demo_open demo_receive demo_complete demo_report(1) run_nil by blast+

lemma demo_reachable:
  "reachable (demo_live Active (Counts 1 30) 0 (Counts 1 40) (Counts 2 70) (Counts 1 30))"
  "reachable (demo_live Active (Counts 2 70) (Counts 1 30) 0 (Counts 1 40) (Counts 1 40))"
  using demo_new demo_run unfolding reachable_def by blast+

lemma demo_draining_reachable:
  "reachable (demo_live Draining (Counts 2 70) (Counts 1 30) 0 (Counts 1 40) (Counts 1 40))"
  using demo_new run_snoc [OF demo_run(2) step_notice [OF demo_notice]] unfolding reachable_def by blast

theorem ledger_refines_peer_account_witness:
  "Counts 1 40 = (\<Sum>s<1. fst (account_of [Opened 0, Received 0 0 30, Received 0 1 40,
      Completed False 0 0, Reported 0 (demo_totals 1 30), Completed False 0 1] s) -
    snd (account_of [Opened 0, Received 0 0 30, Received 0 1 40,
      Completed False 0 0, Reported 0 (demo_totals 1 30), Completed False 0 1] s))"
  using ledger_refines_peer_account [OF demo_new demo_run(2)] by (simp add: demo_ledger_def)

theorem ledger_within_capacity_witness: "Counts 1 40 + Counts 1 30 \<le> Counts 2 70"
  using ledger_within_capacity [OF demo_reachable(1)] by (simp add: demo_ledger_def)

theorem receipts_complete_in_order_witness:
  "prefix (completions_of 0 [Opened 0, Received 0 0 30, Received 0 1 40, Completed False 0 0])
     (receipts_of 0 [Opened 0, Received 0 0 30, Received 0 1 40, Completed False 0 0])"
  using receipts_complete_in_order [OF demo_new demo_run(1)] .

theorem feedback_never_withheld_witness:
  "\<exists>l' t b. takeConsumed (demo_live Active (Counts 1 30) 0 (Counts 1 40) (Counts 2 70) (Counts 1 30)) =
      (l', Some t) \<and> encodeDeliveryConsumed t = Inr b"
  using feedback_never_withheld [OF demo_reachable(1)] by (auto simp add: feedbackReady_def demo_ledger_def)

theorem feedback_is_fair_witness:
  "\<exists>t. snd (takeConsumed (demo_live Active (Counts 1 30) 0 (Counts 1 40) (Counts 2 70) (Counts 1 30))) = Some t \<and>
    dt_relaySessionId t = demo_id \<and> totals_counts t = Counts 1 30"
  using feedback_is_fair [OF demo_reachable(1), of 0 "demo_flow Active (Counts 2 70) (Counts 1 30) 0"]
  by (simp add: demo_ledger_def demo_flow_def get_flow_def counts_eq_iff)

theorem reports_strictly_increase_witness:
  "dt_totalFrames (demo_totals 1 30) < dt_totalFrames (demo_totals 2 70)"
proof -
  have "ledger_run (demo_live Active (Counts 1 30) 0 (Counts 1 40) (Counts 2 70) (Counts 1 30))
     (Reported 0 (demo_totals 1 30) # [Completed False 0 1] @ [Reported 0 (demo_totals 2 70)])
     (demo_live Active (Counts 2 70) (Counts 2 70) 0 0 0)"
    unfolding ledger_run_Cons append.simps using demo_complete(2) demo_report run_nil by blast
  from reports_strictly_increase [OF demo_reachable(1) this] show ?thesis by blast
qed


theorem drained_session_released_witness:
  "\<exists>l' k l''. takeSettlement (demo_live Draining (Counts 2 70) (Counts 1 30) 0 (Counts 1 40) (Counts 1 40)) 0 =
      (l', Some k) \<and> ledger_forget l' 0 = Inr l''"
  using drained_session_released [OF demo_draining_reachable, of 0
      "demo_flow Draining (Counts 2 70) (Counts 2 70) (Counts 1 30)"]
  by (auto simp add: demo_ledger_def demo_flow_def get_flow_def)

end
