(* ===== verification/Geometry.thy ===== *)
theory Geometry
  imports Prelude
begin

text \<open>
  The byte and block geometry of one file, \<^verbatim>\<open>web/src/content/geometry.ts\<close>: half-open byte
  ranges, the canonical sparse sets of them (\<^verbatim>\<open>ByteRangeSet\<close>), the division of a file into
  blocks (\<^verbatim>\<open>FileGeometry\<close>) and the plan that cuts a requested range into block slices
  (\<^verbatim>\<open>FileRangePlan\<close>). A \<^verbatim>\<open>bigint\<close> is an \<open>int\<close>. Each \<^verbatim>\<open>ContentGeometryError\<close> is a constructor
  of \<open>geometry_error\<close>.
\<close>

section \<open>Ranges\<close>

datatype byte_range = Byte_range (br_start: int) (br_end: int)

datatype geometry_error =
  Range_order | Negative_file_size | Range_exceeds_file | Size_mismatch
| Negative_exact_size | Nonpositive_block_size | Request_exceeds_file | Block_index | Unsafe_number

definition byteRange :: "int \<Rightarrow> int \<Rightarrow> geometry_error + byte_range" where
  "byteRange start end' = (if start < 0 \<or> end' < start then Inl Range_order else Inr (Byte_range start end'))"

definition requireCanonicalRange :: "byte_range \<Rightarrow> geometry_error + unit" where
  "requireCanonicalRange r = (if br_start r < 0 \<or> br_end r < br_start r then Inl Range_order else Inr ())"

definition minBigInt :: "int \<Rightarrow> int \<Rightarrow> int" where "minBigInt l r = (if l < r then l else r)"
definition maxBigInt :: "int \<Rightarrow> int \<Rightarrow> int" where "maxBigInt l r = (if l > r then l else r)"

text \<open>Division of \<^verbatim>\<open>bigint\<close> rounds towards zero.\<close>

definition bigint_div :: "int \<Rightarrow> int \<Rightarrow> int" where
  "bigint_div a b = sgn a * sgn b * (\<bar>a\<bar> div \<bar>b\<bar>)"

definition bigintToSafeNumber :: "int \<Rightarrow> geometry_error + js_number" where
  "bigintToSafeNumber v = (if v < 0 \<or> v > max_safe_integer then Inl Unsafe_number else Inr (Integral v))"

definition compareByteRanges :: "byte_range \<Rightarrow> byte_range \<Rightarrow> int" where
  "compareByteRanges l r =
     (if br_start l \<noteq> br_start r then (if br_start l < br_start r then - 1 else 1)
      else if br_end l \<noteq> br_end r then (if br_end l < br_end r then - 1 else 1) else 0)"

text \<open>The order of the comparator; \<^verbatim>\<open>ranges.sort(compareByteRanges)\<close> is \<open>sort\<close> for it.\<close>

instantiation byte_range :: linorder
begin

definition less_eq_byte_range :: "byte_range \<Rightarrow> byte_range \<Rightarrow> bool" where
  "less_eq_byte_range l r \<longleftrightarrow> compareByteRanges l r \<le> 0"

definition less_byte_range :: "byte_range \<Rightarrow> byte_range \<Rightarrow> bool" where
  "less_byte_range l r \<longleftrightarrow> compareByteRanges l r < 0"

instance
  by standard (auto simp add: less_eq_byte_range_def less_byte_range_def compareByteRanges_def
      intro: byte_range.expand split: if_splits)

end

fun check_ranges :: "int \<Rightarrow> byte_range list \<Rightarrow> geometry_error + byte_range list" where
  "check_ranges fileSize [] = Inr []"
| "check_ranges fileSize (r # rs) =
     bindE (requireCanonicalRange r) (\<lambda>_.
     if br_end r > fileSize then Inl Range_exceeds_file
     else bindE (byteRange (br_start r) (br_end r)) (\<lambda>r'.
     bindE (check_ranges fileSize rs) (\<lambda>rs'. Inr (r' # rs'))))"

text \<open>One iteration of the merging loop, which extends the last range in place.\<close>

definition merge_range :: "byte_range list \<Rightarrow> byte_range \<Rightarrow> byte_range list" where
  "merge_range normalized r =
     (if normalized = [] \<or> br_start r > br_end (last normalized) then normalized @ [r]
      else if br_end r > br_end (last normalized)
      then butlast normalized @ [Byte_range (br_start (last normalized)) (br_end r)]
      else normalized)"

fun freeze_ranges :: "byte_range list \<Rightarrow> geometry_error + byte_range list" where
  "freeze_ranges [] = Inr []"
| "freeze_ranges (r # rs) =
     bindE (byteRange (br_start r) (br_end r)) (\<lambda>r'.
     bindE (freeze_ranges rs) (\<lambda>rs'. Inr (r' # rs')))"

definition normalizeRanges :: "int \<Rightarrow> byte_range list \<Rightarrow> geometry_error + byte_range list" where
  "normalizeRanges fileSize inputs =
     bindE (check_ranges fileSize inputs) (\<lambda>ranges.
     freeze_ranges (foldl merge_range [] (sort (filter (\<lambda>r. br_start r \<noteq> br_end r) ranges))))"

section \<open>\<open>ByteRangeSet\<close>\<close>

record byte_range_set =
  rs_fileSize :: int
  rs_ranges :: "byte_range list"

definition new_range_set :: "int \<Rightarrow> byte_range list \<Rightarrow> geometry_error + byte_range_set" where
  "new_range_set fileSize ranges =
     (if fileSize < 0 then Inl Negative_file_size
      else bindE (normalizeRanges fileSize ranges) (\<lambda>rs.
        Inr \<lparr>rs_fileSize = fileSize, rs_ranges = rs\<rparr>))"

definition rs_empty :: "byte_range_set \<Rightarrow> bool" where
  "rs_empty s = (length (rs_ranges s) = 0)"

text \<open>The binary search of \<^verbatim>\<open>#firstEndingAfter\<close>, and the indexed read of its result.\<close>

function first_search :: "byte_range list \<Rightarrow> int \<Rightarrow> nat \<Rightarrow> nat \<Rightarrow> nat" where
  "first_search ranges offset low high =
     (if low < high then
        let middle = low + (high - low) div 2 in
        if middle < length ranges \<and> br_end (ranges ! middle) \<le> offset
        then first_search ranges offset (middle + 1) high
        else first_search ranges offset low middle
      else low)"
  by pat_completeness auto
termination
  by (relation "measure (\<lambda>(ranges, offset, low, high). high - low)") auto

declare first_search.simps [simp del]

definition firstEndingAfter :: "byte_range_set \<Rightarrow> int \<Rightarrow> byte_range option" where
  "firstEndingAfter s offset =
     (let low = first_search (rs_ranges s) offset 0 (length (rs_ranges s)) in
      if low < length (rs_ranges s) then Some (rs_ranges s ! low) else None)"

definition requireWithinFile :: "byte_range_set \<Rightarrow> byte_range \<Rightarrow> geometry_error + unit" where
  "requireWithinFile s r =
     bindE (requireCanonicalRange r) (\<lambda>_.
     if br_end r > rs_fileSize s then Inl Range_exceeds_file else Inr ())"

definition rs_covers :: "byte_range_set \<Rightarrow> byte_range \<Rightarrow> geometry_error + bool" where
  "rs_covers s r =
     bindE (requireWithinFile s r) (\<lambda>_.
     if br_start r = br_end r then Inr True
     else Inr (case firstEndingAfter s (br_start r) of
         None \<Rightarrow> False
       | Some c \<Rightarrow> br_start c \<le> br_start r \<and> br_end c \<ge> br_end r))"

definition containsOffset :: "byte_range_set \<Rightarrow> int \<Rightarrow> bool" where
  "containsOffset s offset =
     (if offset < 0 \<or> offset \<ge> rs_fileSize s then False
      else case firstEndingAfter s offset of None \<Rightarrow> False | Some c \<Rightarrow> br_start c \<le> offset)"

text \<open>
  The scan of \<^verbatim>\<open>subtractAvailable\<close>, with the missing ranges it has pushed so far; it returns them
  with the cursor and the index where it stopped.
\<close>

function subtract_scan ::
  "byte_range \<Rightarrow> byte_range list \<Rightarrow> nat \<Rightarrow> int \<Rightarrow> byte_range list \<Rightarrow>
   geometry_error + (byte_range list \<times> int \<times> nat)" where
  "subtract_scan target available scan cursor missing =
     (if scan < length available then
        let r = available ! scan in
        if br_start r \<ge> br_end target then Inr (missing, cursor, scan)
        else bindE (if br_start r > cursor
                    then bindE (byteRange cursor (minBigInt (br_start r) (br_end target)))
                           (\<lambda>m. Inr (missing @ [m]))
                    else Inr missing) (\<lambda>missing'.
          let cursor' = maxBigInt cursor (br_end r) in
          if cursor' \<ge> br_end target then Inr (missing', cursor', scan)
          else subtract_scan target available (scan + 1) cursor' missing')
      else Inr (missing, cursor, scan))"
  by pat_completeness auto
termination
  by (relation "measure (\<lambda>(target, available, scan, cursor, missing). length available - scan)") auto

declare subtract_scan.simps [simp del]

definition subtractAvailable ::
  "byte_range \<Rightarrow> byte_range list \<Rightarrow> nat \<Rightarrow> geometry_error + (byte_range list \<times> nat)" where
  "subtractAvailable target available firstAvailable =
     bindE (subtract_scan target available firstAvailable (br_start target) [])
       (\<lambda>(missing, cursor, scan).
     if cursor < br_end target
     then bindE (byteRange cursor (br_end target)) (\<lambda>m. Inr (missing @ [m], scan))
     else Inr (missing, scan))"

text \<open>The skipping loop and the outer loop of \<^verbatim>\<open>missingFrom\<close>.\<close>

function skip_before :: "byte_range list \<Rightarrow> int \<Rightarrow> nat \<Rightarrow> nat" where
  "skip_before ranges start i =
     (if i < length ranges \<and> br_end (ranges ! i) \<le> start then skip_before ranges start (i + 1) else i)"
  by pat_completeness auto
termination
  by (relation "measure (\<lambda>(ranges, start, i). length ranges - i)") auto

declare skip_before.simps [simp del]

fun missing_loop ::
  "byte_range list \<Rightarrow> byte_range list \<Rightarrow> nat \<Rightarrow> byte_range list \<Rightarrow> geometry_error + byte_range list" where
  "missing_loop have [] i missing = Inr missing"
| "missing_loop have (target # rest) i missing =
     (let i' = skip_before have (br_start target) i in
      bindE (subtractAvailable target have i') (\<lambda>(found, nextAvailable).
      missing_loop have rest nextAvailable (missing @ found)))"

definition missingFrom :: "byte_range_set \<Rightarrow> byte_range_set \<Rightarrow> geometry_error + byte_range_set" where
  "missingFrom s wanted =
     (if rs_fileSize wanted \<noteq> rs_fileSize s then Inl Size_mismatch
      else bindE (missing_loop (rs_ranges s) (rs_ranges wanted) 0 [])
        (\<lambda>missing. new_range_set (rs_fileSize s) missing))"

definition rs_union :: "byte_range_set \<Rightarrow> byte_range_set \<Rightarrow> geometry_error + byte_range_set" where
  "rs_union s other =
     (if rs_fileSize other \<noteq> rs_fileSize s then Inl Size_mismatch
      else new_range_set (rs_fileSize s) (rs_ranges s @ rs_ranges other))"

section \<open>\<open>FileGeometry\<close> and \<open>FileRangePlan\<close>\<close>

record file_geometry =
  fg_exactSize :: int
  fg_blockSize :: int
  fg_blockCount :: int

record block_range =
  lb_first :: int
  lb_end :: int

record block_slice =
  sl_blockIndex :: int
  sl_blockPlaintext :: byte_range
  sl_requestedBytes :: byte_range
  sl_offsetWithinBlock :: int

record range_plan =
  pl_geometry :: file_geometry
  pl_requested :: byte_range
  pl_blocks :: block_range

definition new_geometry :: "int \<Rightarrow> int \<Rightarrow> geometry_error + file_geometry" where
  "new_geometry exactSize blockSize =
     (if exactSize < 0 then Inl Negative_exact_size
      else if blockSize \<le> 0 then Inl Nonpositive_block_size
      else Inr \<lparr>fg_exactSize = exactSize, fg_blockSize = blockSize,
        fg_blockCount = (if exactSize = 0 then 0 else 1 + bigint_div (exactSize - 1) blockSize)\<rparr>)"

definition wholeFile :: "file_geometry \<Rightarrow> geometry_error + byte_range" where
  "wholeFile g = byteRange 0 (fg_exactSize g)"

definition requireRange :: "file_geometry \<Rightarrow> byte_range \<Rightarrow> geometry_error + byte_range" where
  "requireRange g r =
     bindE (requireCanonicalRange r) (\<lambda>_.
     if br_end r > fg_exactSize g then Inl Request_exceeds_file
     else byteRange (br_start r) (br_end r))"

definition requireBlockIndex :: "file_geometry \<Rightarrow> int \<Rightarrow> geometry_error + unit" where
  "requireBlockIndex g index =
     (if index < 0 \<or> index \<ge> fg_blockCount g then Inl Block_index else Inr ())"

definition blockPlaintext :: "file_geometry \<Rightarrow> int \<Rightarrow> geometry_error + byte_range" where
  "blockPlaintext g index =
     bindE (requireBlockIndex g index) (\<lambda>_.
     let start = index * fg_blockSize g in
     byteRange start (minBigInt (start + fg_blockSize g) (fg_exactSize g)))"

definition blocksCovering :: "file_geometry \<Rightarrow> byte_range \<Rightarrow> geometry_error + block_range" where
  "blocksCovering g r =
     bindE (requireRange g r) (\<lambda>checked.
     if br_start checked = br_end checked then
       let boundary = (if br_start checked = fg_exactSize g then fg_blockCount g
                       else bigint_div (br_start checked) (fg_blockSize g)) in
       Inr \<lparr>lb_first = boundary, lb_end = boundary\<rparr>
     else Inr \<lparr>lb_first = bigint_div (br_start checked) (fg_blockSize g),
               lb_end = 1 + bigint_div (br_end checked - 1) (fg_blockSize g)\<rparr>)"

definition new_plan :: "file_geometry \<Rightarrow> byte_range \<Rightarrow> geometry_error + range_plan" where
  "new_plan g requested =
     bindE (blocksCovering g requested) (\<lambda>blocks.
     Inr \<lparr>pl_geometry = g, pl_requested = requested, pl_blocks = blocks\<rparr>)"

definition geometry_plan :: "file_geometry \<Rightarrow> byte_range \<Rightarrow> geometry_error + range_plan" where
  "geometry_plan g r = bindE (requireRange g r) (\<lambda>checked. new_plan g checked)"

definition sliceForBlock :: "range_plan \<Rightarrow> int \<Rightarrow> geometry_error + block_slice option" where
  "sliceForBlock p index =
     (if index < lb_first (pl_blocks p) \<or> index \<ge> lb_end (pl_blocks p) then Inr None
      else bindE (blockPlaintext (pl_geometry p) index) (\<lambda>plaintext.
        let start = maxBigInt (br_start plaintext) (br_start (pl_requested p));
            end' = minBigInt (br_end plaintext) (br_end (pl_requested p)) in
        bindE (byteRange start end') (\<lambda>requestedBytes.
        Inr (Some \<lparr>sl_blockIndex = index, sl_blockPlaintext = plaintext,
          sl_requestedBytes = requestedBytes, sl_offsetWithinBlock = start - br_start plaintext\<rparr>))))"


section \<open>Sets of bytes\<close>

definition range_bytes :: "byte_range \<Rightarrow> int set" where
  "range_bytes r = {br_start r ..< br_end r}"

definition bytes_of :: "byte_range list \<Rightarrow> int set" where
  "bytes_of rs = (\<Union>r \<in> set rs. range_bytes r)"

lemma bytes_of_simps [simp]:
  "bytes_of [] = {}" "bytes_of (r # rs) = range_bytes r \<union> bytes_of rs"
  "bytes_of (rs @ qs) = bytes_of rs \<union> bytes_of qs"
  by (simp_all add: bytes_of_def)

lemma range_bytes_simps [simp]:
  "x \<in> range_bytes r \<longleftrightarrow> br_start r \<le> x \<and> x < br_end r"
  "range_bytes (Byte_range a b) = {a ..< b}"
  by (simp_all add: range_bytes_def)

lemma bytes_of_sort [simp]: "bytes_of (sort rs) = bytes_of rs"
  by (simp add: bytes_of_def)

lemma bytes_of_nonempty: "bytes_of (filter (\<lambda>r. br_start r \<noteq> br_end r) rs) = bytes_of rs"
  by (fastforce simp add: bytes_of_def range_bytes_def)

definition range_in :: "int \<Rightarrow> byte_range \<Rightarrow> bool" where
  "range_in n r \<longleftrightarrow> 0 \<le> br_start r \<and> br_start r \<le> br_end r \<and> br_end r \<le> n"

text \<open>The canonical form: nonempty ranges in the file, in order, with a gap between any two.\<close>

definition canonical :: "int \<Rightarrow> byte_range list \<Rightarrow> bool" where
  "canonical n rs \<longleftrightarrow> sorted_wrt (\<lambda>a b. br_end a < br_start b) rs \<and>
     (\<forall>r \<in> set rs. range_in n r \<and> br_start r < br_end r)"

lemma canonical_simps [simp]:
  "canonical n []"
  "canonical n (r # rs) \<longleftrightarrow> range_in n r \<and> br_start r < br_end r \<and>
     (\<forall>q \<in> set rs. br_end r < br_start q) \<and> canonical n rs"
  "canonical n (rs @ [r]) \<longleftrightarrow> range_in n r \<and> br_start r < br_end r \<and>
     (\<forall>q \<in> set rs. br_end q < br_start r) \<and> canonical n rs"
  by (auto simp add: canonical_def sorted_wrt_append)

lemma byteRange_Inr [res_simps]:
  "byteRange a b = Inr r \<longleftrightarrow> 0 \<le> a \<and> a \<le> b \<and> r = Byte_range a b"
  by (auto simp add: byteRange_def)

lemma requireCanonicalRange_Inr [res_simps]:
  "requireCanonicalRange r = Inr u \<longleftrightarrow> 0 \<le> br_start r \<and> br_start r \<le> br_end r"
  by (auto simp add: requireCanonicalRange_def)

lemma check_ranges_Inr:
  "check_ranges n rs = Inr qs \<longleftrightarrow> qs = rs \<and> (\<forall>r \<in> set rs. range_in n r)"
  by (induction rs arbitrary: qs) (auto simp add: res_simps range_in_def)

lemma freeze_ranges_Inr:
  "freeze_ranges rs = Inr qs \<longleftrightarrow> qs = rs \<and> (\<forall>r \<in> set rs. 0 \<le> br_start r \<and> br_start r \<le> br_end r)"
  by (induction rs arbitrary: qs) (auto simp add: res_simps)

lemma merge_range_step:
  assumes acc: "canonical n acc" and r: "range_in n r" "br_start r < br_end r"
    and le: "acc \<noteq> [] \<Longrightarrow> br_start (last acc) \<le> br_start r"
  shows "canonical n (merge_range acc r) \<and> bytes_of (merge_range acc r) = bytes_of acc \<union> range_bytes r \<and>
    merge_range acc r \<noteq> [] \<and> br_start (last (merge_range acc r)) \<le> br_start r"
proof (cases acc rule: rev_cases)
  case Nil
  with r show ?thesis by (simp add: merge_range_def)
next
  case (snoc xs l)
  show ?thesis
  proof (cases "br_start r > br_end l")
    case True
    have "\<forall>q \<in> set acc. br_end q < br_start r"
      using snoc acc True by fastforce
    moreover have "merge_range acc r = acc @ [r]"
      using snoc True by (simp add: merge_range_def)
    ultimately show ?thesis
      using acc r by simp
  next
    case False
    with snoc acc r le show ?thesis
      by (auto simp add: merge_range_def range_in_def range_bytes_def)
  qed
qed

lemma merge_ranges:
  assumes "canonical n acc" "\<forall>r \<in> set rs. range_in n r \<and> br_start r < br_end r"
    "sorted (map br_start rs)" "acc \<noteq> [] \<Longrightarrow> \<forall>r \<in> set rs. br_start (last acc) \<le> br_start r"
  shows "canonical n (foldl merge_range acc rs) \<and>
    bytes_of (foldl merge_range acc rs) = bytes_of acc \<union> bytes_of rs"
  using assms
proof (induction rs arbitrary: acc)
  case (Cons r rs)
  have step: "canonical n (merge_range acc r) \<and> bytes_of (merge_range acc r) = bytes_of acc \<union> range_bytes r \<and>
    merge_range acc r \<noteq> [] \<and> br_start (last (merge_range acc r)) \<le> br_start r"
    using Cons.prems by (intro merge_range_step) auto
  then have "canonical n (foldl merge_range (merge_range acc r) rs) \<and>
    bytes_of (foldl merge_range (merge_range acc r) rs) = bytes_of (merge_range acc r) \<union> bytes_of rs"
    using Cons.prems by (intro Cons.IH) fastforce+
  with step show ?case by auto
qed simp

lemma sorted_starts: "sorted rs \<Longrightarrow> sorted (map br_start rs)" for rs :: "byte_range list"
  by (auto simp add: sorted_wrt_map less_eq_byte_range_def compareByteRanges_def
      elim!: sorted_wrt_mono_rel [rotated] split: if_splits)

lemma normalizeRanges_ok:
  assumes "\<forall>r \<in> set rs. range_in n r"
  obtains qs where "normalizeRanges n rs = Inr qs" "canonical n qs" "bytes_of qs = bytes_of rs"
proof -
  let ?rs = "sort (filter (\<lambda>r. br_start r \<noteq> br_end r) rs)"
  have m: "canonical n (foldl merge_range [] ?rs) \<and> bytes_of (foldl merge_range [] ?rs) = bytes_of [] \<union> bytes_of ?rs"
    using assms by (intro merge_ranges) (auto simp add: range_in_def intro: sorted_starts)
  moreover have "normalizeRanges n rs = Inr (foldl merge_range [] ?rs)"
  proof -
    have "check_ranges n rs = Inr rs"
      using assms by (simp add: check_ranges_Inr)
    moreover have "freeze_ranges (foldl merge_range [] ?rs) = Inr (foldl merge_range [] ?rs)"
      using m by (auto simp add: freeze_ranges_Inr canonical_def range_in_def)
    ultimately show ?thesis
      by (simp add: normalizeRanges_def)
  qed
  ultimately show ?thesis
    using that by (simp add: bytes_of_nonempty)
qed

lemma normalizeRanges_Inr: "normalizeRanges n rs = Inr qs \<Longrightarrow> \<forall>r \<in> set rs. range_in n r"
  by (auto simp add: normalizeRanges_def res_simps check_ranges_Inr)


lemma new_range_set_Inr:
  "new_range_set n rs = Inr s \<Longrightarrow>
   0 \<le> n \<and> rs_fileSize s = n \<and> canonical n (rs_ranges s) \<and> bytes_of (rs_ranges s) = bytes_of rs \<and>
   (\<forall>r \<in> set rs. range_in n r)"
proof -
  assume s: "new_range_set n rs = Inr s"
  then have "\<forall>r \<in> set rs. range_in n r"
    using normalizeRanges_Inr by (auto simp add: new_range_set_def res_simps)
  moreover from this obtain qs where "normalizeRanges n rs = Inr qs" "canonical n qs" "bytes_of qs = bytes_of rs"
    by (rule normalizeRanges_ok)
  ultimately show ?thesis
    using s by (auto simp add: new_range_set_def split: if_splits)
qed

lemma new_range_set_ok:
  "0 \<le> n \<Longrightarrow> \<forall>r \<in> set rs. range_in n r \<Longrightarrow> \<exists>s. new_range_set n rs = Inr s"
  by (rule normalizeRanges_ok [of rs n]) (auto simp add: new_range_set_def)

subsection \<open>The canonical form is unique\<close>

lemma bytes_bound:
  assumes "canonical n (r # rs)" "x \<in> bytes_of rs"
  shows "br_end r < x"
  using assms by (auto simp add: bytes_of_def)

lemma canonical_unique:
  assumes "canonical n rs" "canonical n qs" "bytes_of rs = bytes_of qs"
  shows "rs = qs"
  using assms
proof (induction rs arbitrary: qs)
  case Nil
  then show ?case
  proof (cases qs)
    case (Cons q qs')
    with Nil have "br_start q \<in> {}" by (simp add: set_eq_iff)
    then show ?thesis by simp
  qed simp
next
  case (Cons r rs)
  show ?case
  proof (cases qs)
    case Nil
    with Cons.prems have "br_start r \<in> {}" by (simp add: set_eq_iff)
    then show ?thesis by simp
  next
    case (Cons q qs')
    note can = Cons.prems(1) Cons.prems(2) [unfolded Cons]
    have ne: "br_start r < br_end r" "br_start q < br_end q"
      using can by simp_all
    have mem: "x \<in> range_bytes r \<or> x \<in> bytes_of rs \<longleftrightarrow> x \<in> range_bytes q \<or> x \<in> bytes_of qs'" for x
      using Cons.prems(3) by (simp add: Cons set_eq_iff)
    have "br_start q \<le> br_start r"
      using mem [of "br_start r"] bytes_bound [OF can(2), of "br_start r"] ne by auto
    moreover have "br_start r \<le> br_start q"
      using mem [of "br_start q"] bytes_bound [OF can(1), of "br_start q"] ne by auto
    ultimately have lo: "br_start r = br_start q" by simp
    have hi: "br_end r = br_end q"
    proof (rule ccontr)
      assume "br_end r \<noteq> br_end q"
      then consider "br_end r < br_end q" | "br_end q < br_end r" by linarith
      then show False
      proof cases
        case 1
        then have "br_end r \<in> bytes_of rs"
          using mem [of "br_end r"] lo ne by auto
        then show False using bytes_bound [OF can(1)] by blast
      next
        case 2
        then have "br_end q \<in> bytes_of qs'"
          using mem [of "br_end q"] lo ne by auto
        then show False using bytes_bound [OF can(2)] by blast
      qed
    qed
    have "bytes_of rs = bytes_of qs'"
    proof (rule set_eqI)
      fix x show "x \<in> bytes_of rs \<longleftrightarrow> x \<in> bytes_of qs'"
        using mem [of x] lo hi bytes_bound [OF can(1), of x] bytes_bound [OF can(2), of x] by auto
    qed
    then have "rs = qs'"
      using can Cons.IH [of qs'] by simp
    moreover have "r = q"
      using lo hi by (simp add: byte_range.expand)
    ultimately show ?thesis by (simp add: Cons)
  qed
qed

subsection \<open>Lookup\<close>

lemma canonical_nth:
  assumes "canonical n rs" "i < j" "j < length rs"
  shows "br_end (rs ! i) < br_start (rs ! j)"
  using assms by (simp add: canonical_def sorted_wrt_iff_nth_less)

lemma canonical_in: "canonical n rs \<Longrightarrow> i < length rs \<Longrightarrow>
   range_in n (rs ! i) \<and> br_start (rs ! i) < br_end (rs ! i)"
  by (simp add: canonical_def)

lemma bytes_of_nth: "x \<in> bytes_of rs \<longleftrightarrow> (\<exists>i < length rs. x \<in> range_bytes (rs ! i))"
  unfolding bytes_of_def UN_iff by (metis in_set_conv_nth)

lemma first_search_spec:
  assumes "canonical n rs" "low \<le> high" "high \<le> length rs"
    "\<And>i. i < low \<Longrightarrow> br_end (rs ! i) \<le> x"
    "\<And>i. high \<le> i \<Longrightarrow> i < length rs \<Longrightarrow> x < br_end (rs ! i)"
  shows "first_search rs x low high \<le> length rs \<and>
    (\<forall>i < first_search rs x low high. br_end (rs ! i) \<le> x) \<and>
    (\<forall>i. first_search rs x low high \<le> i \<longrightarrow> i < length rs \<longrightarrow> x < br_end (rs ! i))"
  using assms
proof (induction rs x low high rule: first_search.induct)
  case (1 ranges offset low high)
  let ?m = "low + (high - low) div 2"
  show ?case
  proof (cases "low < high")
    case False
    then have "first_search ranges offset low high = low"
      by (simp add: first_search.simps)
    with False 1(4-7) show ?thesis by auto
  next
    case low: True
    have m: "low \<le> ?m" "?m < high" "?m < length ranges"
      using low 1(4,5) by auto
    show ?thesis
    proof (cases "br_end (ranges ! ?m) \<le> offset")
      case True
      have "br_end (ranges ! i) \<le> offset" if "i < ?m + 1" for i
        using canonical_nth [OF 1(3), of i ?m] canonical_in [OF 1(3), of ?m] m True that
        by (cases "i = ?m") auto
      moreover have "first_search ranges offset low high = first_search ranges offset (?m + 1) high"
        using True low m by (subst first_search.simps) (simp add: Let_def)
      moreover have "?m < length ranges \<and> br_end (ranges ! ?m) \<le> offset" "?m + 1 \<le> high"
        using m True by auto
      ultimately show ?thesis
        using "1.IH"(1) [OF low refl _ 1(3)] 1(5,7) by presburger
    next
      case False
      have "offset < br_end (ranges ! i)" if "?m \<le> i" "i < length ranges" for i
        using canonical_nth [OF 1(3), of ?m i] canonical_in [OF 1(3), of i] m False that
        by (cases "i = ?m") auto
      moreover have "first_search ranges offset low high = first_search ranges offset low ?m"
        using False low m by (subst first_search.simps) (simp add: Let_def)
      moreover have "\<not> (?m < length ranges \<and> br_end (ranges ! ?m) \<le> offset)" "?m \<le> length ranges"
        using m False by auto
      ultimately show ?thesis
        using "1.IH"(2) [OF low refl _ 1(3) m(1)] 1(6) by presburger
    qed
  qed
qed


lemma firstEndingAfter_spec:
  assumes can: "canonical n (rs_ranges s)"
  shows "firstEndingAfter s x = None \<Longrightarrow> q \<in> set (rs_ranges s) \<Longrightarrow> br_end q \<le> x"
    "firstEndingAfter s x = Some c \<Longrightarrow> c \<in> set (rs_ranges s) \<and> x < br_end c"
    "firstEndingAfter s x = Some c \<Longrightarrow> q \<in> set (rs_ranges s) \<Longrightarrow> x < br_end q \<Longrightarrow>
       q = c \<or> br_end c < br_start q"
proof -
  let ?rs = "rs_ranges s" and ?i = "first_search (rs_ranges s) x 0 (length (rs_ranges s))"
  have i: "?i \<le> length ?rs" "\<And>j. j < ?i \<Longrightarrow> br_end (?rs ! j) \<le> x"
    "\<And>j. ?i \<le> j \<Longrightarrow> j < length ?rs \<Longrightarrow> x < br_end (?rs ! j)"
    using first_search_spec [OF can, of 0 "length ?rs" x] by auto
  show "br_end q \<le> x" if "firstEndingAfter s x = None" "q \<in> set ?rs"
    using that i by (auto simp add: firstEndingAfter_def Let_def in_set_conv_nth split: if_splits)
  show "c \<in> set ?rs \<and> x < br_end c" if "firstEndingAfter s x = Some c"
    using that i by (auto simp add: firstEndingAfter_def Let_def split: if_splits)
  assume c: "firstEndingAfter s x = Some c" and q: "q \<in> set ?rs" "x < br_end q"
  then have lt: "?i < length ?rs" "c = ?rs ! ?i"
    by (auto simp add: firstEndingAfter_def Let_def split: if_splits)
  obtain j where j: "j < length ?rs" "q = ?rs ! j"
    using q by (auto simp add: in_set_conv_nth)
  then have "?i \<le> j"
    using i(2) [of j] q(2) by (meson leD linorder_not_less)
  then show "q = c \<or> br_end c < br_start q"
    using canonical_nth [OF can, of ?i j] lt j by (cases "?i = j") auto
qed

text \<open>The byte after a canonical range is never covered.\<close>

lemma canonical_gap:
  assumes "canonical n rs" "c \<in> set rs"
  shows "br_end c \<notin> bytes_of rs"
proof
  assume "br_end c \<in> bytes_of rs"
  then obtain i j where i: "i < length rs" "br_start (rs ! i) \<le> br_end c" "br_end c < br_end (rs ! i)"
    and j: "j < length rs" "c = rs ! j"
    using assms(2) by (auto simp add: bytes_of_nth in_set_conv_nth)
  then show False
    using canonical_nth [OF assms(1), of i j] canonical_nth [OF assms(1), of j i] canonical_in [OF assms(1), of j]
    by (cases i j rule: linorder_cases) auto
qed

lemma containsOffset_iff:
  assumes can: "canonical (rs_fileSize s) (rs_ranges s)"
  shows "containsOffset s x \<longleftrightarrow> x \<in> bytes_of (rs_ranges s)"
proof -
  have inside: "0 \<le> x \<and> x < rs_fileSize s" if "x \<in> bytes_of (rs_ranges s)"
    using that can by (fastforce simp add: bytes_of_def canonical_def range_in_def)
  show ?thesis
  proof (cases "firstEndingAfter s x")
    case None
    have "x \<notin> bytes_of (rs_ranges s)"
      using firstEndingAfter_spec(1) [OF can None] by (fastforce simp add: bytes_of_def)
    with None show ?thesis by (simp add: containsOffset_def)
  next
    case (Some c)
    note c = firstEndingAfter_spec(2,3) [OF can Some]
    have "x \<in> bytes_of (rs_ranges s) \<longleftrightarrow> br_start c \<le> x"
      using c by (fastforce simp add: bytes_of_def)
    with Some inside show ?thesis by (auto simp add: containsOffset_def)
  qed
qed

lemma rs_covers_iff:
  assumes can: "canonical (rs_fileSize s) (rs_ranges s)" and r: "range_in (rs_fileSize s) r"
  shows "rs_covers s r = Inr (range_bytes r \<subseteq> bytes_of (rs_ranges s))"
proof (cases "br_start r = br_end r")
  case True
  with r show ?thesis
    by (auto simp add: rs_covers_def requireWithinFile_def requireCanonicalRange_def range_in_def range_bytes_def)
next
  case False
  then have lt: "br_start r < br_end r"
    using r by (simp add: range_in_def)
  have covers: "rs_covers s r = Inr (case firstEndingAfter s (br_start r) of None \<Rightarrow> False
       | Some c \<Rightarrow> br_start c \<le> br_start r \<and> br_end c \<ge> br_end r)"
    using r False by (auto simp add: rs_covers_def requireWithinFile_def requireCanonicalRange_def range_in_def)
  show ?thesis
  proof (cases "firstEndingAfter s (br_start r)")
    case None
    have "br_start r \<notin> bytes_of (rs_ranges s)"
      using firstEndingAfter_spec(1) [OF can None] by (fastforce simp add: bytes_of_def)
    then have "\<not> range_bytes r \<subseteq> bytes_of (rs_ranges s)"
      using lt by auto
    with None covers show ?thesis by simp
  next
    case (Some c)
    note c = firstEndingAfter_spec(2,3) [OF can Some]
    have "range_bytes r \<subseteq> bytes_of (rs_ranges s)" if "br_start c \<le> br_start r" "br_end r \<le> br_end c"
      unfolding bytes_of_def using c(1) that by (intro subsetI UN_I [of c]) auto
    moreover have "br_start c \<le> br_start r \<and> br_end r \<le> br_end c" if sub: "range_bytes r \<subseteq> bytes_of (rs_ranges s)"
    proof -
      have "br_start r \<in> bytes_of (rs_ranges s)"
        using sub lt by auto
      then have "br_start c \<le> br_start r"
        using c by (fastforce simp add: bytes_of_def)
      moreover have "br_end c \<notin> range_bytes r"
        using sub canonical_gap [OF can] c(1) by blast
      ultimately show ?thesis
        using c(1) by auto
    qed
    ultimately show ?thesis
      using Some covers by auto
  qed
qed


subsection \<open>Difference\<close>

lemma bytes_from:
  assumes "\<And>j. j < i \<Longrightarrow> j < length rs \<Longrightarrow> br_end (rs ! j) \<le> x"
  shows "x \<in> bytes_of rs \<longleftrightarrow> x \<in> bytes_of (drop i rs)"
proof -
  have "x \<in> bytes_of rs \<longleftrightarrow> x \<in> bytes_of (take i rs) \<or> x \<in> bytes_of (drop i rs)"
    by (metis UnE UnI1 UnI2 append_take_drop_id bytes_of_simps(3))
  moreover have "x \<notin> bytes_of (take i rs)"
    using assms by (fastforce simp add: bytes_of_nth)
  ultimately show ?thesis by blast
qed

lemma canonical_drop: "canonical n rs \<Longrightarrow> canonical n (drop i rs)"
  by (auto simp add: canonical_def sorted_wrt_drop dest: in_set_dropD)

lemma bytes_drop_above:
  assumes "canonical n rs" "i < length rs" "x < br_start (rs ! i)"
  shows "x \<notin> bytes_of (drop i rs)"
proof -
  have "canonical n (rs ! i # drop (Suc i) rs)"
    using canonical_drop [OF assms(1), of i] assms(2) by (simp add: Cons_nth_drop_Suc)
  from bytes_bound [OF this, of x] this assms(3) have "x \<notin> bytes_of (rs ! i # drop (Suc i) rs)"
    by auto
  then show ?thesis
    using assms(2) by (simp add: Cons_nth_drop_Suc)
qed

text \<open>
  The scan finds exactly the bytes of the target that are not available: those in the ranges it
  pushed and those from the cursor where it stops. Every range it passed ends inside the target.
\<close>

lemma subtract_scan_spec:
  assumes "canonical n available" "0 \<le> cursor" "cursor < br_end target"
    "\<And>j. j < scan \<Longrightarrow> j < length available \<Longrightarrow> br_end (available ! j) \<le> cursor"
  shows "\<exists>found cursor' scan'.
    subtract_scan target available scan cursor missing = Inr (missing @ found, cursor', scan') \<and>
    0 \<le> cursor' \<and> (\<forall>r \<in> set found. range_in (br_end target) r) \<and>
    (\<forall>j < scan'. j < length available \<longrightarrow> br_end (available ! j) \<le> br_end target) \<and>
    bytes_of found \<union> {cursor' ..< br_end target} = {cursor ..< br_end target} - bytes_of available"
  using assms
proof (induction target available scan cursor missing rule: subtract_scan.induct)
  case (1 target available scan cursor missing)
  note can = 1(2) and cur = 1(3,4) and before = 1(5)
  have from_scan: "x \<in> bytes_of available \<longleftrightarrow> x \<in> bytes_of (drop scan available)" if "cursor \<le> x" for x
    using before that by (intro bytes_from) force
  consider (out) "\<not> scan < length available"
    | (above) "scan < length available" "br_start (available ! scan) \<ge> br_end target"
    | (hit) "scan < length available" "br_start (available ! scan) < br_end target"
    by linarith
  then show ?case
  proof cases
    case out
    have "bytes_of [] \<union> {cursor ..< br_end target} = {cursor ..< br_end target} - bytes_of available"
      using out from_scan by auto
    with out cur before show ?thesis
      by (intro exI [of _ "[]"] exI [of _ cursor] exI [of _ scan]) (fastforce simp add: subtract_scan.simps)
  next
    case above
    have "bytes_of [] \<union> {cursor ..< br_end target} = {cursor ..< br_end target} - bytes_of available"
      using above from_scan bytes_drop_above [OF can above(1)] by fastforce
    with above cur before show ?thesis
      by (intro exI [of _ "[]"] exI [of _ cursor] exI [of _ scan]) (fastforce simp add: subtract_scan.simps)
  next
    case hit
    let ?r = "available ! scan" and ?e = "br_end target"
    let ?gap = "if br_start ?r > cursor then [Byte_range cursor (br_start ?r)] else []"
    let ?c = "maxBigInt cursor (br_end ?r)"
    have r: "0 \<le> br_start ?r" "br_start ?r < br_end ?r"
      using canonical_in [OF can hit(1)] by (auto simp add: range_in_def)
    have split: "{cursor ..< ?e} - bytes_of available = bytes_of ?gap \<union> ({?c ..< ?e} - bytes_of available)"
    proof (rule set_eqI)
      fix x
      have "x < br_start ?r \<Longrightarrow> cursor \<le> x \<Longrightarrow> x \<notin> bytes_of available"
        using from_scan bytes_drop_above [OF can hit(1)] by blast
      moreover have "br_start ?r \<le> x \<Longrightarrow> x < br_end ?r \<Longrightarrow> x \<in> bytes_of available"
        using hit(1) by (auto simp add: bytes_of_nth)
      ultimately show "x \<in> {cursor ..< ?e} - bytes_of available \<longleftrightarrow>
          x \<in> bytes_of ?gap \<union> ({?c ..< ?e} - bytes_of available)"
        using r hit(2) by (cases "x < br_start ?r"; cases "x < br_end ?r") (auto simp add: maxBigInt_def)
    qed
    have gap_ok: "\<forall>q \<in> set ?gap. range_in ?e q"
      using cur hit(2) by (auto simp add: range_in_def)
    have before': "br_end (available ! j) \<le> ?c" if "j < scan + 1" "j < length available" for j
      using before [of j] that by (cases "j = scan") (auto simp add: maxBigInt_def)
    have gap_eq: "(if br_start ?r > cursor
        then bindE (byteRange cursor (minBigInt (br_start ?r) ?e)) (\<lambda>m. Inr (missing @ [m]))
        else Inr missing) = Inr (missing @ ?gap)"
      using cur hit(2) by (simp add: byteRange_def minBigInt_def)
    have unfold: "subtract_scan target available scan cursor missing =
        (if ?c \<ge> ?e then Inr (missing @ ?gap, ?c, scan)
         else subtract_scan target available (scan + 1) ?c (missing @ ?gap))"
    proof -
      have "\<not> br_start ?r \<ge> ?e"
        using hit(2) by simp
      then show ?thesis
        by (subst subtract_scan.simps) (simp only: hit(1) if_True if_False Let_def gap_eq bindE_Inr)
    qed
    show ?thesis
    proof (cases "?c \<ge> ?e")
      case True
      have "bytes_of ?gap \<union> {?c ..< ?e} = {cursor ..< ?e} - bytes_of available"
        unfolding split using True by simp
      moreover have "\<forall>j < scan. j < length available \<longrightarrow> br_end (available ! j) \<le> ?e"
        using before cur by force
      moreover have "0 \<le> ?c"
        using cur by (simp add: maxBigInt_def)
      ultimately show ?thesis
        using True gap_ok unfold by (intro exI [of _ ?gap] exI [of _ ?c] exI [of _ scan]) simp
    next
      case False
      then have c: "0 \<le> ?c" "?c < ?e"
        using cur by (auto simp add: maxBigInt_def)
      obtain found cursor' scan' where IH:
        "subtract_scan target available (scan + 1) ?c (missing @ ?gap) = Inr ((missing @ ?gap) @ found, cursor', scan')"
        "0 \<le> cursor'" "\<forall>r \<in> set found. range_in ?e r"
        "\<forall>j < scan'. j < length available \<longrightarrow> br_end (available ! j) \<le> ?e"
        "bytes_of found \<union> {cursor' ..< ?e} = {?c ..< ?e} - bytes_of available"
        using "1.IH" [OF hit(1) refl _ refl False can c before', of "missing @ ?gap"] hit(2) by (auto simp add: not_le)
      have "bytes_of (?gap @ found) \<union> {cursor' ..< ?e} = {cursor ..< ?e} - bytes_of available"
        unfolding split using IH(5) by auto
      then show ?thesis
        using IH gap_ok unfold False
        by (intro exI [of _ "?gap @ found"] exI [of _ cursor'] exI [of _ scan']) auto
    qed
  qed
qed


lemma subtractAvailable_spec:
  assumes "canonical n available" "0 \<le> br_start target" "br_start target < br_end target"
    "\<And>j. j < i \<Longrightarrow> j < length available \<Longrightarrow> br_end (available ! j) \<le> br_start target"
  shows "\<exists>found i'. subtractAvailable target available i = Inr (found, i') \<and>
    (\<forall>r \<in> set found. range_in (br_end target) r) \<and>
    (\<forall>j < i'. j < length available \<longrightarrow> br_end (available ! j) \<le> br_end target) \<and>
    bytes_of found = range_bytes target - bytes_of available"
proof -
  obtain found cursor i' where scan:
    "subtract_scan target available i (br_start target) [] = Inr ([] @ found, cursor, i')"
    "0 \<le> cursor" "\<forall>r \<in> set found. range_in (br_end target) r"
    "\<forall>j < i'. j < length available \<longrightarrow> br_end (available ! j) \<le> br_end target"
    "bytes_of found \<union> {cursor ..< br_end target} = {br_start target ..< br_end target} - bytes_of available"
    using subtract_scan_spec [OF assms(1,2,3), of i "[]"] assms(4) by blast
  show ?thesis
  proof (cases "cursor < br_end target")
    case True
    with scan(1,2) have "subtractAvailable target available i = Inr (found @ [Byte_range cursor (br_end target)], i')"
      by (simp add: subtractAvailable_def byteRange_def)
    moreover have "bytes_of (found @ [Byte_range cursor (br_end target)]) = range_bytes target - bytes_of available"
      using scan(5) by (simp add: range_bytes_def)
    moreover have "\<forall>r \<in> set (found @ [Byte_range cursor (br_end target)]). range_in (br_end target) r"
      using scan(2,3) True by (auto simp add: range_in_def)
    ultimately show ?thesis
      using scan(4) by blast
  next
    case False
    with scan(1) have "subtractAvailable target available i = Inr (found, i')"
      by (simp add: subtractAvailable_def)
    moreover have "bytes_of found = range_bytes target - bytes_of available"
      using scan(5) False by (simp add: range_bytes_def)
    ultimately show ?thesis
      using scan(3,4) by blast
  qed
qed

lemma skip_before_spec:
  assumes "\<And>j. j < i \<Longrightarrow> j < length rs \<Longrightarrow> br_end (rs ! j) \<le> x"
  shows "\<forall>j < skip_before rs x i. j < length rs \<longrightarrow> br_end (rs ! j) \<le> x"
  using assms
proof (induction rs x i rule: skip_before.induct)
  case (1 rs x i)
  show ?case
  proof (cases "i < length rs \<and> br_end (rs ! i) \<le> x")
    case True
    then have "br_end (rs ! j) \<le> x" if "j < i + 1" "j < length rs" for j
      using 1(2) [of j] that by (cases "j = i") auto
    with "1.IH" [OF True] True show ?thesis
      by (subst skip_before.simps) simp
  next
    case False
    with 1(2) show ?thesis
      by (subst skip_before.simps) auto
  qed
qed

lemma missing_loop_spec:
  assumes "canonical n available" "canonical n wanted"
    "\<And>j q. j < i \<Longrightarrow> j < length available \<Longrightarrow> q \<in> set wanted \<Longrightarrow> br_end (available ! j) \<le> br_start q"
  shows "\<exists>found. missing_loop available wanted i missing = Inr (missing @ found) \<and>
    (\<forall>r \<in> set found. range_in n r) \<and> bytes_of found = bytes_of wanted - bytes_of available"
  using assms
proof (induction wanted arbitrary: i missing)
  case (Cons target rest)
  let ?i = "skip_before available (br_start target) i"
  have t: "0 \<le> br_start target" "br_start target < br_end target" "br_end target \<le> n"
    using Cons.prems(2) by (auto simp add: range_in_def)
  have "\<And>j. j < i \<Longrightarrow> j < length available \<Longrightarrow> br_end (available ! j) \<le> br_start target"
    using Cons.prems(3) by simp
  from skip_before_spec [OF this] obtain found i' where sub:
    "subtractAvailable target available ?i = Inr (found, i')"
    "\<forall>r \<in> set found. range_in (br_end target) r"
    "\<forall>j < i'. j < length available \<longrightarrow> br_end (available ! j) \<le> br_end target"
    "bytes_of found = range_bytes target - bytes_of available"
    using subtractAvailable_spec [OF Cons.prems(1) t(1,2), of ?i] by blast
  have after: "br_end (available ! j) \<le> br_start q" if "j < i'" "j < length available" "q \<in> set rest" for j q
    using sub(3) Cons.prems(2) that by fastforce
  obtain more where more: "missing_loop available rest i' (missing @ found) = Inr ((missing @ found) @ more)"
    "\<forall>r \<in> set more. range_in n r" "bytes_of more = bytes_of rest - bytes_of available"
    using Cons.IH [OF Cons.prems(1), of i' "missing @ found"] Cons.prems(2) after by auto
  have "\<forall>r \<in> set (found @ more). range_in n r"
    using sub(2) more(2) t(3) by (fastforce simp add: range_in_def)
  with sub more show ?case
    by (intro exI [of _ "found @ more"]) auto
qed simp


section \<open>Blocks\<close>

lemma bigint_div_nonneg [simp]: "0 \<le> a \<Longrightarrow> 0 < b \<Longrightarrow> bigint_div a b = a div b"
  by (cases "a = 0") (auto simp add: bigint_div_def)

lemma div_below:
  fixes x b :: int
  assumes "0 < b"
  shows "x div b * b \<le> x" "x < (x div b + 1) * b"
proof -
  note facts = pos_mod_bound [OF assms, of x] pos_mod_sign [OF assms, of x] div_mult_mod_eq [of x b]
  show "x div b * b \<le> x"
    using facts by linarith
  show "x < (x div b + 1) * b"
    unfolding distrib_right using facts by linarith
qed

lemma le_div_block:
  fixes x b i :: int
  assumes "0 < b"
  shows "i \<le> x div b \<longleftrightarrow> i * b \<le> x"
proof
  assume "i \<le> x div b"
  then have "i * b \<le> x div b * b"
    using assms by (simp add: mult_right_mono)
  then show "i * b \<le> x"
    using div_below(1) [OF assms, of x] by linarith
next
  assume "i * b \<le> x"
  then have "i * b < (x div b + 1) * b"
    using div_below(2) [OF assms, of x] by linarith
  then show "i \<le> x div b"
    using assms by (simp add: mult_less_cancel_right)
qed

lemma div_less_block: "0 < b \<Longrightarrow> x div b < i \<longleftrightarrow> x < i * b" for x b i :: int
  using le_div_block [of b i x] by linarith

lemma new_geometry_Inr:
  "new_geometry sz bs = Inr g \<longleftrightarrow> 0 \<le> sz \<and> 0 < bs \<and>
     g = \<lparr>fg_exactSize = sz, fg_blockSize = bs, fg_blockCount = (if sz = 0 then 0 else 1 + (sz - 1) div bs)\<rparr>"
  by (auto simp add: new_geometry_def)

lemma block_count:
  assumes "new_geometry sz bs = Inr g"
  shows "i < fg_blockCount g \<longleftrightarrow> i * bs < sz \<and> 0 < sz \<or> i < 0"
proof -
  have bs: "0 < bs" and sz: "0 \<le> sz"
    and g: "fg_blockCount g = (if sz = 0 then 0 else 1 + (sz - 1) div bs)"
    using assms by (auto simp add: new_geometry_Inr)
  have "i \<le> (sz - 1) div bs \<longleftrightarrow> i * bs < sz"
    using le_div_block [OF bs, of i "sz - 1"] by linarith
  moreover have "i * bs < 0" if "i < 0"
    using that bs by (simp add: mult_less_0_iff)
  ultimately show ?thesis
    using sz by (auto simp add: g)
qed

lemma blockPlaintext_ok:
  assumes g: "new_geometry sz bs = Inr g" and i: "0 \<le> i" "i < fg_blockCount g"
  shows "blockPlaintext g i = Inr (Byte_range (i * bs) (min ((i + 1) * bs) sz)) \<and> i * bs < min ((i + 1) * bs) sz"
proof -
  have bs: "0 < bs" "fg_blockSize g = bs" "fg_exactSize g = sz"
    using g by (auto simp add: new_geometry_Inr)
  have "i * bs < sz"
    using block_count [OF g, of i] i by auto
  moreover have "\<not> i * bs < 0"
    using i bs by (simp add: mult_less_0_iff)
  ultimately show ?thesis
    using i bs by (auto simp add: blockPlaintext_def requireBlockIndex_def byteRange_def minBigInt_def
        Let_def algebra_simps)
qed

lemma geometry_plan_Inr:
  assumes g: "new_geometry sz bs = Inr g" and p: "geometry_plan g r = Inr p"
  shows "0 \<le> br_start r" "br_start r \<le> br_end r" "br_end r \<le> sz" "pl_geometry p = g" "pl_requested p = r"
    "br_start r < br_end r \<Longrightarrow> lb_first (pl_blocks p) = br_start r div bs \<and>
       lb_end (pl_blocks p) = 1 + (br_end r - 1) div bs"
    "br_start r = br_end r \<Longrightarrow> lb_first (pl_blocks p) = lb_end (pl_blocks p)"
  using assms
  by (auto simp add: geometry_plan_def new_plan_def blocksCovering_def requireRange_def res_simps
      new_geometry_Inr Let_def split: if_splits)


lemma slice_ok:
  assumes g: "new_geometry sz bs = Inr g" and p: "geometry_plan g r = Inr p"
    and i: "lb_first (pl_blocks p) \<le> i" "i < lb_end (pl_blocks p)"
  shows "\<exists>plain sl. blockPlaintext g i = Inr plain \<and> sliceForBlock p i = Inr (Some sl) \<and>
    sl_blockIndex sl = i \<and> sl_blockPlaintext sl = plain \<and>
    sl_requestedBytes sl = Byte_range (max (i * bs) (br_start r)) (min ((i + 1) * bs) (br_end r)) \<and>
    max (i * bs) (br_start r) < min ((i + 1) * bs) (br_end r) \<and>
    plain = Byte_range (i * bs) (min ((i + 1) * bs) sz) \<and>
    sl_offsetWithinBlock sl = max (i * bs) (br_start r) - i * bs"
proof -
  note r = geometry_plan_Inr [OF g p]
  have bs: "0 < bs" using g by (simp add: new_geometry_Inr)
  have lt: "br_start r < br_end r"
    using r(2,7) i by (cases "br_start r = br_end r") auto
  have lo: "br_start r < (i + 1) * bs"
    using r(6) [OF lt] i(1) div_less_block [OF bs, of "br_start r" "i + 1"] by simp
  have hi: "i * bs < br_end r"
    using r(6) [OF lt] i(2) le_div_block [OF bs, of i "br_end r - 1"] by simp
  have "0 \<le> br_start r div bs"
    using r(1) bs by (simp add: pos_imp_zdiv_nonneg_iff)
  then have "0 \<le> i" using r(6) [OF lt] i(1) by simp
  moreover have "i < fg_blockCount g"
    using block_count [OF g, of i] hi r(1,3) lt by auto
  ultimately have plain: "blockPlaintext g i = Inr (Byte_range (i * bs) (min ((i + 1) * bs) sz)) \<and>
      i * bs < min ((i + 1) * bs) sz"
    using blockPlaintext_ok [OF g] by blast
  have mx: "maxBigInt (i * bs) (br_start r) = max (i * bs) (br_start r)"
    by (simp add: maxBigInt_def)
  have mn: "minBigInt (min ((i + 1) * bs) sz) (br_end r) = min ((i + 1) * bs) (br_end r)"
    using r(3) by (auto simp add: minBigInt_def)
  have ok: "byteRange (max (i * bs) (br_start r)) (min ((i + 1) * bs) (br_end r)) =
      Inr (Byte_range (max (i * bs) (br_start r)) (min ((i + 1) * bs) (br_end r)))"
    and lt': "max (i * bs) (br_start r) < min ((i + 1) * bs) (br_end r)"
    using r(1) lo hi lt bs by (auto simp add: byteRange_def distrib_right)
  then show ?thesis
    using plain i by (auto simp add: sliceForBlock_def r(4,5) Let_def mx mn)
qed

section \<open>Properties\<close>

text \<open>
  C21. Normalisation succeeds exactly on ranges that lie in the file, and yields the one canonical
  list (in order, with a gap between neighbours, none empty) with the same bytes: two inputs that
  denote the same bytes give the same range set.
\<close>

theorem range_set_normal_form:
  "(is_ok (new_range_set n rs) \<longleftrightarrow> 0 \<le> n \<and> (\<forall>r \<in> set rs. range_in n r)) \<and>
   (new_range_set n rs = Inr s \<longrightarrow> canonical n (rs_ranges s) \<and> bytes_of (rs_ranges s) = bytes_of rs) \<and>
   (new_range_set n rs = Inr s \<and> new_range_set n qs = Inr t \<and> bytes_of rs = bytes_of qs \<longrightarrow> s = t)"
proof (intro conjI impI)
  show "is_ok (new_range_set n rs) \<longleftrightarrow> 0 \<le> n \<and> (\<forall>r \<in> set rs. range_in n r)"
    using new_range_set_Inr new_range_set_ok unfolding is_ok_iff by blast
next
  assume "new_range_set n rs = Inr s"
  from new_range_set_Inr [OF this] show "canonical n (rs_ranges s)" "bytes_of (rs_ranges s) = bytes_of rs"
    by auto
next
  assume st: "new_range_set n rs = Inr s \<and> new_range_set n qs = Inr t \<and> bytes_of rs = bytes_of qs"
  have "rs_ranges s = rs_ranges t"
    using st new_range_set_Inr [of n rs s] new_range_set_Inr [of n qs t] by (intro canonical_unique [of n]) auto
  then show "s = t"
    using st new_range_set_Inr [of n rs s] new_range_set_Inr [of n qs t] by (cases s; cases t) auto
qed

theorem range_set_normal_form_witness:
  "new_range_set 10 [Byte_range 4 6, Byte_range 0 3, Byte_range 3 4, Byte_range 9 9] =
     Inr \<lparr>rs_fileSize = 10, rs_ranges = [Byte_range 0 6]\<rparr> \<and>
   canonical 10 (rs_ranges \<lparr>rs_fileSize = 10, rs_ranges = [Byte_range 0 6]\<rparr>)"
proof -
  have "new_range_set 10 [Byte_range 4 6, Byte_range 0 3, Byte_range 3 4, Byte_range 9 9] =
     Inr \<lparr>rs_fileSize = 10, rs_ranges = [Byte_range 0 6]\<rparr>"
    by code_simp
  with range_set_normal_form [of 10 "[Byte_range 4 6, Byte_range 0 3, Byte_range 3 4, Byte_range 9 9]"
      "\<lparr>rs_fileSize = 10, rs_ranges = [Byte_range 0 6]\<rparr>" "[]"]
  show ?thesis by blast
qed

text \<open>
  C22. The binary-search lookups answer the set questions: \<^verbatim>\<open>containsOffset\<close> is membership and
  \<^verbatim>\<open>covers\<close>, on a range of the file, is inclusion in the bytes of the given ranges.
\<close>

theorem range_set_lookup:
  assumes "new_range_set n rs = Inr s" "range_in n r"
  shows "(containsOffset s x \<longleftrightarrow> x \<in> bytes_of rs) \<and> rs_covers s r = Inr (range_bytes r \<subseteq> bytes_of rs)"
  using new_range_set_Inr [OF assms(1)] containsOffset_iff [of s x] rs_covers_iff [of s r] assms(2) by auto

theorem range_set_lookup_witness:
  "containsOffset \<lparr>rs_fileSize = 10, rs_ranges = [Byte_range 0 6]\<rparr> 5 \<longleftrightarrow> 5 \<in> bytes_of [Byte_range 4 6, Byte_range 0 4]"
proof -
  have "new_range_set 10 [Byte_range 4 6, Byte_range 0 4] = Inr \<lparr>rs_fileSize = 10, rs_ranges = [Byte_range 0 6]\<rparr>"
    by code_simp
  from range_set_lookup [OF this, of "Byte_range 1 2" 5] show ?thesis
    by (simp add: range_in_def)
qed

lemma missingFrom_ok:
  assumes s: "new_range_set n rs = Inr s" and t: "new_range_set n qs = Inr t"
  obtains d where "missingFrom s t = Inr d" "bytes_of (rs_ranges d) = bytes_of qs - bytes_of rs"
    "canonical n (rs_ranges d)" "rs_fileSize d = n"
proof -
  note s' = new_range_set_Inr [OF s] and t' = new_range_set_Inr [OF t]
  obtain found where f: "missing_loop (rs_ranges s) (rs_ranges t) 0 [] = Inr ([] @ found)"
    "\<forall>r \<in> set found. range_in n r" "bytes_of found = bytes_of (rs_ranges t) - bytes_of (rs_ranges s)"
    using missing_loop_spec [of n "rs_ranges s" "rs_ranges t" 0 "[]"] s' t' by auto
  obtain d where d: "new_range_set n found = Inr d"
    using new_range_set_ok f(2) s' by blast
  show ?thesis
    using that [of d] new_range_set_Inr [OF d] f(1,3) d s' t' by (simp add: missingFrom_def)
qed

lemma rs_union_ok:
  assumes "0 \<le> n" "rs_fileSize s = n" "rs_fileSize t = n" "canonical n (rs_ranges s)" "canonical n (rs_ranges t)"
  obtains u where "rs_union s t = Inr u" "canonical n (rs_ranges u)" "rs_fileSize u = n"
    "bytes_of (rs_ranges u) = bytes_of (rs_ranges s) \<union> bytes_of (rs_ranges t)"
proof -
  obtain u where u: "new_range_set n (rs_ranges s @ rs_ranges t) = Inr u"
    using new_range_set_ok [OF assms(1), of "rs_ranges s @ rs_ranges t"] assms(4,5)
    by (auto simp add: canonical_def)
  show ?thesis
    using that [of u] new_range_set_Inr [OF u] u assms by (simp add: rs_union_def)
qed





text \<open>
  A plan cuts the requested range into block slices without loss or overlap: inside the plan's
  block span every slice exists, is not empty, is exactly the part of its block that was requested
  and starts at the offset the plan gives; outside the span there is none; and the slices cover
  the request.
\<close>

theorem plan_slices_partition_request:
  assumes "new_geometry sz bs = Inr g" "geometry_plan g r = Inr p"
  shows "(\<forall>i. \<exists>found. sliceForBlock p i = Inr found \<and>
      (found = None \<longleftrightarrow> \<not> (lb_first (pl_blocks p) \<le> i \<and> i < lb_end (pl_blocks p))) \<and>
      (\<forall>sl. found = Some sl \<longrightarrow> blockPlaintext g i = Inr (sl_blockPlaintext sl) \<and>
         range_bytes (sl_requestedBytes sl) = range_bytes (sl_blockPlaintext sl) \<inter> range_bytes r \<and>
         range_bytes (sl_requestedBytes sl) \<noteq> {} \<and>
         br_start (sl_requestedBytes sl) = br_start (sl_blockPlaintext sl) + sl_offsetWithinBlock sl \<and>
         0 \<le> sl_offsetWithinBlock sl \<and> sl_offsetWithinBlock sl < bs)) \<and>
    (\<forall>x \<in> range_bytes r. \<exists>sl. sliceForBlock p (x div bs) = Inr (Some sl) \<and> x \<in> range_bytes (sl_requestedBytes sl))"
proof
  note r = geometry_plan_Inr [OF assms]
  have bs: "0 < bs" using assms(1) by (simp add: new_geometry_Inr)
  let ?in = "\<lambda>i. lb_first (pl_blocks p) \<le> i \<and> i < lb_end (pl_blocks p)"
  show "\<forall>i. \<exists>found. sliceForBlock p i = Inr found \<and> (found = None \<longleftrightarrow> \<not> ?in i) \<and>
      (\<forall>sl. found = Some sl \<longrightarrow> blockPlaintext g i = Inr (sl_blockPlaintext sl) \<and>
         range_bytes (sl_requestedBytes sl) = range_bytes (sl_blockPlaintext sl) \<inter> range_bytes r \<and>
         range_bytes (sl_requestedBytes sl) \<noteq> {} \<and>
         br_start (sl_requestedBytes sl) = br_start (sl_blockPlaintext sl) + sl_offsetWithinBlock sl \<and>
         0 \<le> sl_offsetWithinBlock sl \<and> sl_offsetWithinBlock sl < bs)"
  proof
    fix i
    show "\<exists>found. sliceForBlock p i = Inr found \<and> (found = None \<longleftrightarrow> \<not> ?in i) \<and>
      (\<forall>sl. found = Some sl \<longrightarrow> blockPlaintext g i = Inr (sl_blockPlaintext sl) \<and>
         range_bytes (sl_requestedBytes sl) = range_bytes (sl_blockPlaintext sl) \<inter> range_bytes r \<and>
         range_bytes (sl_requestedBytes sl) \<noteq> {} \<and>
         br_start (sl_requestedBytes sl) = br_start (sl_blockPlaintext sl) + sl_offsetWithinBlock sl \<and>
         0 \<le> sl_offsetWithinBlock sl \<and> sl_offsetWithinBlock sl < bs)"
    proof (cases "?in i")
      case True
      then obtain sl where sl: "sliceForBlock p i = Inr (Some sl)"
        "blockPlaintext g i = Inr (sl_blockPlaintext sl)"
        "sl_requestedBytes sl = Byte_range (max (i * bs) (br_start r)) (min ((i + 1) * bs) (br_end r))"
        "max (i * bs) (br_start r) < min ((i + 1) * bs) (br_end r)"
        "sl_blockPlaintext sl = Byte_range (i * bs) (min ((i + 1) * bs) sz)"
        "sl_offsetWithinBlock sl = max (i * bs) (br_start r) - i * bs"
        using slice_ok [OF assms, of i] by auto
      have "range_bytes (sl_requestedBytes sl) = range_bytes (sl_blockPlaintext sl) \<inter> range_bytes r"
        using r(3) unfolding sl(3,5) by auto
      moreover have "range_bytes (sl_requestedBytes sl) \<noteq> {}"
        using sl(4) unfolding sl(3) range_bytes_simps(2) by (simp only: atLeastLessThan_empty_iff not_le) simp
      moreover have "sl_offsetWithinBlock sl < bs"
        using sl(4) unfolding sl(6) distrib_right by linarith
      ultimately show ?thesis
        using True sl by (intro exI [of _ "Some sl"]) simp
    next
      case False
      then have "sliceForBlock p i = Inr None"
        by (simp add: sliceForBlock_def not_le disj_commute not_less imp_conjL)
      with False show ?thesis by simp
    qed
  qed
  show "\<forall>x \<in> range_bytes r. \<exists>sl. sliceForBlock p (x div bs) = Inr (Some sl) \<and> x \<in> range_bytes (sl_requestedBytes sl)"
  proof
    fix x assume x: "x \<in> range_bytes r"
    then have "br_start r div bs \<le> x div bs" "x div bs \<le> (br_end r - 1) div bs"
      using bs by (auto intro: zdiv_mono1)
    then have "?in (x div bs)"
      using r(6) x by auto
    then obtain sl where "sliceForBlock p (x div bs) = Inr (Some sl)"
      "sl_requestedBytes sl = Byte_range (max (x div bs * bs) (br_start r)) (min ((x div bs + 1) * bs) (br_end r))"
      using slice_ok [OF assms, of "x div bs"] by auto
    then show "\<exists>sl. sliceForBlock p (x div bs) = Inr (Some sl) \<and> x \<in> range_bytes (sl_requestedBytes sl)"
      using x div_below [OF bs, of x] by auto
  qed
qed

theorem plan_slices_partition_request_witness:
  "\<exists>sl. sliceForBlock \<lparr>pl_geometry = \<lparr>fg_exactSize = 10, fg_blockSize = 4, fg_blockCount = 3\<rparr>,
      pl_requested = Byte_range 2 9, pl_blocks = \<lparr>lb_first = 0, lb_end = 3\<rparr>\<rparr> (5 div 4) = Inr (Some sl) \<and>
    5 \<in> range_bytes (sl_requestedBytes sl)"
proof -
  have a: "new_geometry 10 4 = Inr \<lparr>fg_exactSize = 10, fg_blockSize = 4, fg_blockCount = 3\<rparr>"
    and b: "geometry_plan \<lparr>fg_exactSize = 10, fg_blockSize = 4, fg_blockCount = 3\<rparr> (Byte_range 2 9) =
      Inr \<lparr>pl_geometry = \<lparr>fg_exactSize = 10, fg_blockSize = 4, fg_blockCount = 3\<rparr>,
        pl_requested = Byte_range 2 9, pl_blocks = \<lparr>lb_first = 0, lb_end = 3\<rparr>\<rparr>"
    by code_simp+
  have "(5 :: int) \<in> range_bytes (Byte_range 2 9)" by simp
  then show ?thesis
    using plan_slices_partition_request [OF a b, THEN conjunct2] by blast
qed

end
