(* ===== verification/Cbor.thy ===== *)
theory Cbor
  imports Prelude
begin

text \<open>
The deterministic CBOR of the protocol, \<^verbatim>\<open>web/src/protocol/cbor-canonical.ts\<close>,
  \<^verbatim>\<open>web/src/protocol/cbor.ts\<close> and \<^verbatim>\<open>web/src/protocol/text.ts\<close>: the check of the wire
  representation, the checks of decoded values, and the readers of fields. The reference is the
  datatype \<open>cbor\<close> with its one deterministic encoder \<open>cbor_encode\<close>. The package that builds
  the values is a parameter, and so is the Unicode normalisation.
\<close>

section \<open>The canonical wire representation\<close>

definition MAXIMUM_CBOR_DEPTH :: nat where "MAXIMUM_CBOR_DEPTH = 16"
definition MAXIMUM_CBOR_ARRAY_ITEMS :: nat where "MAXIMUM_CBOR_ARRAY_ITEMS = 2048"
definition MAXIMUM_CBOR_MAP_FIELDS :: nat where "MAXIMUM_CBOR_MAP_FIELDS = 256"
definition MAXIMUM_INLINE_ARGUMENT :: nat where "MAXIMUM_INLINE_ARGUMENT = 23"
definition ARGUMENT_WIDTHS :: "nat list" where "ARGUMENT_WIDTHS = [1, 2, 4, 8]"
definition MINIMUM_ARGUMENTS :: "nat list" where
  "MINIMUM_ARGUMENTS = [24, 256, 65536, 4294967296]"

lemmas cbor_limits = MAXIMUM_CBOR_DEPTH_def MAXIMUM_CBOR_ARRAY_ITEMS_def MAXIMUM_CBOR_MAP_FIELDS_def
  MAXIMUM_INLINE_ARGUMENT_def ARGUMENT_WIDTHS_def MINIMUM_ARGUMENTS_def

datatype canonical_error =
  Truncated | Bad_argument | Nonminimal | Too_long | Key_type | Key_order | Too_deep
| Simple_value | Tagged | Bad_utf8 | Trailing

text \<open>
  \<^verbatim>\<open>new TextDecoder('utf-8', { fatal: true })\<close> accepts the byte sequences of the Encoding
  Standard: a lead byte fixes the number of continuation bytes and the bounds of the first one.
\<close>

definition continuation :: "byte \<Rightarrow> bool" where
  "continuation c \<longleftrightarrow> 0x80 \<le> c \<and> c \<le> 0xBF"

fun utf8_valid :: "bytes \<Rightarrow> bool" where
  "utf8_valid [] = True"
| "utf8_valid (a # bs) =
     (if a \<le> 0x7F then utf8_valid bs
      else if 0xC2 \<le> a \<and> a \<le> 0xDF then
        (case bs of b # r \<Rightarrow> continuation b \<and> utf8_valid r | _ \<Rightarrow> False)
      else if 0xE0 \<le> a \<and> a \<le> 0xEF then
        (case bs of b # c # r \<Rightarrow>
           (if a = 0xE0 then 0xA0 \<le> b else 0x80 \<le> b) \<and> (if a = 0xED then b \<le> 0x9F else b \<le> 0xBF) \<and>
           continuation c \<and> utf8_valid r
         | _ \<Rightarrow> False)
      else if 0xF0 \<le> a \<and> a \<le> 0xF4 then
        (case bs of b # c # d # r \<Rightarrow>
           (if a = 0xF0 then 0x90 \<le> b else 0x80 \<le> b) \<and> (if a = 0xF4 then b \<le> 0x8F else b \<le> 0xBF) \<and>
           continuation c \<and> continuation d \<and> utf8_valid r
         | _ \<Rightarrow> False)
      else False)"

text \<open>The closures over the shared \<^verbatim>\<open>offset\<close> take it as an argument and return the new one.\<close>

definition next_byte :: "bytes \<Rightarrow> nat \<Rightarrow> canonical_error + (nat \<times> nat)" where
  "next_byte encoded offset =
     (if offset \<ge> length encoded then Inl Truncated else Inr (unat (encoded ! offset), offset + 1))"

definition read_argument :: "bytes \<Rightarrow> nat \<Rightarrow> nat \<Rightarrow> canonical_error + (nat \<times> nat)" where
  "read_argument encoded additional offset =
     (if additional \<le> MAXIMUM_INLINE_ARGUMENT then Inr (additional, offset)
      else let index = additional - MAXIMUM_INLINE_ARGUMENT - 1 in
      if \<not> index < length ARGUMENT_WIDTHS \<or> offset + ARGUMENT_WIDTHS ! index > length encoded
      then Inl Bad_argument
      else let width = ARGUMENT_WIDTHS ! index; v = get_uint width offset encoded in
      if v < MINIMUM_ARGUMENTS ! index then Inl Nonminimal else Inr (v, offset + width))"

definition bounded_length :: "nat \<Rightarrow> nat \<Rightarrow> canonical_error + nat" where
  "bounded_length v maximum = (if v > maximum then Inl Too_long else Inr v)"

text \<open>
  \<^verbatim>\<open>item\<close>, the loop over the items of an array and the loop of \<^verbatim>\<open>map\<close> with the previous key. The
  nesting limit bounds the recursion: the loops run at the depth of their items.
\<close>

function canonical_item :: "bytes \<Rightarrow> nat \<Rightarrow> nat \<Rightarrow> canonical_error + nat"
  and canonical_items :: "bytes \<Rightarrow> nat \<Rightarrow> nat \<Rightarrow> nat \<Rightarrow> canonical_error + nat"
  and canonical_fields :: "bytes \<Rightarrow> nat \<Rightarrow> nat \<Rightarrow> int \<Rightarrow> nat \<Rightarrow> canonical_error + nat" where
  "canonical_item encoded depth offset =
     (if depth > MAXIMUM_CBOR_DEPTH then Inl Too_deep
      else bindE (next_byte encoded offset) (\<lambda>(initial, offset).
      let major = initial div 32; additional = initial mod 32 in
      if major = 7 then
        (if initial \<noteq> 0xf4 \<and> initial \<noteq> 0xf5 \<and> initial \<noteq> 0xf6 then Inl Simple_value else Inr offset)
      else if major = 6 then Inl Tagged
      else bindE (read_argument encoded additional offset) (\<lambda>(v, offset).
      if major \<le> 1 then Inr offset
      else if major = 2 \<or> major = 3 then
        bindE (bounded_length v (length encoded - offset)) (\<lambda>size.
        if major = 3 \<and> \<not> utf8_valid (subarray offset (offset + size) encoded) then Inl Bad_utf8
        else Inr (offset + size))
      else if major = 4 then
        bindE (bounded_length v MAXIMUM_CBOR_ARRAY_ITEMS) (\<lambda>count.
        canonical_items encoded (depth + 1) count offset)
      else
        bindE (bounded_length v MAXIMUM_CBOR_MAP_FIELDS) (\<lambda>count.
        canonical_fields encoded (depth + 1) count (- 1) offset))))"
| "canonical_items encoded depth count offset =
     (if count = 0 then Inr offset
      else bindE (canonical_item encoded depth offset) (\<lambda>offset.
        canonical_items encoded depth (count - 1) offset))"
| "canonical_fields encoded depth count previous offset =
     (if count = 0 then Inr offset
      else bindE (next_byte encoded offset) (\<lambda>(keyHeader, offset).
      if keyHeader div 32 \<noteq> 0 then Inl Key_type
      else bindE (read_argument encoded (keyHeader mod 32) offset) (\<lambda>(v, offset).
      bindE (bounded_length v (nat max_safe_integer)) (\<lambda>key.
      if int key \<le> previous then Inl Key_order
      else bindE (canonical_item encoded depth offset) (\<lambda>offset.
        canonical_fields encoded depth (count - 1) (int key) offset)))))"
  by pat_completeness auto
termination
  by (relation "measures [
      \<lambda>x. case x of Inl (_, d, _) \<Rightarrow> 17 - d | Inr (Inl (_, d, _, _)) \<Rightarrow> 17 - d | Inr (Inr (_, d, _, _, _)) \<Rightarrow> 17 - d,
      \<lambda>x. case x of Inl _ \<Rightarrow> 0 | Inr (Inl (_, _, n, _)) \<Rightarrow> Suc n | Inr (Inr (_, _, n, _, _)) \<Rightarrow> Suc n]")
    (auto simp add: MAXIMUM_CBOR_DEPTH_def)

declare canonical_item.simps [simp del] canonical_items.simps [simp del] canonical_fields.simps [simp del]

definition validateCanonicalEncoding :: "bytes \<Rightarrow> canonical_error + unit" where
  "validateCanonicalEncoding encoded =
     bindE (canonical_item encoded 0 0) (\<lambda>offset.
     if offset \<noteq> length encoded then Inl Trailing else Inr ())"


section \<open>The reference encoding\<close>

text \<open>
  The values of the protocol and their only deterministic encoding (RFC 8949, section 4.2): the
  shortest argument, definite lengths, and keys in numeric order.
\<close>

datatype cbor =
  CUnsigned nat | CNegative nat | CBytes bytes | CText bytes | CArray "cbor list"
| CMap "(nat \<times> cbor) list" | CFalse | CTrue | CNull

definition octet :: "nat \<Rightarrow> byte" where "octet n = of_nat n"

definition cbor_head :: "nat \<Rightarrow> nat \<Rightarrow> bytes" where
  "cbor_head major n =
     (if n < 24 then [octet (major * 32 + n)]
      else if n < 256 then octet (major * 32 + 24) # be_bytes 1 n
      else if n < 65536 then octet (major * 32 + 25) # be_bytes 2 n
      else if n < 4294967296 then octet (major * 32 + 26) # be_bytes 4 n
      else octet (major * 32 + 27) # be_bytes 8 n)"

fun cbor_encode :: "cbor \<Rightarrow> bytes" where
  "cbor_encode (CUnsigned n) = cbor_head 0 n"
| "cbor_encode (CNegative n) = cbor_head 1 n"
| "cbor_encode (CBytes b) = cbor_head 2 (length b) @ b"
| "cbor_encode (CText b) = cbor_head 3 (length b) @ b"
| "cbor_encode (CArray vs) = cbor_head 4 (length vs) @ concat (map cbor_encode vs)"
| "cbor_encode (CMap fs) = cbor_head 5 (length fs) @ concat (map (\<lambda>(k, v). cbor_head 0 k @ cbor_encode v) fs)"
| "cbor_encode CFalse = [0xf4]"
| "cbor_encode CTrue = [0xf5]"
| "cbor_encode CNull = [0xf6]"

text \<open>The limits of the protocol, for a value at nesting depth \<open>d\<close>.\<close>

fun cbor_ok :: "nat \<Rightarrow> cbor \<Rightarrow> bool" where
  "cbor_ok d (CUnsigned n) \<longleftrightarrow> d \<le> 16 \<and> n < 256 ^ 8"
| "cbor_ok d (CNegative n) \<longleftrightarrow> d \<le> 16 \<and> n < 256 ^ 8"
| "cbor_ok d (CBytes b) \<longleftrightarrow> d \<le> 16 \<and> length b < 256 ^ 8"
| "cbor_ok d (CText b) \<longleftrightarrow> d \<le> 16 \<and> length b < 256 ^ 8 \<and> utf8_valid b"
| "cbor_ok d (CArray vs) \<longleftrightarrow> d \<le> 16 \<and> length vs \<le> 2048 \<and> list_all (cbor_ok (d + 1)) vs"
| "cbor_ok d (CMap fs) \<longleftrightarrow> d \<le> 16 \<and> length fs \<le> 256 \<and> sorted_wrt (<) (map fst fs) \<and>
     list_all (\<lambda>(k, v). int k \<le> max_safe_integer \<and> cbor_ok (d + 1) v) fs"
| "cbor_ok d CFalse \<longleftrightarrow> d \<le> 16"
| "cbor_ok d CTrue \<longleftrightarrow> d \<le> 16"
| "cbor_ok d CNull \<longleftrightarrow> d \<le> 16"

subsection \<open>Heads\<close>

lemma pow_bytes: "(256 :: nat) ^ 1 = 256" "(256 :: nat) ^ 2 = 65536" "(256 :: nat) ^ 4 = 4294967296"
  "(256 :: nat) ^ 8 = 18446744073709551616"
  by simp_all

lemma unat_octet [simp]: "n < 256 \<Longrightarrow> unat (octet n) = n" "octet (unat w) = w"
  by (simp_all add: octet_def unat_of_nat take_bit_eq_mod)

lemma drop_nth_Cons: "drop i xs = y # ys \<Longrightarrow> i < length xs \<and> xs ! i = y \<and> drop (Suc i) xs = ys"
  by (metis Cons_nth_drop_Suc drop_all list.distinct(1) list.inject not_le)

lemma get_uint_drop:
  assumes "drop off b = be_bytes k v @ rest" "v < 256 ^ k" "0 < k"
  shows "get_uint k off b = v" "off + k \<le> length b" "drop (off + k) b = rest"
proof -
  have "length (drop off b) = k + length rest"
    by (simp add: assms(1))
  then show "off + k \<le> length b" using assms(3) by simp
  show "drop (off + k) b = rest"
    using assms(1) by (metis add.commute append_eq_conv_conj drop_drop length_be_bytes)
  have "take k (drop off b) = be_bytes k v"
    by (simp add: assms(1))
  then show "get_uint k off b = v"
    using assms(2) by (simp add: get_uint_def)
qed


lemma head_read_wide:
  assumes d: "drop off b = (octet (m * 32 + (24 + i)) # be_bytes k n) @ rest" and m: "m < 8"
    and i: "i < 4" "k = ARGUMENT_WIDTHS ! i" "MINIMUM_ARGUMENTS ! i \<le> n" "n < 256 ^ k" "0 < k"
  shows "next_byte b off = Inr (m * 32 + (24 + i), Suc off)"
    "read_argument b (24 + i) (Suc off) = Inr (n, off + Suc k)"
    "drop (off + Suc k) b = rest"
proof -
  have d': "off < length b" "b ! off = octet (m * 32 + (24 + i))" "drop (Suc off) b = be_bytes k n @ rest"
    using drop_nth_Cons [of off b "octet (m * 32 + (24 + i))" "be_bytes k n @ rest"] d by simp_all
  note g = get_uint_drop [OF d'(3) i(4,5)]
  show "next_byte b off = Inr (m * 32 + (24 + i), Suc off)"
    using d'(1,2) i(1) m by (simp add: next_byte_def)
  have "\<not> 24 + i \<le> MAXIMUM_INLINE_ARGUMENT" "24 + i - MAXIMUM_INLINE_ARGUMENT - 1 = i"
    "i < length ARGUMENT_WIDTHS"
    using i(1) by (simp_all add: cbor_limits)
  moreover have "\<not> Suc off + k > length b" "\<not> n < MINIMUM_ARGUMENTS ! i"
    using g(2) i(3) by simp_all
  ultimately show "read_argument b (24 + i) (Suc off) = Inr (n, off + Suc k)"
    using g(1) by (simp add: read_argument_def Let_def i(2))
  show "drop (off + Suc k) b = rest"
    using g(3) by simp
qed

lemma head_read:
  assumes d: "drop off b = cbor_head m n @ rest" and n: "n < 256 ^ 8" and m: "m < 8"
  shows "\<exists>a < 32. next_byte b off = Inr (m * 32 + a, Suc off) \<and>
    read_argument b a (Suc off) = Inr (n, off + length (cbor_head m n)) \<and>
    drop (off + length (cbor_head m n)) b = rest"
proof -
  have wide: ?thesis if "cbor_head m n = octet (m * 32 + (24 + i)) # be_bytes k n" "i < 4"
    "k = ARGUMENT_WIDTHS ! i" "MINIMUM_ARGUMENTS ! i \<le> n" "n < 256 ^ k" "0 < k" for i k
    using head_read_wide [of off b m i k n rest] d that m by (intro exI [of _ "24 + i"]) simp
  consider "n < 24" | "24 \<le> n" "n < 256" | "256 \<le> n" "n < 65536" | "65536 \<le> n" "n < 4294967296"
    | "4294967296 \<le> n" by linarith
  then show ?thesis
  proof cases
    case 1
    then have h: "cbor_head m n = [octet (m * 32 + n)]"
      by (simp add: cbor_head_def)
    have "off < length b \<and> b ! off = octet (m * 32 + n) \<and> drop (Suc off) b = rest"
      using d h drop_nth_Cons by fastforce
    then show ?thesis
      using 1 m by (intro exI [of _ n]) (simp add: next_byte_def read_argument_def cbor_limits h)
  next
    case 2
    then show ?thesis
      by (intro wide [of 0 1]) (simp_all add: cbor_head_def cbor_limits del: be_bytes.simps One_nat_def)
  next
    case 3
    then show ?thesis
      by (intro wide [of 1 2]) (simp_all add: cbor_head_def cbor_limits)
  next
    case 4
    then show ?thesis
      by (intro wide [of 2 4]) (simp_all add: cbor_head_def cbor_limits)
  next
    case 5
    then show ?thesis
      using n by (intro wide [of 3 8]) (simp_all add: cbor_head_def cbor_limits)
  qed
qed

lemma head_sound:
  assumes "next_byte b off = Inr (i, off1)" "read_argument b (i mod 32) off1 = Inr (n, off2)"
  shows "n < 256 ^ 8 \<and> off2 \<le> length b \<and> off < off2 \<and> i < 256 \<and>
    drop off b = cbor_head (i div 32) n @ drop off2 b \<and> off2 = off + length (cbor_head (i div 32) n)"
proof -
  have off: "off < length b" "i = unat (b ! off)" "off1 = Suc off"
    using assms(1) by (auto simp add: next_byte_def split: if_splits)
  have i: "i < 256"
    using off(2) unat_byte by simp
  have here: "drop off b = octet i # drop (Suc off) b"
    using off(1,2) by (simp add: Cons_nth_drop_Suc)
  show ?thesis
  proof (cases "i mod 32 \<le> 23")
    case True
    then have "n = i mod 32" "off2 = Suc off"
      using assms(2) off by (auto simp add: read_argument_def cbor_limits)
    with True here i off(1) show ?thesis
      by (simp add: cbor_head_def)
  next
    case False
    define j k where "j = i mod 32 - 24" and k: "k = ARGUMENT_WIDTHS ! j"
    have ij: "i mod 32 = 24 + j"
      using False by (simp add: j_def)
    have arg: "read_argument b (24 + j) (Suc off) = Inr (n, off2)"
      using assms(2) unfolding ij off(3) .
    have j: "j < 4" "Suc off + k \<le> length b" "n = get_uint k (Suc off) b" "MINIMUM_ARGUMENTS ! j \<le> n"
      "off2 = Suc off + k"
      using arg by (auto simp add: read_argument_def Let_def k MAXIMUM_INLINE_ARGUMENT_def
          ARGUMENT_WIDTHS_def [THEN arg_cong, of length] split: if_splits)
    have len: "length (take k (drop (Suc off) b)) = k"
      using j(2) by simp
    have "n < 256 ^ k" "be_bytes k n = take k (drop (Suc off) b)"
      using be_value_bound [of "take k (drop (Suc off) b)"] len by (simp_all add: j(3) get_uint_def)
    then have tail: "drop (Suc off) b = be_bytes k n @ drop off2 b"
      unfolding j(5) by (metis add.commute append_take_drop_id drop_drop)
    have split: "i = (i div 32) * 32 + (24 + j)"
      using ij by (metis div_mult_mod_eq)
    have head: "cbor_head (i div 32) n = octet i # be_bytes k n \<and> k \<le> 8"
    proof -
      consider "j = 0" | "j = 1" | "j = 2" | "j = 3" using j(1) by linarith
      then show ?thesis
        using j(4) \<open>n < 256 ^ k\<close> split k
        by cases (simp_all add: cbor_head_def cbor_limits del: be_bytes.simps)
    qed
    moreover have "n < 256 ^ 8"
      using \<open>n < 256 ^ k\<close> head power_increasing [of k 8 "256 :: nat"] by linarith
    ultimately show ?thesis
      using here i off(1) j(2,5) tail by simp
  qed
qed


subsection \<open>Every canonical encoding is accepted\<close>

lemma drop_next: "drop off b = x @ rest \<Longrightarrow> drop (off + length x) b = rest"
  by (metis add.commute append_eq_conv_conj drop_drop)

lemma drop_length: "drop off b = x @ rest \<Longrightarrow> x \<noteq> [] \<Longrightarrow> off + length x \<le> length b"
  by (metis add_diff_cancel_left' append_is_Nil_conv drop_all length_append length_drop
      le_add_diff_inverse le_iff_add nat_le_linear trans_le_add1 add_le_cancel_left le_add1)

lemma cbor_head_nonempty [simp]: "cbor_head m n \<noteq> []"
  by (simp add: cbor_head_def)

lemma items_complete:
  assumes "\<And>v off rest. v \<in> set vs \<Longrightarrow> drop off b = cbor_encode v @ rest \<Longrightarrow>
      canonical_item b d off = Inr (off + length (cbor_encode v))"
    "drop off b = concat (map cbor_encode vs) @ rest"
  shows "canonical_items b d (length vs) off = Inr (off + length (concat (map cbor_encode vs)))"
  using assms
proof (induction vs arbitrary: off)
  case Nil
  then show ?case by (simp add: canonical_items.simps)
next
  case (Cons v vs)
  have d: "drop off b = cbor_encode v @ (concat (map cbor_encode vs) @ rest)"
    using Cons.prems(2) by simp
  have "canonical_item b d off = Inr (off + length (cbor_encode v))"
    using Cons.prems(1) [OF _ d] by simp
  moreover have "canonical_items b d (length vs) (off + length (cbor_encode v)) =
      Inr (off + length (cbor_encode v) + length (concat (map cbor_encode vs)))"
    using Cons.prems(1) by (intro Cons.IH drop_next [OF d]) simp
  ultimately show ?case
    by (simp add: canonical_items.simps [of b d "Suc (length vs)"] add.assoc)
qed

lemma fields_complete:
  assumes "\<And>k v off rest. (k, v) \<in> set fs \<Longrightarrow> drop off b = cbor_encode v @ rest \<Longrightarrow>
      canonical_item b d off = Inr (off + length (cbor_encode v))"
    "drop off b = concat (map (\<lambda>(k, v). cbor_head 0 k @ cbor_encode v) fs) @ rest"
    "sorted_wrt (<) (map fst fs)" "\<forall>(k, v) \<in> set fs. int k \<le> max_safe_integer \<and> previous < int k"
  shows "canonical_fields b d (length fs) previous off =
    Inr (off + length (concat (map (\<lambda>(k, v). cbor_head 0 k @ cbor_encode v) fs)))"
  using assms
proof (induction fs arbitrary: off previous)
  case Nil
  then show ?case by (simp add: canonical_fields.simps)
next
  case (Cons f fs)
  obtain k v where f: "f = (k, v)" by (cases f)
  let ?more = "concat (map (\<lambda>(k, v). cbor_head 0 k @ cbor_encode v) fs)"
  have d: "drop off b = cbor_head 0 k @ (cbor_encode v @ (?more @ rest))"
    using Cons.prems(2) by (simp add: f)
  have k: "int k \<le> max_safe_integer" "previous < int k" "k < 256 ^ 8"
    using Cons.prems(4) by (auto simp add: f max_safe_integer_def)
  obtain a where a: "a < 32" "next_byte b off = Inr (a, Suc off)"
    "read_argument b a (Suc off) = Inr (k, off + length (cbor_head 0 k))"
    using head_read [OF d k(3)] by auto
  note d2 = drop_next [OF d]
  have "canonical_item b d (off + length (cbor_head 0 k)) =
      Inr (off + length (cbor_head 0 k) + length (cbor_encode v))"
    using Cons.prems(1) [of k v, OF _ d2] by (simp add: f)
  moreover have "canonical_fields b d (length fs) (int k) (off + length (cbor_head 0 k) + length (cbor_encode v)) =
      Inr (off + length (cbor_head 0 k) + length (cbor_encode v) + length ?more)"
    using Cons.prems(1,3,4) by (intro Cons.IH drop_next [OF d2]) (auto simp add: f)
  ultimately show ?case
    using a k by (simp add: canonical_fields.simps [of b d "Suc (length fs)"] f bounded_length_def
        nat_le_eq_zle le_nat_iff add.assoc)
qed

text \<open>What \<^verbatim>\<open>item\<close> does after the head, by major type.\<close>

lemma item_head:
  assumes "drop off b = cbor_head m n @ rest" "n < 256 ^ 8" "m < 6" "d \<le> 16"
  defines "pos \<equiv> off + length (cbor_head m n)"
  shows "m \<le> 1 \<Longrightarrow> canonical_item b d off = Inr pos"
    "m = 2 \<or> m = 3 \<Longrightarrow> n \<le> length rest \<Longrightarrow> (m = 3 \<Longrightarrow> utf8_valid (take n rest)) \<Longrightarrow>
       canonical_item b d off = Inr (pos + n)"
    "m = 4 \<Longrightarrow> n \<le> 2048 \<Longrightarrow> canonical_item b d off = canonical_items b (d + 1) n pos"
    "m = 5 \<Longrightarrow> n \<le> 256 \<Longrightarrow> canonical_item b d off = canonical_fields b (d + 1) n (- 1) pos"
proof -
  obtain a where a: "a < 32" "next_byte b off = Inr (m * 32 + a, Suc off)"
    "read_argument b a (Suc off) = Inr (n, pos)" "drop pos b = rest"
    using head_read [OF assms(1,2)] assms(3) unfolding pos_def by auto
  then have m: "(m * 32 + a) div 32 = m" "(m * 32 + a) mod 32 = a" "m \<noteq> 7" "m \<noteq> 6"
    using assms(3) by auto
  have len: "length b - pos = length rest"
    using a(4) by (metis length_drop)
  have eq: "canonical_item b d off =
      (if m \<le> 1 then Inr pos
       else if m = 2 \<or> m = 3 then bindE (bounded_length n (length rest)) (\<lambda>size.
         if m = 3 \<and> \<not> utf8_valid (take size rest) then Inl Bad_utf8 else Inr (pos + size))
       else if m = 4 then bindE (bounded_length n 2048) (\<lambda>count. canonical_items b (d + 1) count pos)
       else bindE (bounded_length n 256) (\<lambda>count. canonical_fields b (d + 1) count (- 1) pos))"
    unfolding canonical_item.simps [of b d off]
    by (simp add: a m leD [OF assms(4)] Let_def cbor_limits len subarray_def)
  show "canonical_item b d off = Inr pos" if "m \<le> 1"
    using that by (simp add: eq)
  show "canonical_item b d off = Inr (pos + n)" if "m = 2 \<or> m = 3" "n \<le> length rest"
      "m = 3 \<Longrightarrow> utf8_valid (take n rest)"
    using that by (auto simp add: eq bounded_length_def)
  show "canonical_item b d off = canonical_items b (d + 1) n pos" if "m = 4" "n \<le> 2048"
    using that by (simp add: eq bounded_length_def)
  show "canonical_item b d off = canonical_fields b (d + 1) n (- 1) pos" if "m = 5" "n \<le> 256"
    using that by (simp add: eq bounded_length_def)
qed

lemma item_simple:
  assumes "drop off b = [octet x] @ rest" "x = 0xf4 \<or> x = 0xf5 \<or> x = 0xf6" "d \<le> 16"
  shows "canonical_item b d off = Inr (off + 1)"
proof -
  have "next_byte b off = Inr (x, Suc off)"
    using assms(1,2) drop_nth_Cons [of off b "octet x" rest] by (auto simp add: next_byte_def)
  with assms(2,3) show ?thesis
    unfolding canonical_item.simps [of b d off] by (auto simp add: cbor_limits)
qed

lemma octet_simple: "octet 0xf4 = 0xf4" "octet 0xf5 = 0xf5" "octet 0xf6 = 0xf6"
  by (simp_all add: octet_def)

lemma item_complete:
  assumes "cbor_ok d v" "drop off b = cbor_encode v @ rest"
  shows "canonical_item b d off = Inr (off + length (cbor_encode v))"
  using assms
proof (induction v arbitrary: d off rest)
  case (CUnsigned n)
  then show ?case using item_head(1) [of off b 0 n rest d] by simp
next
  case (CNegative n)
  then show ?case using item_head(1) [of off b 1 n rest d] by simp
next
  case (CBytes x)
  then show ?case using item_head(2) [of off b 2 "length x" "x @ rest" d] by simp
next
  case (CText x)
  then show ?case using item_head(2) [of off b 3 "length x" "x @ rest" d] by simp
next
  case (CArray vs)
  have d: "drop off b = cbor_head 4 (length vs) @ (concat (map cbor_encode vs) @ rest)"
    and ok: "d \<le> 16" "length vs \<le> 2048" "\<And>v. v \<in> set vs \<Longrightarrow> cbor_ok (d + 1) v"
    using CArray.prems by (simp_all add: list_all_iff)
  have "canonical_items b (d + 1) (length vs) (off + length (cbor_head 4 (length vs))) =
      Inr (off + length (cbor_head 4 (length vs)) + length (concat (map cbor_encode vs)))"
    using CArray.IH ok(3) by (intro items_complete [OF _ drop_next [OF d]]) blast
  then show ?case
    using item_head(3) [OF d _ _ ok(1) refl ok(2)] ok(2) by (simp add: add.assoc)
next
  case (CMap fs)
  let ?body = "concat (map (\<lambda>(k, v). cbor_head 0 k @ cbor_encode v) fs)"
  have d: "drop off b = cbor_head 5 (length fs) @ (?body @ rest)"
    and ok: "d \<le> 16" "length fs \<le> 256" "sorted_wrt (<) (map fst fs)"
      "\<And>k v. (k, v) \<in> set fs \<Longrightarrow> int k \<le> max_safe_integer \<and> cbor_ok (d + 1) v"
    using CMap.prems by (auto simp add: list_all_iff)
  have "canonical_fields b (d + 1) (length fs) (- 1) (off + length (cbor_head 5 (length fs))) =
      Inr (off + length (cbor_head 5 (length fs)) + length ?body)"
  proof (intro fields_complete [OF _ drop_next [OF d] ok(3)])
    fix k v off rest assume kv: "(k, v) \<in> set fs" "drop off b = cbor_encode v @ rest"
    show "canonical_item b (d + 1) off = Inr (off + length (cbor_encode v))"
      using CMap.IH [OF kv(1), of v] ok(4) [OF kv(1)] kv(2) by simp
  next
    show "\<forall>(k, v) \<in> set fs. int k \<le> max_safe_integer \<and> - 1 < int k"
      using ok(4) by auto
  qed
  then show ?case
    using item_head(4) [OF d _ _ ok(1) refl ok(2)] ok(2) by (simp add: add.assoc)
next
  case CFalse
  then show ?case using item_simple [of off b "0xf4" rest d] by (simp add: octet_simple)
next
  case CTrue
  then show ?case using item_simple [of off b "0xf5" rest d] by (simp add: octet_simple)
next
  case CNull
  then show ?case using item_simple [of off b "0xf6" rest d] by (simp add: octet_simple)
qed


subsection \<open>Everything accepted is a canonical encoding\<close>

lemma concat_cons_drop:
  assumes "drop off b = x @ drop off1 b" "drop off1 b = y @ drop off2 b"
  shows "drop off b = (x @ y) @ drop off2 b"
  using assms by simp

lemma item_sound_all:
  "canonical_item b d off = Inr off' \<Longrightarrow> \<exists>v. cbor_ok d v \<and> off' \<le> length b \<and>
     drop off b = cbor_encode v @ drop off' b \<and> off' = off + length (cbor_encode v)"
  "canonical_items b d n off = Inr off' \<Longrightarrow> off \<le> length b \<Longrightarrow> \<exists>vs. length vs = n \<and> list_all (cbor_ok d) vs \<and>
     off' \<le> length b \<and> drop off b = concat (map cbor_encode vs) @ drop off' b \<and>
     off' = off + length (concat (map cbor_encode vs))"
  "canonical_fields b d n previous off = Inr off' \<Longrightarrow> off \<le> length b \<Longrightarrow> \<exists>fs. length fs = n \<and>
     sorted_wrt (<) (map fst fs) \<and> list_all (\<lambda>(k, v). int k \<le> max_safe_integer \<and> cbor_ok d v) fs \<and>
     (\<forall>f \<in> set fs. previous < int (fst f)) \<and> off' \<le> length b \<and>
     drop off b = concat (map (\<lambda>(k, v). cbor_head 0 k @ cbor_encode v) fs) @ drop off' b \<and>
     off' = off + length (concat (map (\<lambda>(k, v). cbor_head 0 k @ cbor_encode v) fs))"
proof (induction b d off and b d n off and b d n previous off arbitrary: off' and off' and off'
    rule: canonical_item_canonical_items_canonical_fields.induct)
  case (1 b d off)
  obtain i off1 where i: "next_byte b off = Inr (i, off1)" and d: "d \<le> 16"
    using 1(3) unfolding canonical_item.simps [of b d off]
    by (auto simp add: res_simps cbor_limits split: if_splits prod.splits)
  have off: "off < length b" "i = unat (b ! off)" "off1 = Suc off"
    using i by (auto simp add: next_byte_def split: if_splits)
  have here: "drop off b = octet i # drop off1 b"
    using off by (simp add: Cons_nth_drop_Suc)
  show ?case
  proof (cases "i div 32 = 7")
    case True
    then have "off' = off1" "i = 0xf4 \<or> i = 0xf5 \<or> i = 0xf6"
      using 1(3) i d unfolding canonical_item.simps [of b d off]
      by (auto simp add: cbor_limits Let_def split: if_splits)
    then show ?thesis
      using here off(1,3) d octet_simple
      by (intro exI [of _ "if i = 0xf4 then CFalse else if i = 0xf5 then CTrue else CNull"]) auto
  next
    case major: False
    then obtain n off2 where n: "read_argument b (i mod 32) off1 = Inr (n, off2)" "i div 32 \<noteq> 6"
      using 1(3) i unfolding canonical_item.simps [of b d off]
      by (auto simp add: res_simps Let_def split: if_splits prod.splits)
    have h: "n < 256 ^ 8" "off2 \<le> length b" "drop off b = cbor_head (i div 32) n @ drop off2 b"
        "off2 = off + length (cbor_head (i div 32) n)" "i div 32 < 6"
      using head_sound [OF i n(1)] major n(2) by auto
    have eq: "(if i div 32 \<le> 1 then Inr off2
       else if i div 32 = 2 \<or> i div 32 = 3 then bindE (bounded_length n (length b - off2)) (\<lambda>size.
         if i div 32 = 3 \<and> \<not> utf8_valid (subarray off2 (off2 + size) b) then Inl Bad_utf8 else Inr (off2 + size))
       else if i div 32 = 4 then bindE (bounded_length n 2048) (\<lambda>count. canonical_items b (d + 1) count off2)
       else bindE (bounded_length n 256) (\<lambda>count. canonical_fields b (d + 1) count (- 1) off2)) = Inr off'"
      using 1(3) i n major d unfolding canonical_item.simps [of b d off] cbor_limits Let_def
      by (simp split del: if_split)
    consider (int) "i div 32 \<le> 1" | (str) "i div 32 = 2 \<or> i div 32 = 3" | (arr) "i div 32 = 4" | (map) "i div 32 = 5"
      using h(5) by linarith
    then show ?thesis
    proof cases
      case int
      then have "i div 32 = 0 \<or> i div 32 = 1" by linarith
      with eq h d show ?thesis
        by (intro exI [of _ "if i div 32 = 0 then CUnsigned n else CNegative n"]) auto
    next
      case str
      let ?x = "subarray off2 (off2 + n) b"
      have s: "n \<le> length b - off2" "off' = off2 + n" "i div 32 = 3 \<longrightarrow> utf8_valid ?x"
        using eq str by (auto simp add: bounded_length_def split: if_splits)
      have "length ?x = n"
        using s(1) h(2) by (simp add: subarray_def)
      moreover have "drop off2 b = ?x @ drop off' b"
        by (simp add: s(2) subarray_def) (metis add.commute append_take_drop_id drop_drop)
      ultimately have x: "length ?x = n" "drop off2 b = ?x @ drop off' b" .
      show ?thesis
        using str s x h d by (intro exI [of _ "if i div 32 = 2 then CBytes ?x else CText ?x"]) auto
    next
      case arr
      then have n2: "n \<le> 2048" "canonical_items b (d + 1) n off2 = Inr off'"
        using eq by (auto simp add: bounded_length_def split: if_splits)
      obtain vs where vs: "length vs = n" "list_all (cbor_ok (d + 1)) vs" "off' \<le> length b"
        "drop off2 b = concat (map cbor_encode vs) @ drop off' b"
        "off' = off2 + length (concat (map cbor_encode vs))"
        using "1.IH"(1) [of "i div 32" i "i mod 32" n off2 off'] arr n2 d h(2) by (auto simp add: cbor_limits)
      show ?thesis
        using arr vs h n2(1) d by (intro exI [of _ "CArray vs"]) (simp add: add.assoc)
    next
      case map
      then have n2: "n \<le> 256" "canonical_fields b (d + 1) n (- 1) off2 = Inr off'"
        using eq by (auto simp add: bounded_length_def split: if_splits)
      obtain fs where fs: "length fs = n" "sorted_wrt (<) (map fst fs)"
        "list_all (\<lambda>(k, v). int k \<le> max_safe_integer \<and> cbor_ok (d + 1) v) fs" "off' \<le> length b"
        "drop off2 b = concat (map (\<lambda>(k, v). cbor_head 0 k @ cbor_encode v) fs) @ drop off' b"
        "off' = off2 + length (concat (map (\<lambda>(k, v). cbor_head 0 k @ cbor_encode v) fs))"
        using "1.IH"(2) [of "i div 32" i "i mod 32" n off2 off'] map n2 d h(2) by (auto simp add: cbor_limits)
      show ?thesis
        using map fs h n2(1) d by (intro exI [of _ "CMap fs"]) (simp add: add.assoc)
    qed
  qed
next
  case (2 b d n off)
  show ?case
  proof (cases n)
    case 0
    with 2 show ?thesis by (simp add: canonical_items.simps)
  next
    case (Suc m)
    obtain off1 where o: "canonical_item b d off = Inr off1" "canonical_items b d m off1 = Inr off'"
      using 2(3) Suc by (auto simp add: canonical_items.simps [of b d "Suc m"] res_simps)
    obtain v where v: "cbor_ok d v" "off1 \<le> length b" "drop off b = cbor_encode v @ drop off1 b"
      "off1 = off + length (cbor_encode v)"
      using 2(1) [OF _ o(1)] Suc by auto
    obtain vs where vs: "length vs = m" "list_all (cbor_ok d) vs" "off' \<le> length b"
      "drop off1 b = concat (map cbor_encode vs) @ drop off' b"
      "off' = off1 + length (concat (map cbor_encode vs))"
      using 2(2) [of off1 off'] Suc o(2) v(2) by auto
    show ?thesis
      using v vs Suc by (intro exI [of _ "v # vs"]) simp
  qed
next
  case (3 b d n previous off)
  show ?case
  proof (cases n)
    case 0
    with 3 show ?thesis by (simp add: canonical_fields.simps)
  next
    case (Suc m)
    obtain h off1 k off2 off3 where o: "next_byte b off = Inr (h, off1)" "h div 32 = 0"
      "read_argument b (h mod 32) off1 = Inr (k, off2)" "k \<le> nat max_safe_integer" "previous < int k"
      "canonical_item b d off2 = Inr off3" "canonical_fields b d m (int k) off3 = Inr off'"
      using 3(3) Suc by (auto simp add: canonical_fields.simps [of b d "Suc m"] res_simps bounded_length_def
          split: prod.splits if_splits)
    have h: "drop off b = cbor_head 0 k @ drop off2 b" "off2 = off + length (cbor_head 0 k)"
      using head_sound [OF o(1,3)] o(2) by auto
    obtain v where v: "cbor_ok d v" "off3 \<le> length b" "drop off2 b = cbor_encode v @ drop off3 b"
      "off3 = off2 + length (cbor_encode v)"
      using 3(1) [of h k off2 off3] Suc o by auto
    obtain fs where fs: "length fs = m" "sorted_wrt (<) (map fst fs)"
      "list_all (\<lambda>(k, v). int k \<le> max_safe_integer \<and> cbor_ok d v) fs"
      "\<forall>f \<in> set fs. int k < int (fst f)" "off' \<le> length b"
      "drop off3 b = concat (map (\<lambda>(k, v). cbor_head 0 k @ cbor_encode v) fs) @ drop off' b"
      "off' = off3 + length (concat (map (\<lambda>(k, v). cbor_head 0 k @ cbor_encode v) fs))"
      using 3(2) [of h k off3 off'] Suc o v(2) by auto
    have k: "int k \<le> max_safe_integer"
      using o(4) by (simp add: max_safe_integer_def)
    show ?thesis
      using h v fs Suc k o(5) by (intro exI [of _ "(k, v) # fs"]) fastforce
  qed
qed


subsection \<open>Encodings are read in one way only\<close>

lemma head_inj:
  assumes "cbor_head m n @ x = cbor_head m' n' @ y" "n < 256 ^ 8" "n' < 256 ^ 8" "m < 8" "m' < 8"
  shows "m = m' \<and> n = n' \<and> x = y"
proof -
  let ?b = "cbor_head m n @ x"
  have d: "drop 0 ?b = cbor_head m n @ x" "drop 0 ?b = cbor_head m' n' @ y"
    using assms(1) by simp_all
  obtain a where a: "a < 32" "next_byte ?b 0 = Inr (m * 32 + a, Suc 0)"
    "read_argument ?b a (Suc 0) = Inr (n, 0 + length (cbor_head m n))"
    "drop (0 + length (cbor_head m n)) ?b = x"
    using head_read [OF d(1) assms(2,4)] by blast
  obtain a' where a': "a' < 32" "next_byte ?b 0 = Inr (m' * 32 + a', Suc 0)"
    "read_argument ?b a' (Suc 0) = Inr (n', 0 + length (cbor_head m' n'))"
    "drop (0 + length (cbor_head m' n')) ?b = y"
    using head_read [OF d(2) assms(3,5)] by blast
  have "m * 32 + a = m' * 32 + a'"
    using a(2) a'(2) by simp
  then have "m = m' \<and> a = a'"
    using a(1) a'(1) by presburger
  with a a' show ?thesis by simp
qed

fun cbor_major :: "cbor \<Rightarrow> nat" where
  "cbor_major (CUnsigned _) = 0"
| "cbor_major (CNegative _) = 1"
| "cbor_major (CBytes _) = 2"
| "cbor_major (CText _) = 3"
| "cbor_major (CArray _) = 4"
| "cbor_major (CMap _) = 5"
| "cbor_major _ = 7"

lemma unat_head: "m < 8 \<Longrightarrow> unat (hd (cbor_head m n)) div 32 = m"
  by (auto simp add: cbor_head_def)

lemma encode_major: "unat (hd (cbor_encode v)) div 32 = cbor_major v" "cbor_encode v \<noteq> []"
  by (cases v; simp add: unat_head)+

lemma concat_inj:
  assumes "length vs = length ws" "concat (map e vs) @ x = concat (map e ws) @ y"
    "\<And>v w x y. v \<in> set vs \<Longrightarrow> w \<in> set ws \<Longrightarrow> e v @ x = e w @ y \<Longrightarrow> v = w \<and> x = y"
  shows "vs = ws \<and> x = y"
  using assms
proof (induction vs ws rule: list_induct2)
  case (Cons v vs w ws)
  have vw: "v = w \<and> concat (map e vs) @ x = concat (map e ws) @ y"
    using Cons.prems(1) by (intro Cons.prems(2)) auto
  moreover have "vs = ws \<and> x = y"
    using vw Cons.prems(2) by (intro Cons.IH) auto
  ultimately show ?case by simp
qed simp

lemma encode_inj:
  assumes "cbor_encode v @ x = cbor_encode w @ y" "cbor_ok d v" "cbor_ok d w"
  shows "v = w \<and> x = y"
  using assms
proof (induction v arbitrary: w x y d)
  case (CUnsigned n)
  then have "cbor_major w = 0"
    using encode_major [of w] encode_major [of "CUnsigned n"] by (metis cbor_major.simps(1) hd_append)
  with CUnsigned show ?case
    by (cases w) (auto dest: head_inj)
next
  case (CNegative n)
  then have "cbor_major w = 1"
    using encode_major [of w] encode_major [of "CNegative n"] by (metis cbor_major.simps(2) hd_append)
  with CNegative show ?case
    by (cases w) (auto dest: head_inj)
next
  case (CBytes b)
  then have "cbor_major w = 2"
    using encode_major [of w] encode_major [of "CBytes b"] by (metis cbor_major.simps(3) hd_append)
  with CBytes show ?case
    by (cases w) (auto dest: head_inj)
next
  case (CText b)
  then have "cbor_major w = 3"
    using encode_major [of w] encode_major [of "CText b"] by (metis cbor_major.simps(4) hd_append)
  with CText show ?case
    by (cases w) (auto dest: head_inj)
next
  case (CArray vs)
  then have "cbor_major w = 4"
    using encode_major [of w] encode_major [of "CArray vs"] by (metis cbor_major.simps(5) hd_append)
  then obtain ws where w: "w = CArray ws"
    by (cases w) auto
  have len: "length vs = length ws \<and> concat (map cbor_encode vs) @ x = concat (map cbor_encode ws) @ y"
    using CArray.prems by (intro head_inj [of 4 _ _ 4, THEN conjunct2]) (auto simp add: w)
  have "\<forall>v \<in> set vs. cbor_ok (d + 1) v" "\<forall>v \<in> set ws. cbor_ok (d + 1) v"
    using CArray.prems by (auto simp add: w list_all_iff)
  then have "vs = ws \<and> x = y"
    using len CArray.IH by (intro concat_inj [of vs ws cbor_encode]) blast+
  then show ?case by (simp add: w)
next
  case (CMap fs)
  then have "cbor_major w = 5"
    using encode_major [of w] encode_major [of "CMap fs"] by (metis cbor_major.simps(6) hd_append)
  then obtain gs where w: "w = CMap gs"
    by (cases w) auto
  let ?e = "\<lambda>(k, v). cbor_head 0 k @ cbor_encode v"
  have len: "length fs = length gs \<and> concat (map ?e fs) @ x = concat (map ?e gs) @ y"
    using CMap.prems by (intro head_inj [of 5 _ _ 5, THEN conjunct2]) (auto simp add: w)
  have ok: "int k \<le> max_safe_integer \<and> cbor_ok (d + 1) v" if "(k, v) \<in> set fs \<union> set gs" for k v
    using CMap.prems that by (auto simp add: w list_all_iff)
  have "f = g \<and> x = y" if f: "f \<in> set fs" and g: "g \<in> set gs" and eq: "?e f @ x = ?e g @ y" for f g x y
  proof -
    obtain k v k' v' where fg: "f = (k, v)" "g = (k', v')" by (cases f; cases g)
    have h: "k = k' \<and> cbor_encode v @ x = cbor_encode v' @ y"
      using eq ok [of k v] ok [of k' v'] f g fg
      by (intro head_inj [of 0 _ _ 0, THEN conjunct2]) (auto simp add: max_safe_integer_def)
    then have "v = v' \<and> x = y"
      using CMap.IH [of f v] ok [of k v] ok [of k' v'] f g fg by auto
    with h fg show ?thesis by simp
  qed
  then have "fs = gs \<and> x = y"
    using len by (intro concat_inj [of fs gs ?e]) blast+
  then show ?case by (simp add: w)
next
  case CFalse
  then have "cbor_major w = 7"
    using encode_major [of w] encode_major [of CFalse] by (metis cbor_major.simps(7) hd_append)
  with CFalse show ?case by (cases w) auto
next
  case CTrue
  then have "cbor_major w = 7"
    using encode_major [of w] encode_major [of CTrue] by (metis cbor_major.simps(8) hd_append)
  with CTrue show ?case by (cases w) auto
next
  case CNull
  then have "cbor_major w = 7"
    using encode_major [of w] encode_major [of CNull] by (metis cbor_major.simps(9) hd_append)
  with CNull show ?case by (cases w) auto
qed

lemma validate_iff:
  "validateCanonicalEncoding b = Inr () \<longleftrightarrow> (\<exists>v. cbor_ok 0 v \<and> b = cbor_encode v)"
proof
  assume "validateCanonicalEncoding b = Inr ()"
  then have "canonical_item b 0 0 = Inr (length b)"
    by (auto simp add: validateCanonicalEncoding_def res_simps split: if_splits)
  from item_sound_all(1) [OF this] show "\<exists>v. cbor_ok 0 v \<and> b = cbor_encode v"
    by auto
next
  assume "\<exists>v. cbor_ok 0 v \<and> b = cbor_encode v"
  then obtain v where "cbor_ok 0 v" "b = cbor_encode v" by blast
  then show "validateCanonicalEncoding b = Inr ()"
    using item_complete [of 0 v 0 b "[]"] by (simp add: validateCanonicalEncoding_def)
qed

section \<open>Properties of the wire representation\<close>

text \<open>
  C7. \<^verbatim>\<open>validateCanonicalEncoding\<close> accepts exactly the deterministic encodings of the values within
  the protocol's limits, and no byte string is the encoding of two of them: what it accepts has
  one reading, and every other byte string for the same value is refused.
\<close>

theorem canonical_encoding_iff:
  "(validateCanonicalEncoding b = Inr () \<longleftrightarrow> (\<exists>v. cbor_ok 0 v \<and> b = cbor_encode v)) \<and>
   (cbor_ok 0 v \<and> cbor_ok 0 w \<and> cbor_encode v = cbor_encode w \<longrightarrow> v = w)"
  using validate_iff encode_inj [of v "[]" w "[]" 0] by auto

theorem canonical_encoding_iff_witness:
  "validateCanonicalEncoding [0x82, 0x01, 0xa1, 0x00, 0x61, 0x41] = Inr ()"
proof -
  have "cbor_encode (CArray [CUnsigned 1, CMap [(0, CText [0x41])]]) = [0x82, 0x01, 0xa1, 0x00, 0x61, 0x41]"
    by (simp add: cbor_head_def octet_def)
  moreover have "cbor_ok 0 (CArray [CUnsigned 1, CMap [(0, CText [0x41])]])"
    by (simp add: max_safe_integer_def)
  ultimately have "\<exists>v. cbor_ok 0 v \<and> [0x82, 0x01, 0xa1, 0x00, 0x61, 0x41] = cbor_encode v"
    by (metis (no_types))
  then show ?thesis
    using canonical_encoding_iff [of "[0x82, 0x01, 0xa1, 0x00, 0x61, 0x41]" CNull CNull] by blast
qed

section \<open>JavaScript values\<close>

text \<open>
  The values that reach \<^verbatim>\<open>validateValue\<close>: a string is its UTF-16 code units, a \<^verbatim>\<open>Map\<close> its entries
  in insertion order, and \<open>JOther\<close> stands for every value of another type.
\<close>

type_synonym utf16 = "16 word list"

datatype js_value =
  JNull | JBool bool | JBytes bytes | JNumber js_number | JBigint int | JString utf16
| JArray "js_value list" | JMap "(js_value \<times> js_value) list" | JOther

datatype cbor_error = CborError | LimitError

fun isWellFormedUnicode :: "utf16 \<Rightarrow> bool" where
  "isWellFormedUnicode [] = True"
| "isWellFormedUnicode (current # rest) =
     (if 0xd800 \<le> current \<and> current \<le> 0xdbff then
        (case rest of
           [] \<Rightarrow> False
         | next' # rest' \<Rightarrow> if next' < 0xdc00 \<or> next' > 0xdfff then False else isWellFormedUnicode rest')
      else if 0xdc00 \<le> current \<and> current \<le> 0xdfff then False
      else isWellFormedUnicode rest)"

definition validateNumber :: "js_number \<Rightarrow> cbor_error + unit" where
  "validateNumber v = (if \<not> is_safe_integer v then Inl CborError else Inr ())"

text \<open>\<open>nfc\<close> is \<^verbatim>\<open>normalize('NFC')\<close>, whose tables are those of the Unicode Standard.\<close>

definition validateText :: "(utf16 \<Rightarrow> utf16) \<Rightarrow> utf16 \<Rightarrow> cbor_error + unit" where
  "validateText nfc v = (if \<not> isWellFormedUnicode v \<or> nfc v \<noteq> v then Inl CborError else Inr ())"

definition validateUnicodeText :: "utf16 \<Rightarrow> cbor_error + unit" where
  "validateUnicodeText v = (if \<not> isWellFormedUnicode v then Inl CborError else Inr ())"

fun schema_key :: "js_value \<Rightarrow> bool" where
  "schema_key (JNumber (Integral i)) = (is_safe_integer (Integral i) \<and> \<not> i < 0)"
| "schema_key _ = False"

fun validateValue :: "(utf16 \<Rightarrow> cbor_error + unit) \<Rightarrow> nat \<Rightarrow> js_value \<Rightarrow> cbor_error + unit"
  and validate_items :: "(utf16 \<Rightarrow> cbor_error + unit) \<Rightarrow> nat \<Rightarrow> js_value list \<Rightarrow> cbor_error + unit"
  and validate_fields ::
    "(utf16 \<Rightarrow> cbor_error + unit) \<Rightarrow> nat \<Rightarrow> (js_value \<times> js_value) list \<Rightarrow> cbor_error + unit" where
  "validateValue text depth v =
     (if depth > MAXIMUM_CBOR_DEPTH then Inl CborError
      else case v of
        JNull \<Rightarrow> Inr () | JBool _ \<Rightarrow> Inr () | JBytes _ \<Rightarrow> Inr ()
      | JNumber n \<Rightarrow> validateNumber n
      | JBigint _ \<Rightarrow> Inr ()
      | JString s \<Rightarrow> text s
      | JArray vs \<Rightarrow> if length vs > MAXIMUM_CBOR_ARRAY_ITEMS then Inl CborError
          else validate_items text (depth + 1) vs
      | JMap fs \<Rightarrow> if length fs > MAXIMUM_CBOR_MAP_FIELDS then Inl CborError
          else validate_fields text (depth + 1) fs
      | JOther \<Rightarrow> Inl CborError)"
| "validate_items text depth [] = Inr ()"
| "validate_items text depth (v # vs) =
     bindE (validateValue text depth v) (\<lambda>_. validate_items text depth vs)"
| "validate_fields text depth [] = Inr ()"
| "validate_fields text depth (f # fs) =
     (if \<not> schema_key (fst f) then Inl CborError
      else bindE (validateValue text depth (snd f)) (\<lambda>_. validate_fields text depth fs))"

text \<open>
  The third-party package \<^verbatim>\<open>cborg\<close>: \<open>cborg_encode\<close> and \<open>cborg_decode\<close> with the options of this
  module are parameters.
\<close>

definition encodeCanonicalCbor ::
  "(utf16 \<Rightarrow> utf16) \<Rightarrow> (js_value \<Rightarrow> 'e + bytes) \<Rightarrow> js_value \<Rightarrow> cbor_error + bytes" where
  "encodeCanonicalCbor nfc cborg_encode v =
     bindE (validateValue (validateText nfc) 0 v) (\<lambda>_.
     case cborg_encode v of Inl _ \<Rightarrow> Inl CborError | Inr b \<Rightarrow> Inr b)"

definition decodeCbor ::
  "(bytes \<Rightarrow> 'e + js_value) \<Rightarrow> bytes \<Rightarrow> js_number \<Rightarrow> (utf16 \<Rightarrow> cbor_error + unit) \<Rightarrow> cbor_error + js_value" where
  "decodeCbor cborg_decode encoded maximumBytes text =
     (case maximumBytes of
        Nonintegral \<Rightarrow> Inl LimitError
      | Integral m \<Rightarrow>
          if \<not> is_safe_integer maximumBytes \<or> m \<le> 0 then Inl LimitError
          else if length encoded = 0 \<or> int (length encoded) > m then Inl CborError
          else bindE (case validateCanonicalEncoding encoded of Inl _ \<Rightarrow> Inl CborError | Inr _ \<Rightarrow>
                      case cborg_decode encoded of Inl _ \<Rightarrow> Inl CborError | Inr v \<Rightarrow> Inr v) (\<lambda>decoded.
          bindE (validateValue text 0 decoded) (\<lambda>_. Inr decoded)))"

definition decodeCanonicalCbor ::
  "(utf16 \<Rightarrow> utf16) \<Rightarrow> (bytes \<Rightarrow> 'e + js_value) \<Rightarrow> bytes \<Rightarrow> js_number \<Rightarrow> cbor_error + js_value" where
  "decodeCanonicalCbor nfc cborg_decode encoded maximumBytes =
     decodeCbor cborg_decode encoded maximumBytes (validateText nfc)"

definition decodeCanonicalCborWithSchema ::
  "(bytes \<Rightarrow> 'e + js_value) \<Rightarrow> bytes \<Rightarrow> js_number \<Rightarrow> (js_value \<Rightarrow> cbor_error + 'a) \<Rightarrow> cbor_error + 'a" where
  "decodeCanonicalCborWithSchema cborg_decode encoded maximumBytes schema =
     bindE (decodeCbor cborg_decode encoded maximumBytes validateUnicodeText) schema"


subsection \<open>Reading fields\<close>

text \<open>\<^verbatim>\<open>Map.get\<close>; \<^verbatim>\<open>undefined\<close> is a value of another type.\<close>

fun map_get :: "(js_value \<times> js_value) list \<Rightarrow> int \<Rightarrow> js_value" where
  "map_get [] k = JOther"
| "map_get (f # fs) k = (if fst f = JNumber (Integral k) then snd f else map_get fs k)"

text \<open>\<^verbatim>\<open>items[i]\<close>, also \<^verbatim>\<open>undefined\<close> out of range.\<close>

definition item_at :: "js_value list \<Rightarrow> nat \<Rightarrow> js_value" where
  "item_at vs i = (if i < length vs then vs ! i else JOther)"

fun numeric_key :: "int list \<Rightarrow> js_value \<Rightarrow> bool" where
  "numeric_key keys (JNumber (Integral i)) = (is_safe_integer (Integral i) \<and> i \<in> set keys)"
| "numeric_key keys _ = False"

definition requireNumericMap :: "js_value \<Rightarrow> int list \<Rightarrow> cbor_error + (js_value \<times> js_value) list" where
  "requireNumericMap v keys =
     (case v of
        JMap fs \<Rightarrow> if length fs \<noteq> length keys then Inl CborError
          else if list_all (\<lambda>f. numeric_key keys (fst f)) fs then Inr fs else Inl CborError
      | _ \<Rightarrow> Inl CborError)"

definition requireArray :: "js_value \<Rightarrow> nat \<Rightarrow> cbor_error + js_value list" where
  "requireArray v maximumItems =
     (case v of JArray vs \<Rightarrow> if length vs > maximumItems then Inl CborError else Inr vs | _ \<Rightarrow> Inl CborError)"

definition requireByteField :: "js_value \<Rightarrow> nat option \<Rightarrow> bool \<Rightarrow> cbor_error + bytes" where
  "requireByteField v exactBytes nonzeroRequired =
     (case v of
        JBytes b \<Rightarrow>
          if (case exactBytes of None \<Rightarrow> False | Some n \<Rightarrow> length b \<noteq> n) \<or> (nonzeroRequired \<and> \<not> nonzero b)
          then Inl CborError else Inr b
      | _ \<Rightarrow> Inl CborError)"

fun integerValue :: "js_value \<Rightarrow> int option" where
  "integerValue (JBigint i) = Some i"
| "integerValue (JNumber (Integral i)) = (if is_safe_integer (Integral i) then Some i else None)"
| "integerValue _ = None"

definition requireUnsigned :: "js_value \<Rightarrow> cbor_error + int" where
  "requireUnsigned v =
     (case integerValue v of None \<Rightarrow> Inl CborError | Some i \<Rightarrow> if i < 0 then Inl CborError else Inr i)"

definition requireSigned :: "js_value \<Rightarrow> cbor_error + int" where
  "requireSigned v = (case integerValue v of None \<Rightarrow> Inl CborError | Some i \<Rightarrow> Inr i)"

definition requireText :: "(utf16 \<Rightarrow> utf16) \<Rightarrow> js_value \<Rightarrow> cbor_error + utf16" where
  "requireText nfc v =
     (case v of
        JString s \<Rightarrow> if \<not> isWellFormedUnicode s \<or> nfc s \<noteq> s then Inl CborError else Inr s
      | _ \<Rightarrow> Inl CborError)"

definition requireBoolean :: "js_value \<Rightarrow> cbor_error + bool" where
  "requireBoolean v = (case v of JBool b \<Rightarrow> Inr b | _ \<Rightarrow> Inl CborError)"

subsection \<open>Well-formed values\<close>

text \<open>The values of a message at nesting depth \<open>d\<close>, where \<open>T\<close> is the text policy.\<close>

inductive js_wf :: "(utf16 \<Rightarrow> bool) \<Rightarrow> nat \<Rightarrow> js_value \<Rightarrow> bool" for T where
  "d \<le> 16 \<Longrightarrow> js_wf T d JNull"
| "d \<le> 16 \<Longrightarrow> js_wf T d (JBool b)"
| "d \<le> 16 \<Longrightarrow> js_wf T d (JBytes bs)"
| "d \<le> 16 \<Longrightarrow> \<bar>i\<bar> \<le> max_safe_integer \<Longrightarrow> js_wf T d (JNumber (Integral i))"
| "d \<le> 16 \<Longrightarrow> js_wf T d (JBigint i)"
| "d \<le> 16 \<Longrightarrow> T s \<Longrightarrow> js_wf T d (JString s)"
| "d \<le> 16 \<Longrightarrow> length vs \<le> 2048 \<Longrightarrow> (\<And>v. v \<in> set vs \<Longrightarrow> js_wf T (Suc d) v) \<Longrightarrow> js_wf T d (JArray vs)"
| "d \<le> 16 \<Longrightarrow> length fs \<le> 256 \<Longrightarrow>
   (\<And>f. f \<in> set fs \<Longrightarrow> (\<exists>i. fst f = JNumber (Integral i) \<and> 0 \<le> i \<and> i \<le> max_safe_integer) \<and>
      js_wf T (Suc d) (snd f)) \<Longrightarrow> js_wf T d (JMap fs)"

lemma schema_key_iff: "schema_key k \<longleftrightarrow> (\<exists>i. k = JNumber (Integral i) \<and> 0 \<le> i \<and> i \<le> max_safe_integer)"
  by (cases k rule: schema_key.cases) (auto simp add: max_safe_integer_def)

lemma validateValue_sound:
  "validateValue tv d v = Inr u \<Longrightarrow> js_wf (\<lambda>s. tv s = Inr ()) d v"
  "validate_items tv d vs = Inr u \<Longrightarrow> \<forall>v \<in> set vs. js_wf (\<lambda>s. tv s = Inr ()) d v"
  "validate_fields tv d fs = Inr u \<Longrightarrow> \<forall>f \<in> set fs. schema_key (fst f) \<and> js_wf (\<lambda>s. tv s = Inr ()) d (snd f)"
proof (induction tv d v and tv d vs and tv d fs rule: validateValue_validate_items_validate_fields.induct)
  case (1 tv d v)
  have d: "d \<le> 16"
    using 1(3) by (auto simp add: cbor_limits split: if_splits)
  show ?case
  proof (cases v)
    case (JNumber n)
    with 1(3) d show ?thesis
      by (cases n) (auto simp add: validateNumber_def cbor_limits intro!: js_wf.intros split: if_splits)
  next
    case (JArray vs)
    then have "length vs \<le> 2048" "validate_items tv (d + 1) vs = Inr u"
      using 1(3) d by (auto simp add: cbor_limits split: if_splits)
    with 1(1) [OF _ JArray] d JArray show ?thesis
      by (auto simp add: cbor_limits intro!: js_wf.intros)
  next
    case (JMap fs)
    then have "length fs \<le> 256" "validate_fields tv (d + 1) fs = Inr u"
      using 1(3) d by (auto simp add: cbor_limits split: if_splits)
    with 1(2) [OF _ JMap] d JMap show ?thesis
      by (auto simp add: cbor_limits schema_key_iff intro!: js_wf.intros)
  qed (use 1(3) d in \<open>auto intro!: js_wf.intros simp add: cbor_limits\<close>)
qed (auto simp add: res_simps split: if_splits)

lemma js_wf_mono: "js_wf T d v \<Longrightarrow> (\<And>s. T s \<Longrightarrow> U s) \<Longrightarrow> js_wf U d v"
  by (induction rule: js_wf.induct) (auto intro!: js_wf.intros)

text \<open>
  C25. Whatever the CBOR package returns, \<^verbatim>\<open>decodeCanonicalCbor\<close> hands out a value only for a
  nonempty input within the byte limit that is the deterministic encoding of exactly one protocol
  value, and only a well-formed value: bounded nesting, arrays and maps, safe integers, nonnegative
  integer keys, and well-formed text in normal form.
\<close>

theorem decoded_values_well_formed:
  assumes "decodeCanonicalCbor nfc cborg_decode b limit = Inr x"
  shows "js_wf (\<lambda>s. isWellFormedUnicode s \<and> nfc s = s) 0 x \<and> cborg_decode b = Inr x \<and>
    (\<exists>!v. cbor_ok 0 v \<and> b = cbor_encode v) \<and>
    (\<exists>m. limit = Integral m \<and> 0 < int (length b) \<and> int (length b) \<le> m)"
proof -
  obtain m where m: "limit = Integral m" "length b \<noteq> 0" "int (length b) \<le> m"
      "validateCanonicalEncoding b = Inr ()" "cborg_decode b = Inr x" "validateValue (validateText nfc) 0 x = Inr ()"
    using assms by (cases limit) (auto simp add: decodeCanonicalCbor_def decodeCbor_def res_simps
        split: if_splits sum.splits)
  obtain v where v: "cbor_ok 0 v" "b = cbor_encode v"
    using m(4) validate_iff by blast
  have "\<exists>!v. cbor_ok 0 v \<and> b = cbor_encode v"
    using v encode_inj [of _ "[]" _ "[]" 0] by auto
  moreover have "js_wf (\<lambda>s. isWellFormedUnicode s \<and> nfc s = s) 0 x"
    using validateValue_sound(1) [OF m(6)] by (rule js_wf_mono) (simp add: validateText_def split: if_splits)
  ultimately show ?thesis
    using m by simp
qed

theorem decoded_values_well_formed_witness:
  "js_wf (\<lambda>s. isWellFormedUnicode s \<and> (\<lambda>s. s) s = s) 0 JNull"
proof -
  have "canonical_item [0xf6] 0 0 = Inr 1"
    by (simp add: canonical_item.simps next_byte_def cbor_limits)
  then have "decodeCanonicalCbor (\<lambda>s. s) (\<lambda>b. Inr JNull :: unit + js_value) [0xf6] (Integral 10) = Inr JNull"
    by (simp add: decodeCanonicalCbor_def decodeCbor_def validateCanonicalEncoding_def cbor_limits max_safe_integer_def)
  from decoded_values_well_formed [OF this] show ?thesis by simp
qed

end
