(* ===== verification/Content_Flow.thy ===== *)
theory Content_Flow
  imports Cbor
begin

text \<open>
The block flow between a receiver and a sender, \<^verbatim>\<open>content/flow.ts\<close>: the fragments a sealed block
  record is cut into, \<^verbatim>\<open>FragmentAssembler\<close>, which puts them together again, and the CBOR bodies of
  the catalog, open, block and lease operations. SHA-256, the clock, text normalisation and the CBOR
  package are parameters.
\<close>

unbundle bit_operations_syntax

section \<open>Block fragments\<close>

definition FRAGMENT_HEADER_BYTES :: nat where "FRAGMENT_HEADER_BYTES = 52"
definition FRAGMENT_PAYLOAD_BYTES :: nat where "FRAGMENT_PAYLOAD_BYTES = 65440"
definition MAXIMUM_FRAGMENTS :: nat where "MAXIMUM_FRAGMENTS = 128"
definition FRAGMENT_INACTIVITY_TIMEOUT_MILLISECONDS :: int where
  "FRAGMENT_INACTIVITY_TIMEOUT_MILLISECONDS = 15000"
definition FRAGMENT_TOMBSTONE_MILLISECONDS :: int where "FRAGMENT_TOMBSTONE_MILLISECONDS = 30000"
definition MAXIMUM_OPEN_BATCH :: nat where "MAXIMUM_OPEN_BATCH = 64"
definition MAXIMUM_REQUESTED_BLOCKS :: nat where "MAXIMUM_REQUESTED_BLOCKS = 256"
definition LEASE_TTL_MILLISECONDS :: int where "LEASE_TTL_MILLISECONDS = 120000"
definition LEASE_RENEW_AFTER_MILLISECONDS :: int where "LEASE_RENEW_AFTER_MILLISECONDS = 60000"
definition REVISION_RETRY_MINIMUM_MILLISECONDS :: int where "REVISION_RETRY_MINIMUM_MILLISECONDS = 1"
definition REVISION_RETRY_MAXIMUM_MILLISECONDS :: int where "REVISION_RETRY_MAXIMUM_MILLISECONDS = 30000"

lemmas flow_limits = FRAGMENT_HEADER_BYTES_def FRAGMENT_PAYLOAD_BYTES_def MAXIMUM_FRAGMENTS_def
  FRAGMENT_INACTIVITY_TIMEOUT_MILLISECONDS_def FRAGMENT_TOMBSTONE_MILLISECONDS_def MAXIMUM_OPEN_BATCH_def
  MAXIMUM_REQUESTED_BLOCKS_def LEASE_TTL_MILLISECONDS_def LEASE_RENEW_AFTER_MILLISECONDS_def
  REVISION_RETRY_MINIMUM_MILLISECONDS_def REVISION_RETRY_MAXIMUM_MILLISECONDS_def

datatype flow_error = FlowCborError | FragmentInactivityError

definition lift_cbor :: "cbor_error + 'a \<Rightarrow> flow_error + 'a" where
  "lift_cbor m = (case m of Inl _ \<Rightarrow> Inl FlowCborError | Inr a \<Rightarrow> Inr a)"

record decoded_fragment =
  df_operationId :: bytes
  df_recordId :: bytes
  df_index :: nat
  df_count :: nat
  df_totalLength :: nat
  df_payload :: bytes

definition decodeFragment :: "bytes \<Rightarrow> flow_error + decoded_fragment" where
  "decodeFragment plaintext =
     (if length plaintext < FRAGMENT_HEADER_BYTES \<or> length plaintext > 65492 \<or>
         byte_at plaintext 0 \<noteq> Some 1 \<or> byte_at plaintext 1 \<noteq> Some 8 \<or>
         (case byte_at plaintext 2 of None \<Rightarrow> 0 | Some b \<Rightarrow> b) AND NOT 1 \<noteq> 0 \<or>
         byte_at plaintext 3 \<noteq> Some 0 then Inl FlowCborError
      else
        bindE (lift_cbor (requireByteField (JBytes (subarray 4 20 plaintext)) (Some 16) True)) (\<lambda>operationId.
        bindE (lift_cbor (requireByteField (JBytes (subarray 20 36 plaintext)) (Some 16) True)) (\<lambda>recordId.
        let index = get_uint 4 36 plaintext;
            count = get_uint 4 40 plaintext;
            totalLength = get_uint 4 44 plaintext;
            payloadLength = get_uint 4 48 plaintext;
            last' = (case byte_at plaintext 2 of None \<Rightarrow> 0 | Some b \<Rightarrow> b) = 1;
            expectedCount = (totalLength + FRAGMENT_PAYLOAD_BYTES - 1) div FRAGMENT_PAYLOAD_BYTES;
            expectedPayload = (if last' then int totalLength - (int count - 1) * int FRAGMENT_PAYLOAD_BYTES
                               else int FRAGMENT_PAYLOAD_BYTES) in
        if count = 0 \<or> count > MAXIMUM_FRAGMENTS \<or> index \<ge> count \<or>
           totalLength = 0 \<or> totalLength > 4 * 1024 * 1024 + 512 \<or>
           count \<noteq> expectedCount \<or> last' \<noteq> (int index = int count - 1) \<or>
           int payloadLength \<noteq> int (length plaintext) - int FRAGMENT_HEADER_BYTES \<or>
           int payloadLength \<noteq> expectedPayload then Inl FlowCborError
        else Inr \<lparr>df_operationId = operationId, df_recordId = recordId, df_index = index,
          df_count = count, df_totalLength = totalLength,
          df_payload = subarray FRAGMENT_HEADER_BYTES (length plaintext) plaintext\<rparr>)))"

section \<open>\<open>FragmentAssembler\<close>\<close>

record assembler =
  fa_operationId :: bytes
  fa_recordId :: "bytes option"
  fa_fragments :: "bytes option list"
  fa_count :: nat
  fa_totalLength :: nat
  fa_received :: nat
  fa_receivedFragments :: nat
  fa_lastProgressAt :: int
  fa_cancelledAt :: "int option"

datatype assembly_result =
  Duplicate | Tombstoned | Accepted nat | Complete nat bytes

definition new_assembler :: "bytes \<Rightarrow> cbor_error + assembler" where
  "new_assembler operationId =
     bindE (requireByteField (JBytes operationId) (Some 16) True) (\<lambda>i.
     Inr \<lparr>fa_operationId = i, fa_recordId = None, fa_fragments = [], fa_count = 0, fa_totalLength = 0,
       fa_received = 0, fa_receivedFragments = 0, fa_lastProgressAt = 0, fa_cancelledAt = None\<rparr>)"

definition assembler_start :: "decoded_fragment \<Rightarrow> int \<Rightarrow> assembler \<Rightarrow> assembler" where
  "assembler_start f now a = a\<lparr>fa_recordId := Some (df_recordId f), fa_count := df_count f,
     fa_totalLength := df_totalLength f, fa_fragments := replicate (df_count f) None,
     fa_lastProgressAt := now, fa_received := 0, fa_receivedFragments := 0\<rparr>"

definition requireIdentity :: "decoded_fragment \<Rightarrow> assembler \<Rightarrow> bool" where
  "requireIdentity f a =
     (case fa_recordId a of
        None \<Rightarrow> False
      | Some r \<Rightarrow> equalBytes (df_recordId f) r \<and> df_count f = fa_count a \<and> df_totalLength f = fa_totalLength a)"

text \<open>\<^verbatim>\<open>array[i]\<close> and \<^verbatim>\<open>array[i] = v\<close> on a JavaScript array, which extends it with holes.\<close>

definition js_get :: "'a option list \<Rightarrow> nat \<Rightarrow> 'a option" where
  "js_get xs i = (if i < length xs then xs ! i else None)"

definition js_set :: "'a option list \<Rightarrow> nat \<Rightarrow> 'a \<Rightarrow> 'a option list" where
  "js_set xs i v = (if i < length xs then xs[i := Some v] else xs @ replicate (i - length xs) None @ [Some v])"

text \<open>The copying loop into the new object.\<close>

fun copy_fragments :: "bytes \<Rightarrow> nat \<Rightarrow> bytes option list \<Rightarrow> flow_error + bytes" where
  "copy_fragments object offset [] = Inr object"
| "copy_fragments object offset (None # ps) = Inl FlowCborError"
| "copy_fragments object offset (Some p # ps) =
     copy_fragments (set_at offset p object) (offset + length p) ps"

text \<open>
  \<^verbatim>\<open>accept\<close>: the state after the call, and its result. \<open>sha\<close> is SHA-256, \<open>now\<close> the clock reading.
\<close>

definition assembler_accept ::
  "(bytes \<Rightarrow> bytes) \<Rightarrow> int \<Rightarrow> bytes \<Rightarrow> assembler \<Rightarrow> assembler \<times> (flow_error + assembly_result)" where
  "assembler_accept sha now plaintext a =
     (case fa_cancelledAt a of
        Some c \<Rightarrow>
          (a, if now - c \<le> FRAGMENT_TOMBSTONE_MILLISECONDS then Inr Tombstoned else Inl FlowCborError)
      | None \<Rightarrow>
        (case decodeFragment plaintext of
           Inl e \<Rightarrow> (a, Inl e)
         | Inr f \<Rightarrow>
           if \<not> equalBytes (df_operationId f) (fa_operationId a) then (a, Inl FlowCborError)
           else let a1 = (if fa_recordId a = None then assembler_start f now a else a) in
           if \<not> requireIdentity f a1 then (a1, Inl FlowCborError)
           else if now - fa_lastProgressAt a1 \<ge> FRAGMENT_INACTIVITY_TIMEOUT_MILLISECONDS
           then (a1, Inl FragmentInactivityError)
           else (case js_get (fa_fragments a1) (df_index f) of
              Some existing \<Rightarrow>
                (a1, if \<not> equalBytes existing (df_payload f) then Inl FlowCborError else Inr Duplicate)
            | None \<Rightarrow>
                let a2 = a1\<lparr>fa_fragments := js_set (fa_fragments a1) (df_index f) (df_payload f),
                       fa_received := fa_received a1 + length (df_payload f),
                       fa_receivedFragments := fa_receivedFragments a1 + 1,
                       fa_lastProgressAt := now\<rparr> in
                (a2,
                 if fa_receivedFragments a2 \<noteq> fa_count a2 then Inr (Accepted (length (df_payload f)))
                 else if fa_received a2 \<noteq> fa_totalLength a2 then Inl FlowCborError
                 else bindE (copy_fragments (replicate (fa_totalLength a2) 0) 0 (fa_fragments a2)) (\<lambda>object.
                   if (case fa_recordId a2 of None \<Rightarrow> True
                       | Some r \<Rightarrow> \<not> equalBytes (subarray 0 16 (sha object)) r)
                   then Inl FlowCborError
                   else Inr (Complete (length (df_payload f)) object))))))"

definition assembler_cancel :: "int \<Rightarrow> assembler \<Rightarrow> assembler" where
  "assembler_cancel now a = a\<lparr>fa_cancelledAt := (case fa_cancelledAt a of None \<Rightarrow> Some now | c \<Rightarrow> c),
     fa_fragments := [], fa_received := 0, fa_receivedFragments := 0\<rparr>"


section \<open>Requests and results\<close>

text \<open>
  \<open>nfc\<close>, \<open>cborg_encode\<close> and \<open>cborg_decode\<close> are the parameters of the CBOR module. The body limit
  of the results is 65492 octets.
\<close>

record remote_lease =
  rl_id :: bytes
  rl_ttlMilliseconds :: int
  rl_renewAfterMilliseconds :: int

record revision_failure =
  rf_code :: int
  rf_retryable :: bool
  rf_retryAfterMilliseconds :: "int option"

datatype open_outcome = Opened_revision bytes remote_lease | Refused revision_failure

record open_result =
  or_fileId :: bytes
  or_outcome :: open_outcome

fun page_index :: "js_number \<Rightarrow> bool" where
  "page_index (Integral i) = (\<not> (i < 0 \<or> i > 0xffffffff))"
| "page_index Nonintegral = False"

definition encodeListRequest ::
  "(utf16 \<Rightarrow> utf16) \<Rightarrow> (js_value \<Rightarrow> 'e + bytes) \<Rightarrow> bytes \<Rightarrow> bytes option \<Rightarrow> js_number \<Rightarrow> cbor_error + bytes" where
  "encodeListRequest nfc cborg_encode directoryId generation pageIndex =
     (if \<not> page_index pageIndex then Inl CborError
      else if (case pageIndex of Integral i \<Rightarrow> i > 0 | Nonintegral \<Rightarrow> False) \<and> generation = None
      then Inl CborError
      else bindE (requireByteField (JBytes directoryId) (Some 16) True) (\<lambda>d.
        bindE (case generation of None \<Rightarrow> Inr JNull
               | Some g \<Rightarrow> bindE (requireByteField (JBytes g) (Some 16) True) (\<lambda>g'. Inr (JBytes g'))) (\<lambda>g.
        encodeCanonicalCbor nfc cborg_encode (JArray [JBytes d, g, JNumber pageIndex]))))"

definition requireSchema :: "js_value \<Rightarrow> cbor_error + unit" where
  "requireSchema v = bindE (requireUnsigned v) (\<lambda>i. if i \<noteq> 1 then Inl CborError else Inr ())"

definition decodeCatalogResult ::
  "(utf16 \<Rightarrow> utf16) \<Rightarrow> (bytes \<Rightarrow> 'e + js_value) \<Rightarrow> bytes \<Rightarrow> cbor_error + bytes" where
  "decodeCatalogResult nfc cborg_decode body =
     bindE (decodeCanonicalCbor nfc cborg_decode body (Integral 65492)) (\<lambda>v.
     bindE (requireNumericMap v [0, 1]) (\<lambda>fields.
     bindE (requireSchema (map_get fields 0)) (\<lambda>_.
     requireByteField (map_get fields 1) None True)))"

fun open_ranges :: "(int \<times> int) list \<Rightarrow> cbor_error + js_value list" where
  "open_ranges [] = Inr []"
| "open_ranges ((start, end') # rs) =
     (if start < 0 \<or> end' \<le> start then Inl CborError
      else bindE (open_ranges rs) (\<lambda>vs. Inr (JArray [JBigint start, JBigint end'] # vs)))"

definition encodeOpenRequest ::
  "(utf16 \<Rightarrow> utf16) \<Rightarrow> (js_value \<Rightarrow> 'e + bytes) \<Rightarrow> bytes \<Rightarrow> (int \<times> int) list \<Rightarrow> cbor_error + bytes" where
  "encodeOpenRequest nfc cborg_encode fileId initialRanges =
     (if length initialRanges > 256 then Inl CborError
      else bindE (open_ranges initialRanges) (\<lambda>ranges.
        bindE (requireByteField (JBytes fileId) (Some 16) True) (\<lambda>i.
        encodeCanonicalCbor nfc cborg_encode (JArray [JArray [JBytes i, JArray ranges]]))))"

definition decodeOpenResults ::
  "(utf16 \<Rightarrow> utf16) \<Rightarrow> (bytes \<Rightarrow> 'e + js_value) \<Rightarrow> bytes \<Rightarrow> bytes \<Rightarrow> cbor_error + open_result" where
  "decodeOpenResults nfc cborg_decode body expectedFileId =
     bindE (decodeCanonicalCbor nfc cborg_decode body (Integral 65492)) (\<lambda>v.
     bindE (requireNumericMap v [0, 1]) (\<lambda>fields.
     bindE (requireSchema (map_get fields 0)) (\<lambda>_.
     bindE (requireArray (map_get fields 1) MAXIMUM_OPEN_BATCH) (\<lambda>items.
     if length items \<noteq> 1 then Inl CborError
     else bindE (requireArray (item_at items 0) 6) (\<lambda>item.
     bindE (requireByteField (item_at item 0) (Some 16) True) (\<lambda>fileId.
     if \<not> equalBytes fileId expectedFileId then Inl CborError
     else bindE (requireUnsigned (item_at item 1)) (\<lambda>status.
     if status = 0 \<and> length item = 6 then
       bindE (requireByteField (item_at item 2) None True) (\<lambda>revisionObject.
       bindE (requireByteField (item_at item 3) (Some 16) True) (\<lambda>leaseId.
       bindE (requireUnsigned (item_at item 4)) (\<lambda>ttl.
       bindE (requireUnsigned (item_at item 5)) (\<lambda>renewAfter.
       if ttl \<noteq> LEASE_TTL_MILLISECONDS \<or> renewAfter \<noteq> LEASE_RENEW_AFTER_MILLISECONDS then Inl CborError
       else Inr \<lparr>or_fileId = fileId, or_outcome = Opened_revision revisionObject
         \<lparr>rl_id = leaseId, rl_ttlMilliseconds = ttl, rl_renewAfterMilliseconds = renewAfter\<rparr>\<rparr>))))
     else if status \<noteq> 1 \<or> length item \<noteq> 5 then Inl CborError
     else
       bindE (requireUnsigned (item_at item 2)) (\<lambda>code.
       bindE (requireBoolean (item_at item 3)) (\<lambda>retryable.
       if code < 0x3001 \<or> code > 0x3008 then Inl CborError
       else bindE
         (if retryable then
            bindE (requireUnsigned (item_at item 4)) (\<lambda>delay.
            if delay < REVISION_RETRY_MINIMUM_MILLISECONDS \<or> delay > REVISION_RETRY_MAXIMUM_MILLISECONDS
            then Inl CborError else Inr (Some delay))
          else if item_at item 4 \<noteq> JNull then Inl CborError else Inr None) (\<lambda>retryAfter.
       Inr \<lparr>or_fileId = fileId, or_outcome = Refused
         \<lparr>rf_code = code, rf_retryable = retryable, rf_retryAfterMilliseconds = retryAfter\<rparr>\<rparr>)))))))))) "

fun increasing_from :: "int option \<Rightarrow> int list \<Rightarrow> bool" where
  "increasing_from previous [] = True"
| "increasing_from previous (i # is) =
     (if i < 0 \<or> (case previous of None \<Rightarrow> False | Some p \<Rightarrow> i \<le> p) then False
      else increasing_from (Some i) is)"

definition encodeBlockRequest ::
  "(utf16 \<Rightarrow> utf16) \<Rightarrow> (js_value \<Rightarrow> 'e + bytes) \<Rightarrow> bytes \<Rightarrow> int list \<Rightarrow> cbor_error + bytes" where
  "encodeBlockRequest nfc cborg_encode leaseId indices =
     (if length indices = 0 \<or> length indices > MAXIMUM_REQUESTED_BLOCKS then Inl CborError
      else if \<not> increasing_from None indices then Inl CborError
      else bindE (requireByteField (JBytes leaseId) (Some 16) True) (\<lambda>i.
        encodeCanonicalCbor nfc cborg_encode (JArray [JBytes i, JArray (map JBigint indices)])))"

definition encodeLeaseRequest ::
  "(utf16 \<Rightarrow> utf16) \<Rightarrow> (js_value \<Rightarrow> 'e + bytes) \<Rightarrow> bytes \<Rightarrow> cbor_error + bytes" where
  "encodeLeaseRequest nfc cborg_encode leaseId =
     bindE (requireByteField (JBytes leaseId) (Some 16) True) (\<lambda>i.
     encodeCanonicalCbor nfc cborg_encode (JArray [JBytes i]))"

definition decodeLeaseResult ::
  "(utf16 \<Rightarrow> utf16) \<Rightarrow> (bytes \<Rightarrow> 'e + js_value) \<Rightarrow> bytes \<Rightarrow> bytes \<Rightarrow> cbor_error + remote_lease" where
  "decodeLeaseResult nfc cborg_decode body expectedLeaseId =
     bindE (decodeCanonicalCbor nfc cborg_decode body (Integral 65492)) (\<lambda>v.
     bindE (requireNumericMap v [0, 1, 2, 3]) (\<lambda>fields.
     bindE (requireSchema (map_get fields 0)) (\<lambda>_.
     bindE (requireByteField (map_get fields 1) (Some 16) True) (\<lambda>i.
     bindE (requireUnsigned (map_get fields 2)) (\<lambda>ttl.
     bindE (requireUnsigned (map_get fields 3)) (\<lambda>renewAfter.
     if \<not> equalBytes i expectedLeaseId \<or> ttl \<noteq> LEASE_TTL_MILLISECONDS \<or>
        renewAfter \<noteq> LEASE_RENEW_AFTER_MILLISECONDS then Inl CborError
     else Inr \<lparr>rl_id = i, rl_ttlMilliseconds = ttl, rl_renewAfterMilliseconds = renewAfter\<rparr>))))))"

definition decodeOperationComplete ::
  "(utf16 \<Rightarrow> utf16) \<Rightarrow> (bytes \<Rightarrow> 'e + js_value) \<Rightarrow> bytes \<Rightarrow> cbor_error + int" where
  "decodeOperationComplete nfc cborg_decode body =
     bindE (decodeCanonicalCbor nfc cborg_decode body (Integral 65492)) (\<lambda>v.
     bindE (requireNumericMap v [0, 1]) (\<lambda>fields.
     bindE (requireSchema (map_get fields 0)) (\<lambda>_.
     bindE (requireUnsigned (map_get fields 1)) (\<lambda>count.
     if count > 0xffffffff then Inl CborError else Inr count))))"


section \<open>The fragment layout\<close>

definition fragment_ok :: "decoded_fragment \<Rightarrow> bool" where
  "fragment_ok f \<longleftrightarrow> length (df_operationId f) = 16 \<and> nonzero (df_operationId f) \<and>
     length (df_recordId f) = 16 \<and> nonzero (df_recordId f) \<and> df_index f < df_count f \<and>
     df_count f = (df_totalLength f + 65439) div 65440 \<and>
     0 < df_totalLength f \<and> df_totalLength f \<le> 4194816 \<and>
     length (df_payload f) =
       (if Suc (df_index f) = df_count f then df_totalLength f - df_index f * 65440 else 65440)"

definition fragment_wire :: "decoded_fragment \<Rightarrow> bytes" where
  "fragment_wire f = [1, 8, if Suc (df_index f) = df_count f then 1 else 0, 0] @
     df_operationId f @ df_recordId f @ be_bytes 4 (df_index f) @ be_bytes 4 (df_count f) @
     be_bytes 4 (df_totalLength f) @ be_bytes 4 (length (df_payload f)) @ df_payload f"

lemma fragment_arith:
  assumes "c = (t + 65439) div 65440" "0 < t" "i < c"
  shows "i * 65440 < t" "t \<le> c * 65440" "Suc i \<noteq> c \<Longrightarrow> Suc i * 65440 < t"
proof -
  have "c * 65440 \<le> t + 65439" "t + 65439 < Suc c * 65440"
    using assms(1) div_mult_mod_eq [of "t + 65439" 65440] mod_less_divisor [of 65440 "t + 65439"] by auto
  then show "i * 65440 < t" "t \<le> c * 65440" "Suc i \<noteq> c \<Longrightarrow> Suc i * 65440 < t"
    using assms(3) by auto
qed

lemma fragment_okD:
  assumes "fragment_ok f"
  shows "length (df_operationId f) = 16" "nonzero (df_operationId f)" "length (df_recordId f) = 16"
    "nonzero (df_recordId f)" "df_index f < df_count f" "df_count f = (df_totalLength f + 65439) div 65440"
    "0 < df_totalLength f" "df_totalLength f \<le> 4194816"
    "length (df_payload f) = (if Suc (df_index f) = df_count f then df_totalLength f - df_index f * 65440 else 65440)"
  using assms unfolding fragment_ok_def by auto

lemma fragment_ok_bounds:
  assumes ok: "fragment_ok f"
  shows "df_index f < 256 ^ 4" "df_count f < 256 ^ 4" "df_totalLength f < 256 ^ 4"
    "length (df_payload f) \<le> 65440" "df_count f \<le> 65" "df_count f \<noteq> 0"
    "df_index f * 65440 + length (df_payload f) \<le> df_totalLength f"
proof -
  note d = fragment_okD [OF ok] and ar = fragment_arith [OF fragment_okD(6,7,5) [OF ok]]
  have "(df_totalLength f + 65439) div 65440 \<le> (4194816 + 65439) div 65440"
    using d(8) by (intro div_le_mono) simp
  then show c: "df_count f \<le> 65"
    using d(6) by simp
  with d(5,8) show "df_index f < 256 ^ 4" "df_count f < 256 ^ 4" "df_count f \<noteq> 0" "df_totalLength f < 256 ^ 4"
    by auto
  show "length (df_payload f) \<le> 65440" "df_index f * 65440 + length (df_payload f) \<le> df_totalLength f"
    using d(9) ar by (auto split: if_splits)
qed

lemma requireByteField_bytes [res_simps]:
  "requireByteField (JBytes b) (Some n) True = Inr x \<longleftrightarrow> length b = n \<and> nonzero b \<and> x = b"
  by (auto simp add: requireByteField_def)

lemma lift_cbor_Inr [res_simps]: "lift_cbor m = Inr x \<longleftrightarrow> m = Inr x"
  by (cases m) (simp_all add: lift_cbor_def)

lemma decode_wire:
  assumes ok: "fragment_ok f"
  shows "decodeFragment (fragment_wire f) = Inr f"
proof -
  let ?p = "fragment_wire f"
  note b = fragment_ok_bounds [OF ok] and d = fragment_okD [OF ok]
  have plen: "length ?p = 52 + length (df_payload f)"
    by (simp add: fragment_wire_def d)
  have ids: "subarray 4 20 ?p = df_operationId f" "subarray 20 36 ?p = df_recordId f"
    by (simp_all add: fragment_wire_def subarray_def d)
  have nums: "get_uint 4 36 ?p = df_index f" "get_uint 4 40 ?p = df_count f"
      "get_uint 4 44 ?p = df_totalLength f" "get_uint 4 48 ?p = length (df_payload f)"
    using b by (simp_all add: fragment_wire_def get_uint_def d(1-4))
  have pay: "subarray 52 (length ?p) ?p = df_payload f"
    by (simp add: fragment_wire_def subarray_def d(1-4))
  have hdr: "byte_at ?p 0 = Some 1" "byte_at ?p 1 = Some 8" "byte_at ?p 3 = Some 0"
      "byte_at ?p 2 = Some (if Suc (df_index f) = df_count f then 1 else 0)"
    by (simp_all add: fragment_wire_def byte_at_def)
  let ?last = "Suc (df_index f) = df_count f"
  have exp: "int (length (df_payload f)) = (if ?last
      then int (df_totalLength f) - (int (df_count f) - 1) * 65440 else 65440)"
    using d(9) b(7) by (auto simp add: of_nat_diff)
  have last: "(int (df_index f) = int (df_count f) - 1) = ?last"
    by linarith
  have flag: "(if ?last then (1 :: byte) else 0) AND NOT 1 = 0" "((if ?last then (1 :: byte) else 0) = 1) = ?last"
    by simp_all
  have cnt: "(df_totalLength f + FRAGMENT_PAYLOAD_BYTES - 1) div FRAGMENT_PAYLOAD_BYTES = df_count f"
    using d(6) by (simp add: flow_limits)
  have eta: "\<lparr>df_operationId = df_operationId f, df_recordId = df_recordId f, df_index = df_index f,
      df_count = df_count f, df_totalLength = df_totalLength f, df_payload = df_payload f\<rparr> = f"
    by (cases f) simp
  have ok_ids: "lift_cbor (requireByteField (JBytes (df_operationId f)) (Some 16) True) = Inr (df_operationId f)"
    "lift_cbor (requireByteField (JBytes (df_recordId f)) (Some 16) True) = Inr (df_recordId f)"
    using d(1-4) by (simp_all add: requireByteField_def lift_cbor_def)
  have small: "\<not> df_count f > 128" "\<not> df_index f \<ge> df_count f" "df_totalLength f \<noteq> 0"
    "\<not> df_totalLength f > 4194816" "\<not> 52 + length (df_payload f) > 65492"
    using b(4,5) d(5,7,8) by simp_all
  show ?thesis
    unfolding decodeFragment_def hdr ids nums Let_def option.case flag cnt last ok_ids bindE_Inr
    using small b(6) exp pay eta by (simp add: plen flow_limits)
qed


lemma byte_flag: "(w :: byte) AND NOT 1 = 0 \<longleftrightarrow> w = 0 \<or> w = 1"
proof
  assume z: "w AND NOT 1 = 0"
  have "w = (w AND 1) OR (w AND NOT 1)"
    by (rule bit_eqI) (simp only: bit_and_iff bit_or_iff bit_not_iff, blast)
  also have "\<dots> = w AND 1"
    unfolding z by simp
  also have "\<dots> = (if even w then 0 else 1)"
    unfolding and_one_eq by (rule mod2_eq_if)
  finally show "w = 0 \<or> w = 1"
    by (auto split: if_splits)
next
  assume "w = 0 \<or> w = 1"
  then show "w AND NOT 1 = 0" by (elim disjE) simp_all
qed
lemma be_bytes_get: "off + k \<le> length p \<Longrightarrow> be_bytes k (get_uint k off p) = subarray off (off + k) p"
  by (simp add: get_uint_def subarray_def)

lemma take_four: "4 \<le> length p \<Longrightarrow> take 4 p = [p ! 0, p ! 1, p ! 2, p ! 3]"
  by (rule nth_equalityI) (auto simp add: less_Suc_eq numeral_eq_Suc)

lemma split_fragment:
  assumes "52 \<le> length p"
  shows "p = [p ! 0, p ! 1, p ! 2, p ! 3] @ subarray 4 20 p @ subarray 20 36 p @ subarray 36 40 p @
    subarray 40 44 p @ subarray 44 48 p @ subarray 48 52 p @ subarray 52 (length p) p"
proof -
  have "p = take 4 p @ subarray 4 20 p @ subarray 20 36 p @ subarray 36 40 p @
    subarray 40 44 p @ subarray 44 48 p @ subarray 48 52 p @ drop 52 p"
    by (simp add: subarray_join_drop)
  then show ?thesis
    using assms take_four [of p] subarray_is_drop [of p "length p" 52] by simp
qed

lemma decode_sound:
  assumes "decodeFragment p = Inr f"
  shows "fragment_ok f \<and> p = fragment_wire f"
proof -
  let ?flag = "p ! 2"
  note a = assms [unfolded decodeFragment_def if_Inl_eq_Inr bindE_eq_Inr lift_cbor_Inr requireByteField_bytes
      Let_def de_Morgan_disj not_less not_not]
  have len: "52 \<le> length p" "length p \<le> 65492"
    using a unfolding flow_limits by blast+
  have at: "byte_at p 0 = Some (p ! 0)" "byte_at p 1 = Some (p ! 1)" "byte_at p 2 = Some ?flag" "byte_at p 3 = Some (p ! 3)"
    using len by (auto simp add: byte_at_def)
  note b = a [unfolded at option.case option.inject]
  have hdr: "p ! 0 = 1" "p ! 1 = 8" "p ! 3 = 0" "?flag AND NOT 1 = 0"
    using b by blast+
  have f: "f = \<lparr>df_operationId = subarray 4 20 p, df_recordId = subarray 20 36 p, df_index = get_uint 4 36 p,
      df_count = get_uint 4 40 p, df_totalLength = get_uint 4 44 p, df_payload = subarray 52 (length p) p\<rparr>"
    using b unfolding flow_limits by blast
  have ids: "length (subarray 4 20 p) = 16" "nonzero (subarray 4 20 p)"
      "length (subarray 20 36 p) = 16" "nonzero (subarray 20 36 p)"
    using b by blast+
  have geo: "get_uint 4 36 p < get_uint 4 40 p" "0 < get_uint 4 44 p" "get_uint 4 44 p \<le> 4194816"
    using b by auto
  have cnt: "get_uint 4 40 p = (get_uint 4 44 p + 65439) div 65440"
    using b by (simp add: flow_limits)
  have pays: "(?flag = 1) = (int (get_uint 4 36 p) = int (get_uint 4 40 p) - 1)"
      "int (get_uint 4 48 p) = int (length p) - int 52"
      "int (get_uint 4 48 p) = (if ?flag = 1 then int (get_uint 4 44 p) - (int (get_uint 4 40 p) - 1) * int 65440 else int 65440)"
    using b unfolding flow_limits by blast+
  have last: "?flag = 1 \<longleftrightarrow> Suc (get_uint 4 36 p) = get_uint 4 40 p"
    using pays(1) by linarith
  have flag: "?flag = (if Suc (get_uint 4 36 p) = get_uint 4 40 p then 1 else 0)"
    using hdr(4) [unfolded byte_flag] last by auto
  have plen: "length (subarray 52 (length p) p) = get_uint 4 48 p"
    using pays(2) len by simp
  have "get_uint 4 36 p * 65440 < get_uint 4 44 p"
    by (rule fragment_arith(1) [OF cnt geo(2,1)])
  then have "fragment_ok f"
    using ids geo cnt plen last pays(3) by (auto simp add: f fragment_ok_def of_nat_diff split: if_splits)
  moreover have "fragment_wire f = p"
  proof -
    have "fragment_wire f = [p ! 0, p ! 1, p ! 2, p ! 3] @ subarray 4 20 p @ subarray 20 36 p @ subarray 36 40 p @
      subarray 40 44 p @ subarray 44 48 p @ subarray 48 52 p @ subarray 52 (length p) p"
      unfolding fragment_wire_def f decoded_fragment.select_convs plen flag [symmetric]
      using len be_bytes_get [of 36 4 p] be_bytes_get [of 40 4 p] be_bytes_get [of 44 4 p] be_bytes_get [of 48 4 p]
      by (simp add: hdr hdr(2) [simplified])
    also have "\<dots> = p"
      using split_fragment [OF len(1)] by (rule sym)
    finally show ?thesis .
  qed
  ultimately show ?thesis by simp
qed

section \<open>Reassembly\<close>

text \<open>The sender cuts an object into chunks of the payload size.\<close>

definition chunk :: "bytes \<Rightarrow> nat \<Rightarrow> bytes" where
  "chunk object i = take 65440 (drop (i * 65440) object)"

definition chunks :: "bytes \<Rightarrow> nat" where
  "chunks object = (length object + 65439) div 65440"

definition fragment_of :: "bytes \<Rightarrow> bytes \<Rightarrow> bytes \<Rightarrow> nat \<Rightarrow> decoded_fragment" where
  "fragment_of oid rid object i = \<lparr>df_operationId = oid, df_recordId = rid, df_index = i,
     df_count = chunks object, df_totalLength = length object, df_payload = chunk object i\<rparr>"

lemma concat_chunks: "concat (map (chunk object) [0..<n]) = take (n * 65440) object"
  by (induction n) (simp_all add: chunk_def take_add [symmetric] add.commute)

lemma concat_all_chunks: "concat (map (chunk object) [0..<chunks object]) = object"
proof -
  have "length object \<le> chunks object * 65440"
    using div_mult_mod_eq [of "length object + 65439" 65440] mod_less_divisor [of 65440 "length object + 65439"]
    unfolding chunks_def by linarith
  then show ?thesis by (simp add: concat_chunks)
qed

lemma fragment_of_ok:
  assumes "length oid = 16" "nonzero oid" "length rid = 16" "nonzero rid"
    "0 < length object" "length object \<le> 4194816" "i < chunks object"
  shows "fragment_ok (fragment_of oid rid object i)"
proof -
  note ar = fragment_arith [OF chunks_def assms(5,7)]
  have "Suc i * 65440 \<le> length object" if "Suc i \<noteq> chunks object"
    using ar(3) [OF that] by simp
  moreover have "length object - i * 65440 \<le> 65440" if "Suc i = chunks object"
    using ar(2) unfolding that [symmetric] by simp
  ultimately have "length (chunk object i) = (if Suc i = chunks object then length object - i * 65440 else 65440)"
    by (auto simp add: chunk_def)
  then show ?thesis
    using assms by (simp add: fragment_ok_def fragment_of_def chunks_def)
qed

lemma copy_fragments_Inr:
  "copy_fragments object off fs = Inr x \<Longrightarrow> length object = off + sum_list (map length (map the fs)) \<Longrightarrow>
   (\<forall>f \<in> set fs. f \<noteq> None) \<and> x = take off object @ concat (map the fs)"
  by (induction object off fs rule: copy_fragments.induct) (auto simp add: set_at_def)

lemma copy_fragments_Some:
  "length object = off + sum_list (map length ps) \<Longrightarrow>
   copy_fragments object off (map Some ps) = Inr (take off object @ concat ps)"
proof (induction ps arbitrary: object off)
  case (Cons p ps)
  then show ?case by (simp add: set_at_def)
qed simp


subsection \<open>The invariant of the assembler\<close>

definition present :: "bytes option list \<Rightarrow> nat" where
  "present fs = length (filter (\<lambda>f. f \<noteq> None) fs)"

definition held :: "bytes option list \<Rightarrow> nat" where
  "held fs = sum_list (map (case_option 0 length) fs)"

lemma present_update:
  "i < length fs \<Longrightarrow> fs ! i = None \<Longrightarrow> present (fs[i := Some p]) = Suc (present fs)"
proof (induction fs arbitrary: i)
  case (Cons f fs)
  then show ?case by (cases i) (auto simp add: present_def)
qed simp

lemma held_update:
  "i < length fs \<Longrightarrow> fs ! i = None \<Longrightarrow> held (fs[i := Some p]) = held fs + length p"
proof (induction fs arbitrary: i)
  case (Cons f fs)
  then show ?case by (cases i) (auto simp add: held_def)
qed simp

lemma held_replicate [simp]: "held (replicate n None) = 0" and present_replicate [simp]: "present (replicate n None) = 0"
  by (simp_all add: held_def present_def sum_list_replicate)

lemma held_all_present: "(\<forall>f \<in> set fs. f \<noteq> None) \<Longrightarrow> held fs = length (concat (map the fs))"
  by (induction fs) (auto simp add: held_def)

lemma present_all: "present fs = length fs \<longleftrightarrow> (\<forall>f \<in> set fs. f \<noteq> None)"
  unfolding present_def using filter_id_conv [of "\<lambda>f. f \<noteq> None" fs] length_filter_le [of "\<lambda>f. f \<noteq> None" fs]
  by (metis length_filter_less filter_id_conv nat_neq_iff)

definition piece :: "nat \<Rightarrow> nat \<Rightarrow> nat \<Rightarrow> nat" where
  "piece c t i = (if Suc i = c then t - i * 65440 else 65440)"

definition assembler_wf :: "assembler \<Rightarrow> bool" where
  "assembler_wf a \<longleftrightarrow> length (fa_operationId a) = 16 \<and>
     fa_received a = held (fa_fragments a) \<and> fa_receivedFragments a = present (fa_fragments a) \<and>
     fa_count a \<le> 65 \<and> fa_totalLength a \<le> 4194816 \<and>
     (fa_cancelledAt a \<noteq> None \<longrightarrow> fa_fragments a = []) \<and>
     (fa_recordId a = None \<longrightarrow> fa_fragments a = []) \<and>
     (fa_cancelledAt a = None \<and> fa_recordId a \<noteq> None \<longrightarrow>
        length (fa_fragments a) = fa_count a \<and> 0 < fa_totalLength a \<and>
        fa_count a = (fa_totalLength a + 65439) div 65440 \<and>
        (\<forall>i < fa_count a. \<forall>p. fa_fragments a ! i = Some p \<longrightarrow> length p = piece (fa_count a) (fa_totalLength a) i))"

lemma new_assembler_wf: "new_assembler oid = Inr a \<Longrightarrow> assembler_wf a"
  by (auto simp add: new_assembler_def res_simps assembler_wf_def held_def present_def)

lemma cancel_wf: "assembler_wf a \<Longrightarrow> assembler_wf (assembler_cancel now a)"
  by (auto simp add: assembler_cancel_def assembler_wf_def held_def present_def split: option.splits)

text \<open>The state after the fragment has been matched to the record, and after it has been stored.\<close>

definition opened :: "decoded_fragment \<Rightarrow> int \<Rightarrow> assembler \<Rightarrow> assembler" where
  "opened f now a = (if fa_recordId a = None then assembler_start f now a else a)"

definition stored :: "decoded_fragment \<Rightarrow> int \<Rightarrow> assembler \<Rightarrow> assembler" where
  "stored f now a = a\<lparr>fa_fragments := js_set (fa_fragments a) (df_index f) (df_payload f),
     fa_received := fa_received a + length (df_payload f),
     fa_receivedFragments := fa_receivedFragments a + 1, fa_lastProgressAt := now\<rparr>"

lemma opened_wf:
  assumes "assembler_wf a" "fragment_ok f" "fa_cancelledAt a = None"
  shows "assembler_wf (opened f now a)" "fa_recordId (opened f now a) \<noteq> None" "fa_cancelledAt (opened f now a) = None"
  using assms fragment_okD [OF assms(2)] fragment_ok_bounds(5) [OF assms(2)]
  by (cases "fa_recordId a"; simp add: opened_def assembler_start_def assembler_wf_def)+

lemma identity_of_record:
  assumes "requireIdentity f a"
  shows "fa_recordId a = Some (df_recordId f)" "df_count f = fa_count a" "df_totalLength f = fa_totalLength a"
  using assms by (auto simp add: requireIdentity_def split: option.splits)

lemma stored_wf:
  assumes wf: "assembler_wf a" and ok: "fragment_ok f" and live: "fa_cancelledAt a = None"
    and id: "requireIdentity f a" and free: "js_get (fa_fragments a) (df_index f) = None"
  shows "assembler_wf (stored f now a)"
proof -
  note rec = identity_of_record [OF id]
  have len: "length (fa_fragments a) = fa_count a"
    using wf live rec(1) by (simp add: assembler_wf_def)
  then have i: "df_index f < length (fa_fragments a)"
    using fragment_okD(5) [OF ok] rec(2) by simp
  then have at: "fa_fragments a ! df_index f = None"
    using free by (simp add: js_get_def)
  have "length (df_payload f) = piece (fa_count a) (fa_totalLength a) (df_index f)"
    using fragment_okD(9) [OF ok] rec by (simp add: piece_def)
  then show ?thesis
    using wf live rec(1) len present_update [OF i at] held_update [OF i at] i
    by (auto simp add: assembler_wf_def stored_def js_set_def nth_list_update)
qed


text \<open>One call, by cases: refused without a change, a copy of a stored fragment, or stored.\<close>

definition finish :: "(bytes \<Rightarrow> bytes) \<Rightarrow> decoded_fragment \<Rightarrow> assembler \<Rightarrow> flow_error + assembly_result" where
  "finish sha f a =
     (if fa_receivedFragments a \<noteq> fa_count a then Inr (Accepted (length (df_payload f)))
      else if fa_received a \<noteq> fa_totalLength a then Inl FlowCborError
      else bindE (copy_fragments (replicate (fa_totalLength a) 0) 0 (fa_fragments a)) (\<lambda>object.
        if (case fa_recordId a of None \<Rightarrow> True | Some r \<Rightarrow> \<not> equalBytes (subarray 0 16 (sha object)) r)
        then Inl FlowCborError
        else Inr (Complete (length (df_payload f)) object)))"

lemma accept_live:
  "fa_cancelledAt a = None \<Longrightarrow> assembler_accept sha now p a =
     (case decodeFragment p of
        Inl e \<Rightarrow> (a, Inl e)
      | Inr f \<Rightarrow>
        if df_operationId f \<noteq> fa_operationId a then (a, Inl FlowCborError)
        else if \<not> requireIdentity f (opened f now a) then (opened f now a, Inl FlowCborError)
        else if now - fa_lastProgressAt (opened f now a) \<ge> FRAGMENT_INACTIVITY_TIMEOUT_MILLISECONDS
        then (opened f now a, Inl FragmentInactivityError)
        else (case js_get (fa_fragments (opened f now a)) (df_index f) of
           Some existing \<Rightarrow> (opened f now a, if existing \<noteq> df_payload f then Inl FlowCborError else Inr Duplicate)
         | None \<Rightarrow> (stored f now (opened f now a), finish sha f (stored f now (opened f now a)))))"
  unfolding assembler_accept_def opened_def [symmetric] Let_def stored_def finish_def option.case
  by (simp only: option.case equalBytes_iff)

lemma accept_cancelled:
  "fa_cancelledAt a = Some c \<Longrightarrow> assembler_accept sha now p a =
     (a, if now - c \<le> FRAGMENT_TOMBSTONE_MILLISECONDS then Inr Tombstoned else Inl FlowCborError)"
  by (simp add: assembler_accept_def)

lemma accept_wf:
  assumes wf: "assembler_wf a"
  shows "assembler_wf (fst (assembler_accept sha now p a))"
proof (cases "fa_cancelledAt a")
  case None
  show ?thesis
  proof (cases "decodeFragment p")
    case (Inr f)
    have ok: "fragment_ok f"
      using decode_sound [OF Inr] by simp
    note o = opened_wf [OF wf ok None, of now]
    show ?thesis
      unfolding accept_live [OF None] Inr sum.case
      using wf o(1) stored_wf [OF o(1) ok o(3)] by (simp split: option.splits)
  qed (simp add: accept_live [OF None] wf)
qed (simp add: accept_cancelled wf)


subsection \<open>Whatever arrives\<close>

datatype assembly_event = Arrival int bytes | Cancellation int

fun assembly_step :: "(bytes \<Rightarrow> bytes) \<Rightarrow> assembler \<Rightarrow> assembly_event \<Rightarrow> assembler" where
  "assembly_step sha a (Arrival now p) = fst (assembler_accept sha now p a)"
| "assembly_step sha a (Cancellation now) = assembler_cancel now a"

lemma run_wf: "assembler_wf a \<Longrightarrow> assembler_wf (foldl (assembly_step sha) a es)"
proof (induction es arbitrary: a)
  case (Cons e es)
  then show ?case by (cases e) (simp_all add: accept_wf cancel_wf)
qed simp

lemma sum_pieces:
  assumes t: "c = (t + 65439) div 65440" "0 < t"
  shows "(\<Sum>i = 0..<c. piece c t i) = t"
proof (cases c)
  case (Suc k)
  have "(\<Sum>i = 0..<k. piece c t i) = (\<Sum>i = 0..<k. 65440)"
    using Suc by (intro sum.cong) (auto simp add: piece_def)
  moreover have "k * 65440 < t"
    using fragment_arith(1) [OF t, of k] Suc by simp
  ultimately show ?thesis
    using Suc by (simp add: piece_def)
qed (use t in simp)

lemma wf_live:
  assumes "assembler_wf a" "fa_cancelledAt a = None" "fa_recordId a \<noteq> None"
  shows "length (fa_fragments a) = fa_count a" "0 < fa_totalLength a"
    "fa_count a = (fa_totalLength a + 65439) div 65440"
    "fa_received a = held (fa_fragments a)" "fa_receivedFragments a = present (fa_fragments a)"
    "i < fa_count a \<Longrightarrow> fa_fragments a ! i = Some p \<Longrightarrow> length p = piece (fa_count a) (fa_totalLength a) i"
  using assms by (simp_all add: assembler_wf_def)

lemma held_bound:
  assumes "assembler_wf a"
  shows "fa_received a \<le> fa_totalLength a"
proof (cases "fa_fragments a = []")
  case True
  then show ?thesis using assms by (simp add: assembler_wf_def held_def)
next
  case False
  let ?fs = "fa_fragments a" and ?piece = "piece (fa_count a) (fa_totalLength a)"
  have "fa_cancelledAt a = None" "fa_recordId a \<noteq> None"
    using assms False unfolding assembler_wf_def by blast+
  note w = wf_live [OF assms this]
  have "held ?fs = (\<Sum>i = 0..<length ?fs. case_option 0 length (?fs ! i))"
    unfolding held_def by (simp add: sum_list_sum_nth)
  also have "\<dots> \<le> (\<Sum>i = 0..<length ?fs. ?piece i)"
  proof (rule sum_mono)
    fix i
    assume "i \<in> {0..<length ?fs}"
    then show "case_option 0 length (?fs ! i) \<le> ?piece i"
      using w(1) w(6) [of i] by (cases "?fs ! i") simp_all
  qed
  also have "\<dots> = fa_totalLength a"
    unfolding w(1) by (rule sum_pieces [OF w(3,2)])
  finally show ?thesis using w(4) by simp
qed

lemma chunk_concat:
  assumes len: "\<And>i. i < length ps \<Longrightarrow> length (ps ! i) = piece (length ps) t i"
    and t: "length ps = (t + 65439) div 65440" "0 < t" and i: "i < length ps"
  shows "chunk (concat ps) i = ps ! i"
proof -
  have full: "length (concat (take j ps)) = j * 65440" if "j < length ps" for j
    using that
  proof (induction j)
    case (Suc j)
    then have "length (ps ! j) = 65440"
      using len [of j] by (simp add: piece_def)
    with Suc show ?case by (simp add: take_Suc_conv_app_nth)
  qed simp
  have "concat ps = concat (take i ps) @ ps ! i @ concat (drop (Suc i) ps)"
    using arg_cong [OF id_take_nth_drop [OF i], of concat] by simp
  then have "drop (i * 65440) (concat ps) = ps ! i @ concat (drop (Suc i) ps)"
    using full [OF i] by (metis append_eq_conv_conj)
  moreover have "length (ps ! i) = 65440 \<or> length (ps ! i) \<le> 65440 \<and> drop (Suc i) ps = []"
    using len [OF i] fragment_arith(2) [OF t i] by (auto simp add: piece_def)
  ultimately show ?thesis by (auto simp add: chunk_def)
qed

lemma finish_Complete:
  assumes "finish sha f a = Inr (Complete n object)"
  shows "fa_receivedFragments a = fa_count a" "fa_received a = fa_totalLength a"
    "copy_fragments (replicate (fa_totalLength a) 0) 0 (fa_fragments a) = Inr object"
    "fa_recordId a = Some (subarray 0 16 (sha object))"
  using assms by (auto simp add: finish_def res_simps split: if_splits option.splits)

lemma finish_complete:
  assumes wf: "assembler_wf a" and live: "fa_cancelledAt a = None"
    and fin: "finish sha f a = Inr (Complete n object)"
  shows "fa_recordId a = Some (subarray 0 16 (sha object)) \<and> length object = fa_totalLength a \<and>
    fa_fragments a = map (\<lambda>i. Some (chunk object i)) [0..<fa_count a] \<and> fa_count a = chunks object"
proof -
  let ?fs = "fa_fragments a" and ?ps = "map the (fa_fragments a)"
  note fc = finish_Complete [OF fin]
  have "fa_recordId a \<noteq> None"
    using fc(4) by simp
  note w = wf_live [OF wf live this]
  have somes: "\<forall>f \<in> set ?fs. f \<noteq> None"
    using present_all [of ?fs] fc(1) w(1,5) by simp
  have lens: "sum_list (map length ?ps) = fa_totalLength a"
    using held_all_present [OF somes] fc(2) w(4) by (simp add: length_concat)
  have object: "object = concat ?ps"
    using copy_fragments_Inr [OF fc(3)] lens by simp
  have nths: "?fs ! i = Some (?ps ! i)" if "i < length ?fs" for i
    using that somes nth_mem [OF that] by auto
  have "length (?ps ! i) = piece (length ?ps) (fa_totalLength a) i" if "i < length ?ps" for i
    using that w(6) [OF _ nths [of i]] by (simp add: w(1))
  then have chunk: "chunk object i = ?ps ! i" if "i < length ?fs" for i
    unfolding object using that w(1,3)
    by (intro chunk_concat [OF _ _ w(2)]) simp_all
  have "?fs = map (\<lambda>i. Some (chunk object i)) [0..<fa_count a]"
    using nths chunk by (intro nth_equalityI) (simp_all add: w(1))
  moreover have "length object = fa_totalLength a"
    using lens by (simp add: object length_concat)
  ultimately show ?thesis
    using fc(4) w(3) by (simp add: chunks_def)
qed


lemma opened_cancelledAt [simp]: "fa_cancelledAt (opened f now a) = fa_cancelledAt a"
  by (simp add: opened_def assembler_start_def)

lemma accept_cancelledAt: "fa_cancelledAt (fst (assembler_accept sha now p a)) = fa_cancelledAt a"
  by (cases "fa_cancelledAt a"; cases "decodeFragment p")
    (simp_all add: accept_cancelled accept_live stored_def split: option.splits)

lemma run_cancelled:
  assumes "fa_cancelledAt a \<noteq> None \<or> (\<exists>c. Cancellation c \<in> set es)"
  shows "fa_cancelledAt (foldl (assembly_step sha) a es) \<noteq> None"
  using assms
proof (induction es arbitrary: a)
  case (Cons e es)
  show ?case
  proof (cases e)
    case (Arrival now p)
    with Cons show ?thesis by (auto simp add: accept_cancelledAt)
  next
    case (Cancellation now)
    with Cons show ?thesis by (auto simp add: assembler_cancel_def split: option.splits)
  qed
qed simp

lemma accept_complete:
  assumes wf: "assembler_wf a" and acc: "assembler_accept sha now p a = (a', Inr (Complete n object))"
  shows "fa_recordId a' = Some (subarray 0 16 (sha object)) \<and> length object = fa_totalLength a' \<and>
    fa_fragments a' = map (\<lambda>i. Some (chunk object i)) [0..<fa_count a'] \<and> fa_count a' = chunks object"
proof (cases "fa_cancelledAt a")
  case None
  obtain f where f: "decodeFragment p = Inr f"
    using acc by (cases "decodeFragment p") (simp_all add: accept_live [OF None])
  let ?b = "opened f now a"
  have free: "js_get (fa_fragments ?b) (df_index f) = None" "requireIdentity f ?b" "a' = stored f now ?b"
    "finish sha f a' = Inr (Complete n object)"
    using acc by (auto simp add: accept_live [OF None] f split: if_splits option.splits)
  have ok: "fragment_ok f"
    using decode_sound [OF f] by simp
  note b = opened_wf [OF wf ok None, of now]
  have "assembler_wf a'"
    unfolding free(3) by (rule stored_wf [OF b(1) ok b(3) free(2,1)])
  moreover have "fa_cancelledAt a' = None"
    using b(3) by (simp add: free(3) stored_def)
  ultimately show ?thesis
    using finish_complete free(4) by blast
qed (use acc in \<open>simp add: accept_cancelled split: if_splits\<close>)

subsection \<open>Arrival in any order\<close>

fun accept_all :: "(bytes \<Rightarrow> bytes) \<Rightarrow> assembler \<Rightarrow> (int \<times> bytes) list \<Rightarrow> (flow_error + assembly_result) list" where
  "accept_all sha a [] = []"
| "accept_all sha a ((now, p) # ps) =
     snd (assembler_accept sha now p a) # accept_all sha (fst (assembler_accept sha now p a)) ps"

text \<open>What each arrival should answer, from the indices already there.\<close>

fun expected :: "bytes \<Rightarrow> nat set \<Rightarrow> nat list \<Rightarrow> assembly_result list" where
  "expected object seen [] = []"
| "expected object seen (i # is) =
     (if i \<in> seen then Duplicate
      else if insert i seen = {..<chunks object} then Complete (length (chunk object i)) object
      else Accepted (length (chunk object i))) # expected object (insert i seen) is"

text \<open>New fragments keep arriving before the inactivity timeout; copies earn no time.\<close>

fun timely :: "int \<Rightarrow> nat set \<Rightarrow> (int \<times> nat) list \<Rightarrow> bool" where
  "timely progress seen [] = True"
| "timely progress seen ((now, i) # as) =
     (now - progress < FRAGMENT_INACTIVITY_TIMEOUT_MILLISECONDS \<and>
      timely (if i \<in> seen then progress else now) (insert i seen) as)"

definition marked :: "bytes \<Rightarrow> nat set \<Rightarrow> bytes option list" where
  "marked object seen = map (\<lambda>i. if i \<in> seen then Some (chunk object i) else None) [0..<chunks object]"

definition assembling :: "bytes \<Rightarrow> bytes \<Rightarrow> nat set \<Rightarrow> int \<Rightarrow> bytes \<Rightarrow> assembler" where
  "assembling oid rid seen progress object = \<lparr>fa_operationId = oid, fa_recordId = Some rid,
     fa_fragments = marked object seen, fa_count = chunks object, fa_totalLength = length object,
     fa_received = held (marked object seen), fa_receivedFragments = present (marked object seen),
     fa_lastProgressAt = progress, fa_cancelledAt = None\<rparr>"

lemma marked_set:
  "i < chunks object \<Longrightarrow> js_set (marked object seen) i (chunk object i) = marked object (insert i seen)"
  by (auto simp add: js_set_def marked_def intro!: nth_equalityI simp: nth_list_update)

lemma marked_get:
  "i < chunks object \<Longrightarrow> js_get (marked object seen) i = (if i \<in> seen then Some (chunk object i) else None)"
  by (simp add: js_get_def marked_def)

lemma marked_nth: "i < chunks object \<Longrightarrow> marked object seen ! i = (if i \<in> seen then Some (chunk object i) else None)"
  by (simp add: marked_def)

lemma length_marked [simp]: "length (marked object seen) = chunks object"
  by (simp add: marked_def)

lemma stored_assembling:
  assumes "i < chunks object" "i \<notin> seen"
  shows "stored (fragment_of oid rid object i) now (assembling oid rid seen progress object) =
    assembling oid rid (insert i seen) now object"
proof -
  let ?m = "marked object seen"
  have up: "marked object (insert i seen) = ?m[i := Some (chunk object i)]"
    using marked_set [OF assms(1), of seen] assms(1) by (simp add: js_set_def)
  have at: "i < length ?m" "?m ! i = None"
    using assms by (simp_all add: marked_nth)
  show ?thesis
    using marked_set [OF assms(1), of seen] present_update [OF at] held_update [OF at]
    by (simp add: stored_def assembling_def fragment_of_def up)
qed

lemma all_present_marked:
  assumes "seen \<subseteq> {..<chunks object}"
  shows "present (marked object seen) = chunks object \<longleftrightarrow> seen = {..<chunks object}"
proof -
  have "present (marked object seen) = chunks object \<longleftrightarrow> (\<forall>i < chunks object. i \<in> seen)"
    using present_all [of "marked object seen"] by (auto simp add: marked_def)
  then show ?thesis using assms by auto
qed

lemma finish_assembling:
  assumes seen: "seen \<subseteq> {..<chunks object}" and rid: "rid = subarray 0 16 (sha object)"
  shows "finish sha f (assembling oid rid seen progress object) =
    (if seen = {..<chunks object} then Inr (Complete (length (df_payload f)) object)
     else Inr (Accepted (length (df_payload f))))"
proof (cases "seen = {..<chunks object}")
  case True
  let ?ps = "map (chunk object) [0..<chunks object]"
  have m: "marked object seen = map Some ?ps"
    by (simp add: marked_def True)
  have h: "held (map Some ?ps) = length object"
    using held_all_present [of "map Some ?ps"] concat_all_chunks [of object] by (simp add: comp_def)
  have c: "copy_fragments (replicate (length object) 0) 0 (map Some ?ps) = Inr object"
    using copy_fragments_Some [of "replicate (length object) 0" 0 ?ps] concat_all_chunks [of object]
    by (metis (no_types, lifting) add_0 append_Nil length_concat length_replicate take0)
  show ?thesis
    using all_present_marked [OF seen] True c h rid
    unfolding finish_def assembling_def assembler.select_convs m by simp
next
  case False
  then show ?thesis
    using all_present_marked [OF seen] by (simp add: finish_def assembling_def)
qed


lemma marked_none: "marked object {} = replicate (chunks object) None"
  by (rule nth_equalityI) (simp_all add: marked_nth)

lemma opened_fragment:
  "new_assembler oid = Inr a \<Longrightarrow>
   opened (fragment_of oid rid object i) now a = assembling oid rid {} now object"
  "opened (fragment_of oid rid object i) now (assembling oid rid seen progress object) =
   assembling oid rid seen progress object"
  by (auto simp add: new_assembler_def res_simps opened_def assembler_start_def assembling_def fragment_of_def marked_none)

text \<open>An object of the sender, with the identity its digest gives it.\<close>

definition sealed :: "(bytes \<Rightarrow> bytes) \<Rightarrow> bytes \<Rightarrow> bytes \<Rightarrow> bytes \<Rightarrow> bool" where
  "sealed sha oid rid object \<longleftrightarrow> length oid = 16 \<and> nonzero oid \<and> length rid = 16 \<and> nonzero rid \<and>
     0 < length object \<and> length object \<le> 4194816 \<and> rid = subarray 0 16 (sha object)"

lemma decode_fragment:
  "sealed sha oid rid object \<Longrightarrow> i < chunks object \<Longrightarrow> decodeFragment (fragment_wire (fragment_of oid rid object i)) = Inr (fragment_of oid rid object i)"
  unfolding sealed_def by (blast intro: decode_wire fragment_of_ok)

lemma accept_assembling:
  assumes so: "sealed sha oid rid object" and i: "i < chunks object" and seen: "seen \<subseteq> {..<chunks object}"
    and time: "now - progress < FRAGMENT_INACTIVITY_TIMEOUT_MILLISECONDS"
  shows "assembler_accept sha now (fragment_wire (fragment_of oid rid object i)) (assembling oid rid seen progress object) =
    (assembling oid rid (insert i seen) (if i \<in> seen then progress else now) object,
     Inr (hd (expected object seen [i])))"
proof -
  let ?f = "fragment_of oid rid object i" and ?a = "assembling oid rid seen progress object"
  have f: "df_operationId ?f = oid" "df_index ?f = i" "df_payload ?f = chunk object i"
    by (simp_all add: fragment_of_def)
  have a: "fa_cancelledAt ?a = None" "fa_operationId ?a = oid" "fa_lastProgressAt ?a = progress"
    "fa_fragments ?a = marked object seen"
    by (simp_all add: assembling_def)
  have idn: "requireIdentity ?f ?a"
    by (simp add: requireIdentity_def assembling_def fragment_of_def)
  have late: "\<not> FRAGMENT_INACTIVITY_TIMEOUT_MILLISECONDS \<le> now - progress"
    using time by simp
  have "insert i seen \<subseteq> {..<chunks object}"
    using i seen by simp
  moreover have "rid = subarray 0 16 (sha object)"
    using so unfolding sealed_def by blast
  ultimately have fin: "finish sha ?f (assembling oid rid (insert i seen) now object) =
    (if insert i seen = {..<chunks object} then Inr (Complete (length (chunk object i)) object)
     else Inr (Accepted (length (chunk object i))))"
    using finish_assembling [of "insert i seen" object rid sha ?f oid now] unfolding f by blast
  show ?thesis
  proof (cases "i \<in> seen")
    case True
    then show ?thesis
      using i idn late by (simp add: accept_live a f decode_fragment [OF so] opened_fragment marked_get insert_absorb)
  next
    case False
    then show ?thesis
      using i idn late
      by (simp add: accept_live a f decode_fragment [OF so] opened_fragment marked_get stored_assembling fin)
  qed
qed

lemma fragment_of_operation: "df_operationId (fragment_of oid rid object i) = oid"
  by (simp add: fragment_of_def)

lemma accept_first:
  assumes so: "sealed sha oid rid object" and a0: "new_assembler oid = Inr a" and i: "i < chunks object"
  shows "assembler_accept sha now (fragment_wire (fragment_of oid rid object i)) a =
    assembler_accept sha now (fragment_wire (fragment_of oid rid object i)) (assembling oid rid {} now object)"
proof -
  have a: "fa_cancelledAt a = None" "fa_operationId a = oid"
    "fa_cancelledAt (assembling oid rid {} now object) = None"
    "fa_operationId (assembling oid rid {} now object) = oid"
    using a0 by (auto simp add: new_assembler_def res_simps assembling_def)
  show ?thesis
    unfolding accept_live [OF a(1)] accept_live [OF a(3)] decode_fragment [OF so i] sum.case
      opened_fragment(1) [OF a0] opened_fragment(2) a(2,4) fragment_of_operation by simp
qed

lemma accept_all_assembling:
  assumes so: "sealed sha oid rid object" and arr: "\<forall>(now, i) \<in> set as. i < chunks object" "seen \<subseteq> {..<chunks object}" "timely progress seen as"
  shows "accept_all sha (assembling oid rid seen progress object)
      (map (\<lambda>(now, i). (now, fragment_wire (fragment_of oid rid object i))) as) =
    map Inr (expected object seen (map snd as))"
  using arr
proof (induction as arbitrary: seen progress)
  case (Cons x as)
  obtain now i where x: "x = (now, i)" by (cases x)
  then show ?case
    using Cons.prems Cons.IH [of "insert i seen" "if i \<in> seen then progress else now"]
    by (simp add: accept_assembling [OF so])
qed simp

lemma accept_all_new:
  assumes so: "sealed sha oid rid object" and arr: "new_assembler oid = Inr a" "\<forall>(now, i) \<in> set as. i < chunks object" "timely (fst (hd as)) {} as"
  shows "accept_all sha a (map (\<lambda>(now, i). (now, fragment_wire (fragment_of oid rid object i))) as) =
    map Inr (expected object {} (map snd as))"
proof (cases as)
  case (Cons x xs)
  obtain now i where x: "x = (now, i)" by (cases x)
  then have "accept_all sha a (map (\<lambda>(now, i). (now, fragment_wire (fragment_of oid rid object i))) as) =
    accept_all sha (assembling oid rid {} now object) (map (\<lambda>(now, i). (now, fragment_wire (fragment_of oid rid object i))) as)"
    using accept_first [OF so arr(1), of i now] arr(2) Cons by simp
  then show ?thesis
    using accept_all_assembling [OF so arr(2), of "{}" now] arr(3) Cons x by simp
qed simp

definition sample_id :: bytes where "sample_id = replicate 16 1"

lemma sample_id_ok [simp]: "length sample_id = 16" "nonzero sample_id"
  by (simp_all add: sample_id_def nonzero_iff)

lemma new_sample: "new_assembler sample_id = Inr \<lparr>fa_operationId = sample_id, fa_recordId = None, fa_fragments = [],
    fa_count = 0, fa_totalLength = 0, fa_received = 0, fa_receivedFragments = 0, fa_lastProgressAt = 0,
    fa_cancelledAt = None\<rparr>"
  by (simp add: new_assembler_def requireByteField_def)

text \<open>
  C26. Whatever octets arrive, in any order and at any time, with or without cancellations: an
  object that \<^verbatim>\<open>accept\<close> hands out has the length and the SHA-256 identity its fragments announced and
  consists of exactly the stored fragments; what is stored never exceeds the announced length, at
  most 4 MiB and the seal overhead; and a cancelled assembler holds nothing and never answers with
  anything but \<^verbatim>\<open>tombstoned\<close> or an error.
\<close>

theorem assembled_objects_authentic:
  assumes "new_assembler oid = Inr a0" "a = foldl (assembly_step sha) a0 es"
  shows "fa_received a = held (fa_fragments a) \<and> fa_received a \<le> fa_totalLength a \<and> fa_totalLength a \<le> 4194816 \<and>
    (assembler_accept sha now p a = (a', Inr (Complete n object)) \<longrightarrow>
       fa_recordId a' = Some (subarray 0 16 (sha object)) \<and> length object = fa_totalLength a' \<and>
       fa_fragments a' = map (\<lambda>i. Some (chunk object i)) [0..<fa_count a'] \<and> fa_count a' = chunks object) \<and>
    ((\<exists>c. Cancellation c \<in> set es) \<longrightarrow> fa_received a = 0 \<and> fa_fragments a = [] \<and>
       (\<exists>r. assembler_accept sha now p a = (a, r) \<and> r \<in> {Inr Tombstoned, Inl FlowCborError}))"
proof -
  have wf: "assembler_wf a"
    using assms new_assembler_wf run_wf by blast
  have cancelled: "fa_received a = 0 \<and> fa_fragments a = [] \<and>
      (\<exists>r. assembler_accept sha now p a = (a, r) \<and> r \<in> {Inr Tombstoned, Inl FlowCborError})"
    if c: "\<exists>c. Cancellation c \<in> set es"
  proof -
    obtain t where t: "fa_cancelledAt a = Some t"
      using run_cancelled [of a0 es sha] c assms(2) by auto
    then show ?thesis
      using wf by (auto simp add: assembler_wf_def accept_cancelled held_def)
  qed
  have "fa_received a = held (fa_fragments a)" "fa_totalLength a \<le> 4194816"
    using wf by (simp_all add: assembler_wf_def)
  then show ?thesis
    using held_bound [OF wf] accept_complete [OF wf, of sha now p a' n object] cancelled by blast
qed

theorem assembled_objects_authentic_witness:
  "\<exists>a0 a'. new_assembler sample_id = Inr a0 \<and>
     assembler_accept (\<lambda>_. replicate 32 1) 5 (fragment_wire (fragment_of sample_id sample_id [7, 7] 0)) a0 =
       (a', Inr (Complete 2 [7, 7])) \<and> fa_recordId a' = Some (replicate 16 1)"
proof -
  let ?sha = "\<lambda>_ :: bytes. replicate 32 (1 :: byte)" and ?a = "assembling sample_id sample_id {0} 5 [7, 7]"
    and ?p = "fragment_wire (fragment_of sample_id sample_id [7, 7] 0)"
  obtain a0 where a0: "new_assembler sample_id = Inr a0"
    using new_sample by blast
  have so: "sealed ?sha sample_id sample_id [7, 7]" and c: "chunks [7, 7] = 1" "chunk [7, 7] 0 = [7, 7]"
    by (simp_all add: sealed_def subarray_def sample_id_def nonzero_iff chunks_def chunk_def)
  have acc: "assembler_accept ?sha 5 ?p a0 = (?a, Inr (Complete 2 [7, 7]))"
    using accept_first [OF so a0, of 0 5] accept_assembling [OF so, of 0 "{}" 5 5] c
    by (simp add: flow_limits lessThan_Suc)
  then have "fa_recordId ?a = Some (subarray 0 16 (replicate 32 1))"
    using assembled_objects_authentic [OF a0, of a0 ?sha "[]" 5 ?p ?a 2 "[7, 7]"] by simp
  then show ?thesis
    using a0 acc by (auto simp add: subarray_def)
qed


fun is_complete :: "assembly_result \<Rightarrow> bool" where
  "is_complete (Complete n object) = True"
| "is_complete _ = False"

lemma expected_after:
  "set js \<subseteq> {..<chunks object} \<Longrightarrow> filter is_complete (expected object {..<chunks object} js) = []"
proof (induction js)
  case (Cons j js)
  then have "insert j {..<chunks object} = {..<chunks object}"
    by (intro insert_absorb) simp
  then show ?case
    using Cons by simp
qed simp

lemma expected_complete:
  assumes "seen \<subseteq> {..<chunks object}" "seen \<noteq> {..<chunks object}" "seen \<union> set is = {..<chunks object}"
  shows "\<exists>n. filter is_complete (expected object seen is) = [Complete n object]"
  using assms
proof (induction "is" arbitrary: seen)
  case (Cons i "is")
  have un: "seen \<union> insert i (set is) = {..<chunks object}"
    using Cons.prems(3) by simp
  have i: "set is \<subseteq> {..<chunks object}"
    unfolding un [symmetric] by blast
  show ?case
  proof (cases "insert i seen = {..<chunks object}")
    case True
    then have "i \<notin> seen"
      using Cons.prems(2) insert_absorb [of i seen] by metis
    then show ?thesis
      using True expected_after [OF i] by simp
  next
    case False
    have "insert i seen \<union> set is = {..<chunks object}"
      using un by simp
    moreover from this have "insert i seen \<subseteq> {..<chunks object}"
      by blast
    ultimately have "\<exists>n. filter is_complete (expected object (insert i seen) is) = [Complete n object]"
      using Cons.IH False by blast
    then show ?thesis
      using False by simp
  qed
qed simp

text \<open>
  C8. Fragments may arrive in any order and any number of times. As long as a new one comes before
  the inactivity timeout, every arrival is answered with what it is (the first copy of an index as
  accepted, with its length, a later one as a duplicate), and once every index has come, exactly one
  answer is complete, and it carries the object the sender cut.
\<close>

theorem fragments_reassemble_in_any_order:
  assumes "sealed sha oid rid object" "new_assembler oid = Inr a"
    "\<forall>(now, i) \<in> set arrivals. i < chunks object" "timely (fst (hd arrivals)) {} arrivals"
  shows "accept_all sha a (map (\<lambda>(now, i). (now, fragment_wire (fragment_of oid rid object i))) arrivals) =
      map Inr (expected object {} (map snd arrivals)) \<and>
    (snd ` set arrivals = {..<chunks object} \<longrightarrow>
       (\<exists>n. filter is_complete (expected object {} (map snd arrivals)) = [Complete n object]))"
proof -
  have "0 < chunks object"
    using assms(1) unfolding sealed_def chunks_def by (simp add: div_greater_zero_iff Suc_le_eq)
  then show ?thesis
    using accept_all_new [OF assms] expected_complete [of "{}" object "map snd arrivals"] by auto
qed

theorem fragments_reassemble_in_any_order_witness:
  "\<exists>a. new_assembler sample_id = Inr a \<and>
     accept_all (\<lambda>_. replicate 32 1) a
       (map (\<lambda>(now, i). (now, fragment_wire (fragment_of sample_id sample_id (replicate 65441 7) i))) [(3, 1), (9, 1), (14, 0)]) =
     [Inr (Accepted 1), Inr Duplicate, Inr (Complete 65440 (replicate 65441 7))]"
proof -
  let ?sha = "\<lambda>_ :: bytes. replicate 32 (1 :: byte)" and ?b = "replicate 65441 (7 :: byte)"
  obtain a where a: "new_assembler sample_id = Inr a"
    using new_sample by blast
  have so: "sealed ?sha sample_id sample_id ?b" and c: "chunks ?b = 2"
    by (simp_all add: sealed_def subarray_def sample_id_def nonzero_iff chunks_def)
  have k: "length (chunk ?b 0) = 65440" "length (chunk ?b 1) = 1" and u: "{..<2 :: nat} = {0, 1}" "insert 1 {} \<noteq> {0, 1 :: nat}"
    by (auto simp add: chunk_def)
  have "expected ?b {} [1, 1, 0] = [Accepted 1, Duplicate, Complete 65440 ?b]"
    using k u by (simp add: c)
  then show ?thesis
    using fragments_reassemble_in_any_order [OF so a, of "[(3, 1), (9, 1), (14, 0)]"] a
    by (auto simp add: c flow_limits)
qed

text \<open>
  The decoder of fragments accepts exactly the well-formed fragments in their one layout: what it
  returns is within the limits, has the payload length its place in the object requires, and encodes
  back to the same octets; everything else is refused.
\<close>

theorem fragment_layout_exact:
  "decodeFragment p = Inr f \<longleftrightarrow> fragment_ok f \<and> p = fragment_wire f"
  using decode_sound decode_wire by blast

section \<open>Operation bodies\<close>

lemma item_byte_field:
  "requireByteField v None True = Inr x \<longleftrightarrow> v = JBytes x \<and> nonzero x"
  "requireByteField v (Some n) True = Inr x \<longleftrightarrow> v = JBytes x \<and> length x = n \<and> nonzero x"
  by (cases v; auto simp add: requireByteField_def)+

lemma requireUnsigned_nonneg: "requireUnsigned v = Inr i \<Longrightarrow> 0 \<le> i"
  by (auto simp add: requireUnsigned_def split: option.splits if_splits)

fun lease_ok :: "remote_lease \<Rightarrow> bool" where
  "lease_ok l = (length (rl_id l) = 16 \<and> nonzero (rl_id l) \<and> rl_ttlMilliseconds l = 120000 \<and>
     rl_renewAfterMilliseconds l = 60000)"

fun failure_ok :: "revision_failure \<Rightarrow> bool" where
  "failure_ok f = (0x3001 \<le> rf_code f \<and> rf_code f \<le> 0x3008 \<and>
     (case rf_retryAfterMilliseconds f of
        None \<Rightarrow> \<not> rf_retryable f
      | Some d \<Rightarrow> rf_retryable f \<and> 1 \<le> d \<and> d \<le> 30000))"

definition open_result_ok :: "bytes \<Rightarrow> open_result \<Rightarrow> bool" where
  "open_result_ok fileId r = (or_fileId r = fileId \<and> length fileId = 16 \<and> nonzero fileId \<and>
     (case or_outcome r of
        Opened_revision object lease \<Rightarrow> nonzero object \<and> lease_ok lease
      | Refused failure \<Rightarrow> failure_ok failure))"

lemma open_results_ok:
  assumes "decodeOpenResults nfc cborg_decode body fileId = Inr r"
  shows "open_result_ok fileId r"
proof -
  obtain item id status where i: "requireByteField (item_at item 0) (Some 16) True = Inr id" "equalBytes id fileId"
    "requireUnsigned (item_at item 1) = Inr status"
    and o: "(if status = 0 \<and> length item = 6 then
       bindE (requireByteField (item_at item 2) None True) (\<lambda>revisionObject.
       bindE (requireByteField (item_at item 3) (Some 16) True) (\<lambda>leaseId.
       bindE (requireUnsigned (item_at item 4)) (\<lambda>ttl.
       bindE (requireUnsigned (item_at item 5)) (\<lambda>renewAfter.
       if ttl \<noteq> LEASE_TTL_MILLISECONDS \<or> renewAfter \<noteq> LEASE_RENEW_AFTER_MILLISECONDS then Inl CborError
       else Inr \<lparr>or_fileId = id, or_outcome = Opened_revision revisionObject
         \<lparr>rl_id = leaseId, rl_ttlMilliseconds = ttl, rl_renewAfterMilliseconds = renewAfter\<rparr>\<rparr>))))
     else if status \<noteq> 1 \<or> length item \<noteq> 5 then Inl CborError
     else
       bindE (requireUnsigned (item_at item 2)) (\<lambda>code.
       bindE (requireBoolean (item_at item 3)) (\<lambda>retryable.
       if code < 0x3001 \<or> code > 0x3008 then Inl CborError
       else bindE
         (if retryable then
            bindE (requireUnsigned (item_at item 4)) (\<lambda>delay.
            if delay < REVISION_RETRY_MINIMUM_MILLISECONDS \<or> delay > REVISION_RETRY_MAXIMUM_MILLISECONDS
            then Inl CborError else Inr (Some delay))
          else if item_at item 4 \<noteq> JNull then Inl CborError else Inr None) (\<lambda>retryAfter.
       Inr \<lparr>or_fileId = id, or_outcome = Refused
         \<lparr>rf_code = code, rf_retryable = retryable, rf_retryAfterMilliseconds = retryAfter\<rparr>\<rparr>)))) = Inr r"
    using assms unfolding decodeOpenResults_def bindE_eq_Inr if_Inl_eq_Inr not_not by blast
  have id: "length id = 16" "nonzero id" "id = fileId"
    using i by (simp_all add: item_byte_field)
  show ?thesis
  proof (cases "status = 0 \<and> length item = 6")
    case True
    then show ?thesis
      using o id unfolding if_P [OF True] bindE_eq_Inr if_Inl_eq_Inr
      by (auto simp add: open_result_ok_def item_byte_field flow_limits)
  next
    case False
    show ?thesis
      using o id unfolding if_not_P [OF False] bindE_eq_Inr if_Inl_eq_Inr flow_limits
      by (auto simp add: open_result_ok_def res_simps split: if_splits)
  qed
qed

text \<open>
  C27. Whatever the CBOR package decodes, an open or lease answer that is accepted is an answer to this
  request: it names the requested file or lease, a lease carries the protocol's fixed lifetimes, a
  failure code lies in the revision range, and a retry delay within its bounds is there exactly when
  the failure is retryable.
\<close>

theorem open_and_lease_answers_checked:
  "(decodeOpenResults nfc cborg_decode body fileId = Inr r \<longrightarrow> open_result_ok fileId r) \<and>
   (decodeLeaseResult nfc cborg_decode body leaseId = Inr l \<longrightarrow> rl_id l = leaseId \<and> lease_ok l)"
  using open_results_ok [of nfc cborg_decode body fileId r]
  by (auto simp add: decodeLeaseResult_def res_simps item_byte_field flow_limits)

definition sample_refusal :: js_value where
  "sample_refusal = JMap [(JNumber (Integral 0), JNumber (Integral 1)), (JNumber (Integral 1),
     JArray [JArray [JBytes sample_id, JNumber (Integral 1), JNumber (Integral 0x3005), JBool True,
       JNumber (Integral 250)]])]"

lemma canonical_null: "validateCanonicalEncoding [0xf6] = Inr ()"
  by (simp add: validateCanonicalEncoding_def canonical_item.simps next_byte_def cbor_limits)

theorem open_and_lease_answers_checked_witness:
  "open_result_ok sample_id \<lparr>or_fileId = sample_id, or_outcome = Refused
     \<lparr>rf_code = 0x3005, rf_retryable = True, rf_retryAfterMilliseconds = Some 250\<rparr>\<rparr>"
proof -
  let ?decode = "\<lambda>b :: bytes. Inr sample_refusal :: unit + js_value"
  have "validateValue (validateText (\<lambda>s. s)) 0 sample_refusal = Inr ()"
    by (simp add: sample_refusal_def validateNumber_def cbor_limits max_safe_integer_def)
  then have "decodeCanonicalCbor (\<lambda>s. s) ?decode [0xf6] (Integral 65492) = Inr sample_refusal"
    by (simp add: decodeCanonicalCbor_def decodeCbor_def canonical_null max_safe_integer_def)
  then have "decodeOpenResults (\<lambda>s. s) ?decode [0xf6] sample_id = Inr \<lparr>or_fileId = sample_id, or_outcome = Refused
     \<lparr>rf_code = 0x3005, rf_retryable = True, rf_retryAfterMilliseconds = Some 250\<rparr>\<rparr>"
    by (simp add: decodeOpenResults_def sample_refusal_def requireNumericMap_def requireSchema_def requireArray_def
        requireByteField_def requireUnsigned_def requireBoolean_def item_at_def max_safe_integer_def flow_limits)
  then show ?thesis
    using open_and_lease_answers_checked [of "\<lambda>s. s" ?decode "[0xf6]" sample_id] by blast
qed

lemma increasing_from_iff:
  "increasing_from p is \<longleftrightarrow> (\<forall>i \<in> set is. 0 \<le> i) \<and> sorted_wrt (<) is \<and> (\<forall>q i. p = Some q \<and> i \<in> set is \<longrightarrow> q < i)"
  by (induction p "is" rule: increasing_from.induct) (auto split: option.splits)

lemma validate_bigints: "validate_items tv 2 (map JBigint is) = Inr ()"
  by (induction "is") (simp_all add: cbor_limits)

text \<open>
  A block request goes out exactly for a proper lease and between 1 and 256 block indices, not
  negative and strictly increasing; every other request is refused before anything is encoded,
  provided the CBOR package encodes every checked value.
\<close>

theorem block_request_accepted_iff:
  assumes "\<And>v. is_ok (cborg_encode v)"
  shows "is_ok (encodeBlockRequest nfc cborg_encode leaseId indices) \<longleftrightarrow>
    length leaseId = 16 \<and> nonzero leaseId \<and> 1 \<le> length indices \<and> length indices \<le> 256 \<and>
    (\<forall>i \<in> set indices. 0 \<le> i) \<and> sorted_wrt (<) indices"
proof -
  let ?v = "JArray [JBytes leaseId, JArray (map JBigint indices)]"
  obtain b where b: "cborg_encode ?v = Inr b"
    using assms [of ?v] by (auto simp add: is_ok_iff)
  have "encodeCanonicalCbor nfc cborg_encode ?v = Inr b" if "length indices \<le> 256"
    using that b validate_bigints [of _ indices]
    by (simp add: encodeCanonicalCbor_def cbor_limits numeral_2_eq_2)
  then show ?thesis
    by (auto simp add: encodeBlockRequest_def flow_limits increasing_from_iff is_ok_iff requireByteField_def Suc_le_eq
        split: if_splits)
qed

theorem block_request_accepted_iff_witness:
  "is_ok (encodeBlockRequest (\<lambda>s. s) (\<lambda>v. Inr [0] :: unit + bytes) sample_id [0, 4, 9])"
  using block_request_accepted_iff [of "\<lambda>v. Inr [0] :: unit + bytes" "\<lambda>s. s" sample_id "[0, 4, 9]"] by simp

end
