(* ===== verification/Unicode_Text.thy ===== *)
theory Unicode_Text
  imports Cbor
begin

text \<open>
The Unicode code of the path policy, \<^verbatim>\<open>unicode/unicode-normalization.ts\<close> and
  \<^verbatim>\<open>unicode/case-fold.ts\<close>: normalisation form C and full case folding with pinned tables, which are
  generated data and a parameter here. The reference is the composition algorithm of UAX 15.
\<close>

section \<open>Code points of a string\<close>

text \<open>
  The string iterator: a surrogate pair is one code point, a lone surrogate stands for itself, and
  \<^verbatim>\<open>String.fromCodePoint\<close>, here on code points up to \<open>0x10ffff\<close>.
\<close>

definition high_surrogate :: "16 word \<Rightarrow> bool" where
  "high_surrogate u \<longleftrightarrow> 0xd800 \<le> u \<and> u \<le> 0xdbff"

definition low_surrogate :: "16 word \<Rightarrow> bool" where
  "low_surrogate u \<longleftrightarrow> 0xdc00 \<le> u \<and> u \<le> 0xdfff"

fun code_points :: "utf16 \<Rightarrow> nat list" where
  "code_points [] = []"
| "code_points [u] = [unat u]"
| "code_points (u # v # rest) =
     (if high_surrogate u \<and> low_surrogate v
      then (0x10000 + (unat u - 0xd800) * 1024 + (unat v - 0xdc00)) # code_points rest
      else unat u # code_points (v # rest))"

definition fromCodePoint :: "nat \<Rightarrow> utf16" where
  "fromCodePoint n =
     (if n < 0x10000 then [of_nat n]
      else [of_nat (0xd800 + (n - 0x10000) div 1024), of_nat (0xdc00 + (n - 0x10000) mod 1024)])"


section \<open>Normalisation with pinned tables\<close>

text \<open>The tables are generated data; the maps a \<^verbatim>\<open>NormalizationTables\<close> holds are a parameter.\<close>

definition SCALAR_LIMIT :: nat where "SCALAR_LIMIT = 0x110000"
definition HANGUL_SYLLABLE_BASE :: int where "HANGUL_SYLLABLE_BASE = 0xac00"
definition HANGUL_LEADING_BASE :: int where "HANGUL_LEADING_BASE = 0x1100"
definition HANGUL_VOWEL_BASE :: int where "HANGUL_VOWEL_BASE = 0x1161"
definition HANGUL_TRAILING_BASE :: int where "HANGUL_TRAILING_BASE = 0x11a7"
definition HANGUL_LEADING_COUNT :: int where "HANGUL_LEADING_COUNT = 19"
definition HANGUL_VOWEL_COUNT :: int where "HANGUL_VOWEL_COUNT = 21"
definition HANGUL_TRAILING_COUNT :: int where "HANGUL_TRAILING_COUNT = 28"
definition HANGUL_BLOCK_COUNT :: int where "HANGUL_BLOCK_COUNT = HANGUL_VOWEL_COUNT * HANGUL_TRAILING_COUNT"
definition HANGUL_SYLLABLE_COUNT :: int where "HANGUL_SYLLABLE_COUNT = HANGUL_LEADING_COUNT * HANGUL_BLOCK_COUNT"
definition OUTPUT_CHUNK_CHARACTERS :: nat where "OUTPUT_CHUNK_CHARACTERS = 4096"

lemmas hangul = HANGUL_SYLLABLE_BASE_def HANGUL_LEADING_BASE_def HANGUL_VOWEL_BASE_def HANGUL_TRAILING_BASE_def
  HANGUL_LEADING_COUNT_def HANGUL_VOWEL_COUNT_def HANGUL_TRAILING_COUNT_def HANGUL_BLOCK_COUNT_def
  HANGUL_SYLLABLE_COUNT_def

record normalization_tables =
  decompositions :: "nat \<Rightarrow> nat list option"
  combiningClasses :: "nat \<Rightarrow> nat option"
  compositions :: "nat \<Rightarrow> nat option"

definition compositionKey :: "nat \<Rightarrow> nat \<Rightarrow> nat" where
  "compositionKey starter next' = starter * SCALAR_LIMIT + next'"

definition combiningClass :: "normalization_tables \<Rightarrow> nat \<Rightarrow> nat" where
  "combiningClass t scalar = (case combiningClasses t scalar of None \<Rightarrow> 0 | Some c \<Rightarrow> c)"

definition decomposeHangul :: "nat \<Rightarrow> nat list option" where
  "decomposeHangul scalar =
     (let syllable = int scalar - HANGUL_SYLLABLE_BASE in
      if syllable < 0 \<or> syllable \<ge> HANGUL_SYLLABLE_COUNT then None
      else let leading = HANGUL_LEADING_BASE + syllable div HANGUL_BLOCK_COUNT;
               vowel = HANGUL_VOWEL_BASE + (syllable mod HANGUL_BLOCK_COUNT) div HANGUL_TRAILING_COUNT;
               trailing = syllable mod HANGUL_TRAILING_COUNT in
      Some (if trailing = 0 then [nat leading, nat vowel]
            else [nat leading, nat vowel, nat (HANGUL_TRAILING_BASE + trailing)]))"

definition decomposition :: "normalization_tables \<Rightarrow> nat \<Rightarrow> nat list" where
  "decomposition t scalar =
     (case decomposeHangul scalar of
        Some xs \<Rightarrow> xs
      | None \<Rightarrow> (case decompositions t scalar of Some xs \<Rightarrow> xs | None \<Rightarrow> [scalar]))"

definition composeHangul :: "nat \<Rightarrow> nat \<Rightarrow> nat option" where
  "composeHangul starter next' =
     (let leading = int starter - HANGUL_LEADING_BASE; vowel = int next' - HANGUL_VOWEL_BASE in
      if leading \<ge> 0 \<and> leading < HANGUL_LEADING_COUNT \<and> vowel \<ge> 0 \<and> vowel < HANGUL_VOWEL_COUNT
      then Some (nat (HANGUL_SYLLABLE_BASE + (leading * HANGUL_VOWEL_COUNT + vowel) * HANGUL_TRAILING_COUNT))
      else let syllable = int starter - HANGUL_SYLLABLE_BASE; trailing = int next' - HANGUL_TRAILING_BASE in
      if syllable \<ge> 0 \<and> syllable < HANGUL_SYLLABLE_COUNT \<and> syllable mod HANGUL_TRAILING_COUNT = 0 \<and>
         trailing > 0 \<and> trailing < HANGUL_TRAILING_COUNT
      then Some (nat (int starter + trailing))
      else None)"

definition compose :: "normalization_tables \<Rightarrow> nat \<Rightarrow> nat \<Rightarrow> nat option" where
  "compose t starter next' =
     (case composeHangul starter next' of
        Some c \<Rightarrow> Some c
      | None \<Rightarrow> compositions t (compositionKey starter next'))"

text \<open>The loop of \<^verbatim>\<open>composeSegment\<close>, with its four variables, over the sorted segment.\<close>

fun compose_loop :: "normalization_tables \<Rightarrow> nat list \<Rightarrow> int \<Rightarrow> nat \<Rightarrow> nat \<Rightarrow> nat list \<Rightarrow> nat list" where
  "compose_loop t result starterPosition starter lastClass [] = result"
| "compose_loop t result starterPosition starter lastClass (scalar # scalars) =
     (let scalarClass = combiningClass t scalar;
          composite = (if starterPosition \<ge> 0 \<and> (lastClass < scalarClass \<or> lastClass = 0)
                       then compose t starter scalar else None) in
      case composite of
        Some c \<Rightarrow> compose_loop t (result[nat starterPosition := c]) starterPosition c lastClass scalars
      | None \<Rightarrow>
          let result' = result @ [scalar] in
          if scalarClass = 0 then compose_loop t result' (int (length result') - 1) scalar scalarClass scalars
          else compose_loop t result' starterPosition starter scalarClass scalars)"

text \<open>\<^verbatim>\<open>Array.prototype.sort\<close> is stable, and so is \<open>sort_key\<close>.\<close>

definition composeSegment :: "normalization_tables \<Rightarrow> nat list \<Rightarrow> nat list" where
  "composeSegment t segment = compose_loop t [] (- 1) 0 0 (sort_key (combiningClass t) segment)"

record nfc_state =
  nf_output :: "utf16 list"
  nf_bufferedOutput :: utf16
  nf_segment :: "nat list"

fun nfc_emit :: "nat list \<Rightarrow> nfc_state \<Rightarrow> nfc_state" where
  "nfc_emit [] st = st"
| "nfc_emit (scalar # scalars) st =
     (let buffered = nf_bufferedOutput st @ fromCodePoint scalar in
      if length buffered \<ge> OUTPUT_CHUNK_CHARACTERS
      then nfc_emit scalars (st\<lparr>nf_output := nf_output st @ [buffered], nf_bufferedOutput := []\<rparr>)
      else nfc_emit scalars (st\<lparr>nf_bufferedOutput := buffered\<rparr>))"

definition nfc_accept :: "normalization_tables \<Rightarrow> nat \<Rightarrow> nfc_state \<Rightarrow> nfc_state" where
  "nfc_accept t scalar st =
     (let scalarClass = combiningClass t scalar; segment = nf_segment st in
      if scalarClass \<noteq> 0 then st\<lparr>nf_segment := segment @ [scalar]\<rparr>
      else if length segment = 0 then st\<lparr>nf_segment := segment @ [scalar]\<rparr>
      else if length segment = 1 \<and> combiningClass t (segment ! 0) = 0 then
        (case compose t (segment ! 0) scalar of
           Some directComposite \<Rightarrow> st\<lparr>nf_segment := segment[0 := directComposite]\<rparr>
         | None \<Rightarrow> (nfc_emit segment st)\<lparr>nf_segment := segment[0 := scalar]\<rparr>)
      else let normalized = composeSegment t segment;
               composite = (if length normalized = 1 \<and> combiningClass t (normalized ! 0) = 0
                            then compose t (normalized ! 0) scalar else None) in
        (case composite of
           Some c \<Rightarrow> st\<lparr>nf_segment := [c]\<rparr>
         | None \<Rightarrow> (nfc_emit normalized st)\<lparr>nf_segment := [scalar]\<rparr>))"

definition normalizeNFC15 :: "normalization_tables \<Rightarrow> utf16 \<Rightarrow> utf16" where
  "normalizeNFC15 t v =
     (let st = fold (nfc_accept t) (concat (map (decomposition t) (code_points v)))
            \<lparr>nf_output = [], nf_bufferedOutput = [], nf_segment = []\<rparr>;
          st = nfc_emit (composeSegment t (nf_segment st)) st in
      concat (if nf_bufferedOutput st \<noteq> [] then nf_output st @ [nf_bufferedOutput st] else nf_output st))"


section \<open>Case folding\<close>

text \<open>\<open>mappings\<close> is the map \<^verbatim>\<open>foldMappings()\<close> builds from the generated data.\<close>

function fold_loop :: "(nat \<Rightarrow> utf16 option) \<Rightarrow> utf16 \<Rightarrow> utf16 \<Rightarrow> nat \<Rightarrow> nat \<Rightarrow> utf16" where
  "fold_loop mappings v output unchangedStart offset =
     (if offset \<ge> length v then output @ drop unchangedStart v
      else let scalar = hd (code_points (drop offset v)); width = (if scalar > 0xffff then 2 else 1) in
      case mappings scalar of
        Some replacement \<Rightarrow>
          fold_loop mappings v (output @ take (offset - unchangedStart) (drop unchangedStart v) @ replacement)
            (offset + width) (offset + width)
      | None \<Rightarrow> fold_loop mappings v output unchangedStart (offset + width))"
  by pat_completeness auto
termination
  by (relation "measure (\<lambda>(_, v, _, _, offset). length v - offset)") auto

declare fold_loop.simps [simp del]

definition fullCaseFold15 :: "(nat \<Rightarrow> utf16 option) \<Rightarrow> utf16 \<Rightarrow> utf16" where
  "fullCaseFold15 mappings v = fold_loop mappings v [] 0 0"

definition foldPortableName15 :: "normalization_tables \<Rightarrow> (nat \<Rightarrow> utf16 option) \<Rightarrow> utf16 \<Rightarrow> utf16" where
  "foldPortableName15 t mappings v = normalizeNFC15 t (fullCaseFold15 mappings v)"


section \<open>The composition algorithm of UAX 15\<close>

text \<open>
  The reference: canonical ordering sorts every run of combining marks by class, and a character is
  composed with the last starter unless one of the marks \<open>ms\<close> kept since then blocks it (D115).
\<close>

fun canonical_order :: "normalization_tables \<Rightarrow> nat list \<Rightarrow> nat list \<Rightarrow> nat list" where
  "canonical_order t run [] = sort_key (combiningClass t) run"
| "canonical_order t run (x # xs) =
     (if combiningClass t x = 0 then sort_key (combiningClass t) run @ x # canonical_order t [] xs
      else canonical_order t (run @ [x]) xs)"

definition blocked :: "normalization_tables \<Rightarrow> nat list \<Rightarrow> nat \<Rightarrow> bool" where
  "blocked t ms x \<longleftrightarrow> list_ex (\<lambda>b. combiningClass t b = 0 \<or> combiningClass t b \<ge> combiningClass t x) ms"

fun canonical_compose :: "normalization_tables \<Rightarrow> (nat \<times> nat list) option \<Rightarrow> nat list \<Rightarrow> nat list" where
  "canonical_compose t None [] = []"
| "canonical_compose t None (x # xs) =
     (if combiningClass t x = 0 then canonical_compose t (Some (x, [])) xs else x # canonical_compose t None xs)"
| "canonical_compose t (Some (s, ms)) [] = s # ms"
| "canonical_compose t (Some (s, ms)) (x # xs) =
     (case if blocked t ms x then None else compose t s x of
        Some c \<Rightarrow> canonical_compose t (Some (c, ms)) xs
      | None \<Rightarrow> if combiningClass t x = 0 then s # ms @ canonical_compose t (Some (x, [])) xs
               else canonical_compose t (Some (s, ms @ [x])) xs)"

definition nfc :: "normalization_tables \<Rightarrow> nat list \<Rightarrow> nat list" where
  "nfc t xs = canonical_compose t None (canonical_order t [] (concat (map (decomposition t) xs)))"

text \<open>A property of the Unicode data: what a pair composes to has combining class 0.\<close>

definition starters :: "normalization_tables \<Rightarrow> bool" where
  "starters t \<longleftrightarrow> (\<forall>a b c. compose t a b = Some c \<longrightarrow> combiningClass t c = 0)"

subsection \<open>One run of marks\<close>

fun absorb :: "normalization_tables \<Rightarrow> nat \<Rightarrow> nat list \<Rightarrow> nat list \<Rightarrow> nat \<times> nat list" where
  "absorb t s ms [] = (s, ms)"
| "absorb t s ms (x # xs) =
     (case if blocked t ms x then None else compose t s x of
        Some c \<Rightarrow> absorb t c ms xs
      | None \<Rightarrow> absorb t s (ms @ [x]) xs)"

abbreviation marks :: "normalization_tables \<Rightarrow> nat list \<Rightarrow> bool" where
  "marks t run \<equiv> \<forall>x \<in> set run. combiningClass t x \<noteq> 0"

lemma compose_run:
  "marks t run \<Longrightarrow> canonical_compose t (Some (s, ms)) (run @ rest) = canonical_compose t (Some (absorb t s ms run)) rest"
  by (induction t s ms run rule: absorb.induct) (simp_all split: option.splits)

lemma compose_leading:
  "marks t run \<Longrightarrow> canonical_compose t None (run @ rest) = run @ canonical_compose t None rest"
  by (induction run) simp_all

lemma absorb_marks: "marks t run \<Longrightarrow> marks t ms \<Longrightarrow> marks t (snd (absorb t s ms run))"
  by (induction t s ms run rule: absorb.induct) (auto split: option.splits)

lemma absorb_starter: "starters t \<Longrightarrow> combiningClass t s = 0 \<Longrightarrow> combiningClass t (fst (absorb t s ms run)) = 0"
  by (induction t s ms run rule: absorb.induct) (auto simp add: starters_def split: option.splits)

definition last_class :: "normalization_tables \<Rightarrow> nat list \<Rightarrow> nat" where
  "last_class t ms = (if ms = [] then 0 else combiningClass t (last ms))"

lemma blocked_last:
  assumes "marks t ms" "sorted (map (combiningClass t) ms)" "combiningClass t x \<noteq> 0"
  shows "blocked t ms x \<longleftrightarrow> \<not> (last_class t ms < combiningClass t x \<or> last_class t ms = 0)"
proof (cases ms rule: rev_cases)
  case (snoc bs b)
  have "combiningClass t a \<le> combiningClass t b" if "a \<in> set ms" for a
    using that assms(2) snoc by (auto simp add: sorted_append)
  then show ?thesis
    using assms(1,3) snoc by (fastforce simp add: blocked_def last_class_def list_ex_iff)
qed (simp add: blocked_def last_class_def)

lemma compose_loop_run:
  assumes "marks t run" "marks t ms" "sorted (map (combiningClass t) (ms @ run))"
  shows "compose_loop t (s # ms) 0 s (last_class t ms) run = (case absorb t s ms run of (s', ms') \<Rightarrow> s' # ms')"
  using assms
proof (induction run arbitrary: s ms)
  case (Cons x xs)
  have x: "combiningClass t x \<noteq> 0" and xs: "marks t xs"
    using Cons.prems(1) by auto
  have sorted: "sorted (map (combiningClass t) ms)" "sorted (map (combiningClass t) (ms @ xs))"
      "sorted (map (combiningClass t) ((ms @ [x]) @ xs))"
    using Cons.prems(3) by (auto simp add: sorted_append)
  note b = blocked_last [OF Cons.prems(2) sorted(1) x]
  have "compose_loop t (s # ms @ [x]) 0 s (combiningClass t x) xs =
      (case absorb t s (ms @ [x]) xs of (s', ms') \<Rightarrow> s' # ms')"
    using Cons.IH [OF xs _ sorted(3), of s] Cons.prems(2) x by (simp add: last_class_def)
  moreover have "compose_loop t (c # ms) 0 c (last_class t ms) xs = (case absorb t c ms xs of (s', ms') \<Rightarrow> s' # ms')" for c
    by (rule Cons.IH [OF xs Cons.prems(2) sorted(2)])
  ultimately show ?case
    using b x by (simp split: option.splits)
qed simp

lemma compose_loop_leading:
  "marks t run \<Longrightarrow> compose_loop t result (- 1) s lc run = result @ run"
  by (induction run arbitrary: result lc) simp_all

lemma sort_key_starter: "f s = (0 :: nat) \<Longrightarrow> sort_key f (s # run) = s # sort_key f run"
  by (cases "sort_key f run") simp_all

lemma composeSegment_starter:
  assumes "combiningClass t s = 0" "marks t run"
  shows "composeSegment t (s # run) =
    (case absorb t s [] (sort_key (combiningClass t) run) of (s', ms') \<Rightarrow> s' # ms')"
proof -
  have "compose_loop t [s] 0 s 0 (sort_key (combiningClass t) run) =
      (case absorb t s [] (sort_key (combiningClass t) run) of (s', ms') \<Rightarrow> s' # ms')"
    using compose_loop_run [of "sort_key (combiningClass t) run" t "[]" s] assms(2) by (simp add: last_class_def)
  then show ?thesis
    by (simp add: composeSegment_def sort_key_starter assms(1) del: sort_key_simps)
qed

lemma composeSegment_marks: "marks t run \<Longrightarrow> composeSegment t run = sort_key (combiningClass t) run"
  by (simp add: composeSegment_def compose_loop_leading)

subsection \<open>The streaming algorithm\<close>

text \<open>What the reference still makes of the pending segment and the characters to come.\<close>

definition answer :: "normalization_tables \<Rightarrow> nat list \<Rightarrow> nat list \<Rightarrow> nat list" where
  "answer t g rest =
     (case g of
        [] \<Rightarrow> canonical_compose t None (canonical_order t [] rest)
      | s # run \<Rightarrow>
          if combiningClass t s = 0 then canonical_compose t (Some (s, [])) (canonical_order t run rest)
          else canonical_compose t None (canonical_order t g rest))"

definition segment_ok :: "normalization_tables \<Rightarrow> nat list \<Rightarrow> bool" where
  "segment_ok t g \<longleftrightarrow> marks t (tl g)"

lemma answer_end: "segment_ok t g \<Longrightarrow> answer t g [] = composeSegment t g"
proof (cases g)
  case (Cons s run)
  assume ok: "segment_ok t g"
  then have run: "marks t run"
    by (simp add: segment_ok_def Cons)
  let ?run = "sort_key (combiningClass t) run"
  show ?thesis
  proof (cases "combiningClass t s = 0")
    case True
    have "canonical_compose t (Some (s, [])) ?run = canonical_compose t (Some (absorb t s [] ?run)) []"
      using compose_run [of ?run t s "[]" "[]"] run by simp
    then show ?thesis
      using run True by (simp add: answer_def Cons composeSegment_starter split: prod.splits)
  next
    case False
    then have m: "marks t (s # run)" using run by simp
    show ?thesis
      using compose_leading [of "sort_key (combiningClass t) (s # run)" t "[]"] m False
      by (simp add: answer_def Cons composeSegment_marks del: sort_key_simps)
  qed
qed (simp add: answer_def composeSegment_def)

text \<open>The scalars that leave and the new segment, for a starter after a segment with marks.\<close>

lemma answer_starter:
  assumes t: "starters t" and x: "combiningClass t x = 0" and g: "g \<noteq> []" "segment_ok t g"
  shows "answer t g (x # rest) =
    (let n = composeSegment t g in
     case if length n = 1 \<and> combiningClass t (n ! 0) = 0 then compose t (n ! 0) x else None of
       Some c \<Rightarrow> answer t [c] rest
     | None \<Rightarrow> n @ answer t [x] rest)"
proof -
  obtain s run where sr: "g = s # run"
    using g(1) by (cases g) auto
  then have run: "marks t run"
    using g(2) by (simp add: segment_ok_def)
  let ?sort = "sort_key (combiningClass t)"
  show ?thesis
  proof (cases "combiningClass t s = 0")
    case True
    obtain s' ms where ab: "absorb t s [] (?sort run) = (s', ms)"
      by (cases "absorb t s [] (?sort run)")
    have ms: "marks t ms" and s': "combiningClass t s' = 0"
      using absorb_marks [of "?sort run" t "[]" s] absorb_starter [OF t True, of "[]" "?sort run"] run ab by simp_all
    have n: "composeSegment t g = s' # ms"
      using composeSegment_starter [OF True run] ab sr by simp
    have bl: "blocked t ms x \<longleftrightarrow> ms \<noteq> []"
      using x by (cases ms) (simp_all add: blocked_def)
    have "answer t g (x # rest) = canonical_compose t (Some (s', ms)) (x # canonical_order t [] rest)"
      using compose_run [of "?sort run" t s "[]"] run ab x True by (simp add: answer_def sr)
    then show ?thesis
      using t x s' by (auto simp add: n bl answer_def starters_def split: option.splits)
  next
    case False
    then have m: "marks t (?sort g)"
      using run sr by (simp del: sort_key_simps)
    have n: "composeSegment t g = ?sort g"
      using False run by (simp add: composeSegment_marks sr)
    have "answer t g (x # rest) = ?sort g @ canonical_compose t None (x # canonical_order t [] rest)"
      using compose_leading [OF m] False x by (simp add: answer_def sr del: sort_key_simps)
    moreover have "combiningClass t (?sort g ! 0) \<noteq> 0" if "length (?sort g) = 1"
    proof -
      have "?sort g ! 0 \<in> set (?sort g)"
        by (rule nth_mem) (simp only: that zero_less_one)
      then show ?thesis using m by blast
    qed
    ultimately show ?thesis
      using x unfolding n Let_def by (auto simp add: answer_def)
  qed
qed


definition emitted :: "nfc_state \<Rightarrow> utf16" where
  "emitted st = concat (nf_output st) @ nf_bufferedOutput st"

lemma emit_simps [simp]:
  "emitted (nfc_emit xs st) = emitted st @ concat (map fromCodePoint xs)"
  "nf_segment (nfc_emit xs st) = nf_segment st"
  by (induction xs st rule: nfc_emit.induct) (simp_all add: Let_def emitted_def)

declare nfc_emit.simps [simp del]

lemma emitted_segment [simp]: "emitted (st\<lparr>nf_segment := g\<rparr>) = emitted st"
  by (simp add: emitted_def)

lemma accept_step:
  assumes t: "starters t" and ok: "segment_ok t (nf_segment st)"
  shows "segment_ok t (nf_segment (nfc_accept t x st))"
    and "emitted (nfc_accept t x st) @ concat (map fromCodePoint (answer t (nf_segment (nfc_accept t x st)) rest)) =
      emitted st @ concat (map fromCodePoint (answer t (nf_segment st) (x # rest)))"
proof -
  let ?g = "nf_segment st"
  consider (mark) "combiningClass t x \<noteq> 0" | (first) "combiningClass t x = 0" "?g = []"
    | (direct) s where "combiningClass t x = 0" "?g = [s]" "combiningClass t s = 0"
    | (segment) "combiningClass t x = 0" "?g \<noteq> []" "\<not> (length ?g = 1 \<and> combiningClass t (?g ! 0) = 0)"
    by (cases ?g rule: remdups_adj.cases) auto
  then have "segment_ok t (nf_segment (nfc_accept t x st)) \<and>
    emitted (nfc_accept t x st) @ concat (map fromCodePoint (answer t (nf_segment (nfc_accept t x st)) rest)) =
      emitted st @ concat (map fromCodePoint (answer t ?g (x # rest)))"
  proof cases
    case mark
    then show ?thesis
      using ok by (cases ?g) (simp_all add: nfc_accept_def segment_ok_def answer_def)
  next
    case first
    then show ?thesis
      by (simp add: nfc_accept_def segment_ok_def answer_def)
  next
    case direct
    then show ?thesis
      using t by (auto simp add: nfc_accept_def segment_ok_def answer_def blocked_def starters_def split: option.splits)
  next
    case segment
    note a = answer_starter [OF t segment(1,2) ok, of rest]
    show ?thesis
      using segment(1,2) unfolding nfc_accept_def Let_def if_not_P [OF segment(3)] a
      by (simp add: segment_ok_def split: option.splits)
  qed
  then show "segment_ok t (nf_segment (nfc_accept t x st))"
    and "emitted (nfc_accept t x st) @ concat (map fromCodePoint (answer t (nf_segment (nfc_accept t x st)) rest)) =
      emitted st @ concat (map fromCodePoint (answer t ?g (x # rest)))" by simp_all
qed

lemma accept_fold:
  assumes t: "starters t"
  shows "segment_ok t (nf_segment st) \<Longrightarrow>
    emitted (fold (nfc_accept t) xs st) @
      concat (map fromCodePoint (composeSegment t (nf_segment (fold (nfc_accept t) xs st)))) =
    emitted st @ concat (map fromCodePoint (answer t (nf_segment st) xs))"
proof (induction xs arbitrary: st)
  case (Cons x xs)
  then show ?case
    using accept_step [OF t Cons.prems] by simp
qed (simp add: answer_end)

lemma normalizeNFC15_reference:
  assumes "starters t"
  shows "normalizeNFC15 t v = concat (map fromCodePoint (nfc t (code_points v)))"
proof -
  let ?init = "\<lparr>nf_output = [], nf_bufferedOutput = [], nf_segment = []\<rparr>"
  let ?st = "fold (nfc_accept t) (concat (map (decomposition t) (code_points v))) ?init"
  have "normalizeNFC15 t v = emitted (nfc_emit (composeSegment t (nf_segment ?st)) ?st)"
    by (simp add: normalizeNFC15_def Let_def emitted_def)
  also have "\<dots> = concat (map fromCodePoint (nfc t (code_points v)))"
    using accept_fold [OF assms, of ?init "concat (map (decomposition t) (code_points v))"]
    by (simp add: segment_ok_def answer_def nfc_def emitted_def [of ?init])
  finally show ?thesis .
qed


text \<open>
  C28. The streaming \<^verbatim>\<open>normalizeNFC15\<close>, which keeps one segment, composes early and flushes its output in
  chunks, computes the normal form of UAX 15: decomposition, canonical ordering of every run of marks,
  and composition with the last starter unless blocked. The tables are arbitrary, except that what a
  pair composes to has combining class 0.
\<close>

theorem normalization_is_uax15:
  assumes "starters t"
  shows "normalizeNFC15 t v = concat (map fromCodePoint (nfc t (code_points v)))"
  by (rule normalizeNFC15_reference [OF assms])

text \<open>Tables with one mark of class 230 that composes with the letter A.\<close>

definition sample_tables :: normalization_tables where
  "sample_tables = \<lparr>decompositions = (\<lambda>c. if c = 0xc0 then Some [0x41, 0x300] else None),
     combiningClasses = (\<lambda>c. if c = 0x300 then Some 230 else if c = 0x327 then Some 202 else None),
     compositions = (\<lambda>k. if k = compositionKey 0x41 0x300 then Some 0xc0 else None)\<rparr>"

lemma composeHangul_range: "composeHangul a b = Some c \<Longrightarrow> 0xac00 \<le> c"
  by (auto simp add: composeHangul_def hangul Let_def split: if_splits)

lemma sample_starters: "starters sample_tables"
  by (auto simp add: starters_def compose_def sample_tables_def combiningClass_def dest!: composeHangul_range
      split: option.splits if_splits)

theorem normalization_is_uax15_witness:
  "normalizeNFC15 sample_tables [0x41, 0x300, 0x327, 0x42] = [0xc0, 0x327, 0x42]"
proof -
  have "nfc sample_tables (code_points [0x41, 0x300, 0x327, 0x42]) = [0xc0, 0x327, 0x42]"
    by (simp add: nfc_def decomposition_def decomposeHangul_def hangul combiningClass_def sample_tables_def
        blocked_def compose_def composeHangul_def compositionKey_def SCALAR_LIMIT_def high_surrogate_def)
  then show ?thesis
    using normalization_is_uax15 [OF sample_starters, of "[0x41, 0x300, 0x327, 0x42]"] by (simp add: fromCodePoint_def)
qed

subsection \<open>Hangul\<close>

lemma mixed_digits: "a * 588 + m = k \<Longrightarrow> b * 28 + r = m \<Longrightarrow> (a * 21 + b) * 28 + r = (k :: int)"
  by (auto simp add: algebra_simps)

lemma hangul_digits:
  fixes k :: int
  assumes "0 \<le> k" "k < 11172"
  shows "0 \<le> k div 588" "k div 588 < 19" "0 \<le> k mod 588 div 28" "k mod 588 div 28 < 21"
    "(k div 588 * 21 + k mod 588 div 28) * 28 + k mod 28 = k"
proof -
  have m: "0 \<le> k mod 588" "k mod 588 < 588" "k mod 588 mod 28 = k mod 28"
    by (simp_all add: mod_mod_cancel)
  show "0 \<le> k div 588" "k div 588 < 19" "0 \<le> k mod 588 div 28" "k mod 588 div 28 < 21"
    using assms m(1,2) zdiv_mono1 [of k 11171 588] zdiv_mono1 [of "k mod 588" 587 28]
    by (simp_all add: pos_imp_zdiv_nonneg_iff)
  have "k div 588 * 588 + k mod 588 = k" "k mod 588 div 28 * 28 + k mod 588 mod 28 = k mod 588"
    by (rule div_mult_mod_eq)+
  then show "(k div 588 * 21 + k mod 588 div 28) * 28 + k mod 28 = k"
    unfolding m(3) by (rule mixed_digits)
qed


lemma hangul_compose:
  fixes k :: int
  assumes "0 \<le> k" "k < 11172"
  defines "l \<equiv> nat (0x1100 + k div 588)" and "v \<equiv> nat (0x1161 + k mod 588 div 28)"
  shows "composeHangul l v = Some (nat (0xac00 + (k - k mod 28)))"
    and "k mod 28 \<noteq> 0 \<Longrightarrow> composeHangul (nat (0xac00 + (k - k mod 28))) (nat (0x11a7 + k mod 28)) = Some (nat (0xac00 + k))"
proof -
  note d = hangul_digits [OF assms(1,2)]
  have "(k div 588 * 21 + k mod 588 div 28) * 28 = k - k mod 28"
    using d(5) by simp
  then show "composeHangul l v = Some (nat (0xac00 + (k - k mod 28)))"
    using d(1-4) by (simp add: composeHangul_def hangul l_def v_def)
  have m: "0 \<le> k mod 28" "k mod 28 < 28" "k mod 28 \<le> k" "(k - k mod 28) mod 28 = 0"
    using assms(1) by (simp_all add: zmod_le_nonneg_dividend mod_diff_right_eq)
  show "composeHangul (nat (0xac00 + (k - k mod 28))) (nat (0x11a7 + k mod 28)) = Some (nat (0xac00 + k))"
    if "k mod 28 \<noteq> 0"
  proof -
    have "0 < k mod 28" "k - k mod 28 < 11172" "int (nat (0xac00 + (k - k mod 28))) = 0xac00 + (k - k mod 28)"
      using m(1-3) assms(1,2) that by linarith+
    then show ?thesis
      using m by (simp add: composeHangul_def hangul Let_def)
  qed
qed

lemma hangul_decompose:
  fixes k :: int
  assumes "0 \<le> k" "k < 11172"
  shows "decomposeHangul (nat (0xac00 + k)) =
    Some (if k mod 28 = 0 then [nat (0x1100 + k div 588), nat (0x1161 + k mod 588 div 28)]
      else [nat (0x1100 + k div 588), nat (0x1161 + k mod 588 div 28), nat (0x11a7 + k mod 28)])"
  using assms by (simp add: decomposeHangul_def hangul Let_def)

text \<open>
  Every Hangul syllable decomposes into its two or three letters, and composing those letters
  pairwise gives the syllable back: normalisation maps the syllable to itself whenever the tables say
  nothing about the letters.
\<close>

theorem hangul_round_trip:
  assumes "0xac00 \<le> s" "s < 0xac00 + 11172" "\<forall>x \<in> set (decomposition t s). combiningClasses t x = None"
  shows "((\<exists>l v. decomposeHangul s = Some [l, v] \<and> composeHangul l v = Some s) \<or>
      (\<exists>l v lv tr. decomposeHangul s = Some [l, v, tr] \<and> composeHangul l v = Some lv \<and> composeHangul lv tr = Some s)) \<and>
    nfc t [s] = [s]"
proof -
  obtain k where s: "s = nat (0xac00 + k)" and k: "0 \<le> k" "k < 11172"
    using assms(1,2) by (intro that [of "int s - 0xac00"]) auto
  note c = hangul_compose [OF k] and dec = hangul_decompose [OF k]
  have cl: "combiningClass t x = 0" if "x \<in> set (decomposition t s)" for x
    using assms(3) that by (simp add: combiningClass_def)
  show ?thesis
  proof (cases "k mod 28 = 0")
    case True
    let ?l = "nat (0x1100 + k div 588)" and ?v = "nat (0x1161 + k mod 588 div 28)"
    have d: "decomposeHangul s = Some [?l, ?v]" and h: "composeHangul ?l ?v = Some s"
      using dec c(1) True s by simp_all
    have "nfc t [s] = [s]"
      using cl h by (simp add: nfc_def decomposition_def d compose_def blocked_def)
    with d h show ?thesis by blast
  next
    case False
    let ?l = "nat (0x1100 + k div 588)" and ?v = "nat (0x1161 + k mod 588 div 28)" and ?tr = "nat (0x11a7 + k mod 28)"
      and ?lv = "nat (0xac00 + (k - k mod 28))"
    have d: "decomposeHangul s = Some [?l, ?v, ?tr]" and h: "composeHangul ?l ?v = Some ?lv" "composeHangul ?lv ?tr = Some s"
      using dec c False unfolding s by simp_all
    have "nfc t [s] = [s]"
      using cl h by (simp add: nfc_def decomposition_def d compose_def blocked_def)
    with d h show ?thesis by blast
  qed
qed

theorem hangul_round_trip_witness: "nfc sample_tables [0xac01] = [0xac01]"
proof -
  have "\<forall>x \<in> set (decomposition sample_tables 0xac01). combiningClasses sample_tables x = None"
    by (simp add: decomposition_def decomposeHangul_def hangul sample_tables_def)
  then show ?thesis
    using hangul_round_trip [of "0xac01" sample_tables] by simp
qed

section \<open>Code points and code units\<close>

lemma surrogate_nat:
  "high_surrogate u \<longleftrightarrow> 0xd800 \<le> unat u \<and> unat u \<le> 0xdbff"
  "low_surrogate u \<longleftrightarrow> 0xdc00 \<le> unat u \<and> unat u \<le> 0xdfff"
  by (simp_all add: high_surrogate_def low_surrogate_def word_le_nat_alt)

lemma unat_unit: "unat (u :: 16 word) < 0x10000"
  using unsigned_less [of u] by simp

text \<open>The first code point, its width in code units and the rest.\<close>

lemma code_points_first:
  assumes "v \<noteq> []"
  defines "c \<equiv> hd (code_points v)"
  defines "w \<equiv> if c > 0xffff then 2 else 1"
  shows "code_points v = c # code_points (drop w v) \<and> take w v = fromCodePoint c \<and> w \<le> length v"
proof (cases v rule: code_points.cases)
  case (2 u)
  then have "c = unat u" by (simp add: c_def)
  then show ?thesis
    using unat_unit [of u] 2 by (simp add: w_def fromCodePoint_def)
next
  case (3 u x rest)
  show ?thesis
  proof (cases "high_surrogate u \<and> low_surrogate x")
    case True
    let ?a = "unat u - 0xd800" and ?b = "unat x - 0xdc00"
    have n: "unat u = 0xd800 + ?a" "unat x = 0xdc00 + ?b" "?b < 1024" "?a < 1024"
      using True by (auto simp add: surrogate_nat)
    have c: "c = 0x10000 + ?a * 1024 + ?b"
      using True 3 by (simp add: c_def)
    have "fromCodePoint c = [of_nat (0xd800 + ?a), of_nat (0xdc00 + ?b)]"
      unfolding c using n(3) by (simp add: fromCodePoint_def)
    then show ?thesis
      using True 3 n(1,2) [symmetric] c by (simp add: w_def)
  next
    case False
    then have "c = unat u" using 3 by (auto simp add: c_def)
    then show ?thesis
      using unat_unit [of u] 3 False by (auto simp add: w_def fromCodePoint_def)
  qed
qed (use assms in simp)

lemma concat_code_points: "concat (map fromCodePoint (code_points v)) = v"
proof (induction v rule: length_induct)
  case (1 v)
  show ?case
  proof (cases "v = []")
    case False
    define c where "c = hd (code_points v)"
    define w where "w = (if c > 0xffff then 2 else 1 :: nat)"
    have f: "code_points v = c # code_points (drop w v)" "take w v = fromCodePoint c" "w \<le> length v"
      using code_points_first [OF False] unfolding c_def [symmetric] w_def [symmetric] by auto
    have "length (drop w v) < length v"
      using False by (simp add: w_def)
    then show ?thesis
      using 1 f(1,2) append_take_drop_id [of w v] by simp
  qed simp
qed

lemma code_points_inj: "code_points v = code_points w \<Longrightarrow> v = w"
  by (metis concat_code_points)

section \<open>Folding by code point\<close>

definition fold_point :: "(nat \<Rightarrow> utf16 option) \<Rightarrow> nat \<Rightarrow> utf16" where
  "fold_point mappings c = (case mappings c of Some r \<Rightarrow> r | None \<Rightarrow> fromCodePoint c)"

lemma fold_loop_points:
  "unchangedStart \<le> offset \<Longrightarrow> offset \<le> length v \<Longrightarrow>
   fold_loop mappings v acc unchangedStart offset =
     acc @ take (offset - unchangedStart) (drop unchangedStart v) @
     concat (map (fold_point mappings) (code_points (drop offset v)))"
proof (induction mappings v acc unchangedStart offset rule: fold_loop.induct)
  case (1 mappings v acc u offset)
  show ?case
  proof (cases "offset < length v")
    case False
    then show ?thesis
      using 1(4) by (simp add: fold_loop.simps)
  next
    case True
    define c where "c = hd (code_points (drop offset v))"
    define w where "w = (if c > 0xffff then 2 else 1 :: nat)"
    have ne: "drop offset v \<noteq> []"
      using True by simp
    have f: "code_points (drop offset v) = c # code_points (drop (offset + w) v)"
      "take w (drop offset v) = fromCodePoint c" "offset + w \<le> length v"
      using code_points_first [OF ne] True unfolding c_def [symmetric] w_def [symmetric]
      by (auto simp add: add.commute)
    have nl: "\<not> length v \<le> offset"
      using True by simp
    have step: "fold_loop mappings v acc u offset =
      (case mappings c of
         Some r \<Rightarrow> fold_loop mappings v (acc @ take (offset - u) (drop u v) @ r) (offset + w) (offset + w)
       | None \<Rightarrow> fold_loop mappings v acc u (offset + w))"
      unfolding fold_loop.simps [of mappings v acc u offset] Let_def if_not_P [OF nl] c_def [symmetric] w_def [symmetric] ..
    have grow: "take (offset + w - u) (drop u v) = take (offset - u) (drop u v) @ fromCodePoint c"
    proof -
      have "offset + w - u = (offset - u) + w" "offset - u + u = offset"
        using 1(3) by simp_all
      then show ?thesis
        unfolding f(2) [symmetric] by (simp only: take_add drop_drop)
    qed
    show ?thesis
    proof (cases "mappings c")
      case None
      have "fold_loop mappings v acc u (offset + w) =
        acc @ take (offset + w - u) (drop u v) @ concat (map (fold_point mappings) (code_points (drop (offset + w) v)))"
        using 1(1) [OF nl c_def w_def None] 1(3) f(3) by simp
      then show ?thesis
        using step None grow f(1) by (simp add: fold_point_def [of mappings c])
    next
      case (Some r)
      have "fold_loop mappings v (acc @ take (offset - u) (drop u v) @ r) (offset + w) (offset + w) =
        (acc @ take (offset - u) (drop u v) @ r) @ concat (map (fold_point mappings) (code_points (drop (offset + w) v)))"
        using 1(2) [OF nl c_def w_def Some] f(3) by simp
      then show ?thesis
        using step Some f(1) by (simp add: fold_point_def [of mappings c])
    qed
  qed
qed


text \<open>
  \<^verbatim>\<open>fullCaseFold15\<close>, which copies unchanged stretches by slices, replaces every code point that
  has a mapping and keeps every other one.
\<close>

theorem case_fold_per_code_point:
  "fullCaseFold15 mappings v = concat (map (fold_point mappings) (code_points v))"
  by (simp add: fullCaseFold15_def fold_loop_points)

end
