(* ===== verification/Path_Policy.thy ===== *)
theory Path_Policy
  imports Unicode_Text
begin

text \<open>
The path policy of the catalog, \<^verbatim>\<open>catalog/path-policy.ts\<close>, and the UTF-8 encoder it uses: which
  names and paths a share may contain, the local composition of a path and the keys under which
  names collide.
\<close>

section \<open>UTF-8\<close>

text \<open>\<^verbatim>\<open>TextEncoder.encode\<close>: a lone surrogate becomes the replacement character.\<close>

definition scalar_value :: "nat \<Rightarrow> nat" where
  "scalar_value c = (if 0xd800 \<le> c \<and> c \<le> 0xdfff then 0xfffd else c)"

definition utf8_scalar :: "nat \<Rightarrow> bytes" where
  "utf8_scalar c =
     (if c < 0x80 then [octet c]
      else if c < 0x800 then [octet (0xc0 + c div 64), octet (0x80 + c mod 64)]
      else if c < 0x10000 then
        [octet (0xe0 + c div 4096), octet (0x80 + c div 64 mod 64), octet (0x80 + c mod 64)]
      else [octet (0xf0 + c div 262144), octet (0x80 + c div 4096 mod 64), octet (0x80 + c div 64 mod 64),
        octet (0x80 + c mod 64)])"

definition text_encode :: "utf16 \<Rightarrow> bytes" where
  "text_encode s = concat (map (\<lambda>c. utf8_scalar (scalar_value c)) (code_points s))"

text \<open>ASCII string literals.\<close>

definition js_text :: "string \<Rightarrow> utf16" where
  "js_text s = map of_char s"


section \<open>The path policy\<close>

datatype type_error = TypeError

definition CATALOG_NAME_BYTES :: nat where "CATALOG_NAME_BYTES = 4 * 1024"
definition CATALOG_PATH_BYTES :: int where "CATALOG_PATH_BYTES = 32 * 1024"
definition CATALOG_PATH_DEPTH :: nat where "CATALOG_PATH_DEPTH = 256"
definition RESERVED_OUTPUT_PREFIX :: utf16 where "RESERVED_OUTPUT_PREFIX = js_text ''.wsresume''"

definition FORMAT_CHARACTER_RANGES :: "(nat \<times> nat) list" where
  "FORMAT_CHARACTER_RANGES = [
     (0x00ad, 0x00ad), (0x0600, 0x0605), (0x061c, 0x061c), (0x06dd, 0x06dd), (0x070f, 0x070f),
     (0x0890, 0x0891), (0x08e2, 0x08e2), (0x180e, 0x180e), (0x200b, 0x200f), (0x202a, 0x202e),
     (0x2060, 0x2064), (0x2066, 0x206f), (0xfeff, 0xfeff), (0xfff9, 0xfffb), (0x110bd, 0x110bd),
     (0x110cd, 0x110cd), (0x13430, 0x1343f), (0x1bca0, 0x1bca3), (0x1d173, 0x1d17a),
     (0xe0001, 0xe0001), (0xe0020, 0xe007f)]"

text \<open>The copy of the well-formedness test in \<^verbatim>\<open>path-policy.ts\<close>.\<close>

fun path_isWellFormedUnicode :: "utf16 \<Rightarrow> bool" where
  "path_isWellFormedUnicode [] = True"
| "path_isWellFormedUnicode (unit # rest) =
     (if unit \<ge> 0xd800 \<and> unit \<le> 0xdbff then
        (case rest of
           [] \<Rightarrow> False
         | next' # rest' \<Rightarrow> if \<not> (next' \<ge> 0xdc00 \<and> next' \<le> 0xdfff) then False else path_isWellFormedUnicode rest')
      else if unit \<ge> 0xdc00 \<and> unit \<le> 0xdfff then False
      else path_isWellFormedUnicode rest)"

text \<open>The loop of \<^verbatim>\<open>isFormatCharacter\<close>.\<close>

function format_search :: "(nat \<times> nat) list \<Rightarrow> nat \<Rightarrow> nat \<Rightarrow> nat \<Rightarrow> bool" where
  "format_search ranges scalar low high =
     (if \<not> low < high then False
      else let middle = low + (high - low) div 2 in
      if \<not> middle < length ranges then False
      else if scalar < fst (ranges ! middle) then format_search ranges scalar low middle
      else if scalar > snd (ranges ! middle) then format_search ranges scalar (middle + 1) high
      else True)"
  by pat_completeness auto
termination
  by (relation "measure (\<lambda>(_, _, low, high). high - low)") (auto intro: diff_less_mono2)

declare format_search.simps [simp del]

definition isFormatCharacter :: "nat \<Rightarrow> bool" where
  "isFormatCharacter scalar =
     format_search FORMAT_CHARACTER_RANGES scalar 0 (length FORMAT_CHARACTER_RANGES)"

definition isControlOrFormatCharacter :: "nat \<Rightarrow> bool" where
  "isControlOrFormatCharacter scalar =
     (if scalar = 0x00ad \<or> scalar = 0x200c \<or> scalar = 0x200d then False
      else scalar \<le> 0x1f \<or> (scalar \<ge> 0x7f \<and> scalar \<le> 0x9f) \<or> isFormatCharacter scalar)"

definition isCatalogName :: "normalization_tables \<Rightarrow> utf16 \<Rightarrow> bool" where
  "isCatalogName t name =
     (if length name = 0 \<or> length name > CATALOG_NAME_BYTES \<or> name = js_text ''.'' \<or> name = js_text ''..'' \<or>
         \<not> path_isWellFormedUnicode name \<or> 0x2f \<in> set name \<or> 0x5c \<in> set name \<or>
         length (text_encode name) > CATALOG_NAME_BYTES \<or> normalizeNFC15 t name \<noteq> name then False
      else list_all (\<lambda>c. \<not> isControlOrFormatCharacter c) (code_points name))"

definition encodeCatalogName :: "normalization_tables \<Rightarrow> utf16 \<Rightarrow> type_error + bytes" where
  "encodeCatalogName t name = (if \<not> isCatalogName t name then Inl TypeError else Inr (text_encode name))"

definition catalogNameCollisionKey ::
  "normalization_tables \<Rightarrow> (nat \<Rightarrow> utf16 option) \<Rightarrow> utf16 \<Rightarrow> type_error + utf16" where
  "catalogNameCollisionKey t mappings name =
     (if \<not> isCatalogName t name then Inl TypeError else Inr (foldPortableName15 t mappings name))"

text \<open>The loop over the segments, with the running byte count.\<close>

fun path_bytes :: "normalization_tables \<Rightarrow> int \<Rightarrow> utf16 list \<Rightarrow> type_error + int" where
  "path_bytes t pathBytes [] = Inr pathBytes"
| "path_bytes t pathBytes (segment # segments) =
     (if \<not> isCatalogName t segment then Inl TypeError
      else path_bytes t (pathBytes + int (length (text_encode segment))) segments)"

text \<open>
  \<^verbatim>\<open>snapshotCatalogPath\<close>; the set of frozen arrays it returned before only saves the repeated check of
  an array that cannot have changed.
\<close>

definition snapshotCatalogPath ::
  "normalization_tables \<Rightarrow> (nat \<Rightarrow> utf16 option) \<Rightarrow> utf16 list \<Rightarrow> type_error + utf16 list" where
  "snapshotCatalogPath t mappings path =
     (if length path = 0 \<or> length path > CATALOG_PATH_DEPTH then Inl TypeError
      else bindE (path_bytes t (int (length path) - 1) path) (\<lambda>pathBytes.
        if pathBytes > CATALOG_PATH_BYTES \<or>
           take (length RESERVED_OUTPUT_PREFIX)
             (foldPortableName15 t mappings (case path of [] \<Rightarrow> [] | s # _ \<Rightarrow> s)) = RESERVED_OUTPUT_PREFIX
        then Inl TypeError
        else Inr path))"

text \<open>\<^verbatim>\<open>split('/')\<close> and \<^verbatim>\<open>join('/')\<close>.\<close>

fun split_slash :: "utf16 \<Rightarrow> utf16 list" where
  "split_slash [] = [[]]"
| "split_slash (u # us) =
     (if u = 0x2f then [] # split_slash us
      else (case split_slash us of [] \<Rightarrow> [[u]] | seg # segs \<Rightarrow> (u # seg) # segs))"

fun join_slash :: "utf16 list \<Rightarrow> utf16" where
  "join_slash [] = []"
| "join_slash [seg] = seg"
| "join_slash (seg # segs) = seg @ 0x2f # join_slash segs"

definition canonicalizeCatalogPath ::
  "normalization_tables \<Rightarrow> (nat \<Rightarrow> utf16 option) \<Rightarrow> utf16 \<Rightarrow> type_error + utf16" where
  "canonicalizeCatalogPath t mappings path =
     (if \<not> path_isWellFormedUnicode path then Inl TypeError
      else let canonical = normalizeNFC15 t path; segments = split_slash canonical in
      bindE (snapshotCatalogPath t mappings segments) (\<lambda>_. Inr (join_slash segments)))"

definition catalogPathCollisionKey ::
  "normalization_tables \<Rightarrow> (nat \<Rightarrow> utf16 option) \<Rightarrow> utf16 \<Rightarrow> type_error + utf16" where
  "catalogPathCollisionKey t mappings path =
     bindE (canonicalizeCatalogPath t mappings path) (\<lambda>canonical. Inr (foldPortableName15 t mappings canonical))"


section \<open>Well-formed strings\<close>

lemma wellformed_simps:
  "isWellFormedUnicode [u] \<longleftrightarrow> \<not> high_surrogate u \<and> \<not> low_surrogate u"
  "isWellFormedUnicode (u # x # rest) \<longleftrightarrow>
     (if high_surrogate u then low_surrogate x \<and> isWellFormedUnicode rest
      else \<not> low_surrogate u \<and> isWellFormedUnicode (x # rest))"
  "path_isWellFormedUnicode [u] \<longleftrightarrow> \<not> high_surrogate u \<and> \<not> low_surrogate u"
  "path_isWellFormedUnicode (u # x # rest) \<longleftrightarrow>
     (if high_surrogate u then low_surrogate x \<and> path_isWellFormedUnicode rest
      else \<not> low_surrogate u \<and> path_isWellFormedUnicode (x # rest))"
  by (simp_all only: isWellFormedUnicode.simps path_isWellFormedUnicode.simps list.case high_surrogate_def low_surrogate_def
      not_less [symmetric] de_Morgan_disj not_not if_bool_eq_conj simp_thms) blast+

lemma path_wellformed_eq: "path_isWellFormedUnicode v = isWellFormedUnicode v"
proof (induction v rule: code_points.induct)
  case (3 u x rest)
  then show ?case
    unfolding wellformed_simps by (cases "high_surrogate u"; cases "low_surrogate x") simp_all
qed (simp_all only: wellformed_simps isWellFormedUnicode.simps(1) path_isWellFormedUnicode.simps(1))

definition surrogate :: "nat \<Rightarrow> bool" where
  "surrogate c \<longleftrightarrow> 0xd800 \<le> c \<and> c \<le> 0xdfff"

lemma surrogate_unit: "surrogate (unat u) \<longleftrightarrow> high_surrogate u \<or> low_surrogate u"
  unfolding surrogate_def surrogate_nat by linarith

lemma wellformed_code_points: "isWellFormedUnicode v \<longleftrightarrow> (\<forall>c \<in> set (code_points v). \<not> surrogate c)"
proof (induction v rule: code_points.induct)
  case 1
  show ?case by simp
next
  case (2 u)
  show ?case
    unfolding wellformed_simps code_points.simps using surrogate_unit [of u] by simp
next
  case (3 u x rest)
  show ?case
  proof (cases "high_surrogate u \<and> low_surrogate x")
    case True
    then have "code_points (u # x # rest) = (0x10000 + (unat u - 0xd800) * 1024 + (unat x - 0xdc00)) # code_points rest"
      by simp
    moreover have "\<not> surrogate (0x10000 + (unat u - 0xd800) * 1024 + (unat x - 0xdc00))"
      by (simp add: surrogate_def)
    ultimately show ?thesis
      using True 3(1) [OF True] unfolding wellformed_simps by simp
  next
    case False
    then have "code_points (u # x # rest) = unat u # code_points (x # rest)"
      by auto
    then show ?thesis
      using False 3(2) [OF False] surrogate_unit [of u] unfolding wellformed_simps by (cases "high_surrogate u") simp_all
  qed
qed

lemma code_points_bound: "\<forall>c \<in> set (code_points v). c < 0x110000"
proof (induction v rule: code_points.induct)
  case (2 u)
  show ?case using unat_unit [of u] by simp
next
  case (3 u x rest)
  have "unat u < 0x10000" by (rule unat_unit)
  then show ?case
    using 3 by (auto simp add: surrogate_nat)
qed simp

section \<open>UTF-8 of scalar values\<close>

lemma octet_eq: "a < 256 \<Longrightarrow> b < 256 \<Longrightarrow> octet a = octet b \<longleftrightarrow> a = b"
  by (metis unat_octet(1))

lemma octet_order:
  "a < 256 \<Longrightarrow> octet a \<le> w \<longleftrightarrow> a \<le> unat w" "a < 256 \<Longrightarrow> w \<le> octet a \<longleftrightarrow> unat w \<le> a"
  by (simp_all add: word_le_nat_alt)

lemma utf8_valid_pieces:
  "a < 128 \<Longrightarrow> utf8_valid (octet a # r) = utf8_valid r"
  "2 \<le> a \<Longrightarrow> a < 32 \<Longrightarrow> b < 64 \<Longrightarrow> utf8_valid (octet (0xc0 + a) # octet (0x80 + b) # r) = utf8_valid r"
  "a < 16 \<Longrightarrow> b < 64 \<Longrightarrow> d < 64 \<Longrightarrow> (a = 0 \<Longrightarrow> 32 \<le> b) \<Longrightarrow> (a = 13 \<Longrightarrow> b < 32) \<Longrightarrow>
   utf8_valid (octet (0xe0 + a) # octet (0x80 + b) # octet (0x80 + d) # r) = utf8_valid r"
  "a < 5 \<Longrightarrow> b < 64 \<Longrightarrow> d < 64 \<Longrightarrow> e < 64 \<Longrightarrow> (a = 0 \<Longrightarrow> 16 \<le> b) \<Longrightarrow> (a = 4 \<Longrightarrow> b < 16) \<Longrightarrow>
   utf8_valid (octet (0xf0 + a) # octet (0x80 + b) # octet (0x80 + d) # octet (0x80 + e) # r) = utf8_valid r"
proof -
  have n: "octet k = w \<longleftrightarrow> k = unat w" if "k < 256" for k w
    using that by (metis unat_octet)
  show "a < 128 \<Longrightarrow> utf8_valid (octet a # r) = utf8_valid r"
    by (simp add: octet_order)
  show "2 \<le> a \<Longrightarrow> a < 32 \<Longrightarrow> b < 64 \<Longrightarrow> utf8_valid (octet (0xc0 + a) # octet (0x80 + b) # r) = utf8_valid r"
    by (simp add: octet_order continuation_def)
  show "utf8_valid (octet (0xe0 + a) # octet (0x80 + b) # octet (0x80 + d) # r) = utf8_valid r"
    if "a < 16" "b < 64" "d < 64" "a = 0 \<Longrightarrow> 32 \<le> b" "a = 13 \<Longrightarrow> b < 32"
    using that by (auto simp add: octet_order continuation_def n)
  show "utf8_valid (octet (0xf0 + a) # octet (0x80 + b) # octet (0x80 + d) # octet (0x80 + e) # r) = utf8_valid r"
    if "a < 5" "b < 64" "d < 64" "e < 64" "a = 0 \<Longrightarrow> 16 \<le> b" "a = 4 \<Longrightarrow> b < 16"
    using that by (auto simp add: octet_order continuation_def n)
qed

lemma utf8_scalar_valid:
  assumes "c < 0x110000" "\<not> surrogate c"
  shows "utf8_valid (utf8_scalar c @ r) = utf8_valid r"
proof -
  have m: "c mod 64 < 64" "c div 64 mod 64 < 64" "c div 4096 mod 64 < 64"
    by simp_all
  have d: "c = c div 64 * 64 + c mod 64" "c div 64 = c div 4096 * 64 + c div 64 mod 64"
    "c div 4096 = c div 262144 * 64 + c div 4096 mod 64"
    using div_mult_mod_eq [of c 64] div_mult_mod_eq [of "c div 64" 64] div_mult_mod_eq [of "c div 4096" 64]
    by (simp_all add: div_mult2_eq [symmetric])
  consider "c < 0x80" | "0x80 \<le> c" "c < 0x800" | "0x800 \<le> c" "c < 0x10000" | "0x10000 \<le> c"
    by linarith
  then show ?thesis
  proof cases
    case 1
    then show ?thesis
      using utf8_valid_pieces(1) by (simp add: utf8_scalar_def)
  next
    case 2
    then have "2 \<le> c div 64" "c div 64 < 32"
      using d(1) m(1) by linarith+
    then show ?thesis
      using 2 utf8_valid_pieces(2) [OF _ _ m(1)] by (simp add: utf8_scalar_def)
  next
    case 3
    have "c div 4096 < 16" "c div 4096 = 0 \<Longrightarrow> 32 \<le> c div 64 mod 64"
      using d(1,2) m 3 by linarith+
    moreover have "c div 64 mod 64 < 32" if "c div 4096 = 13"
      using d(1,2) m 3 that assms(2) unfolding surrogate_def by linarith
    ultimately show ?thesis
      using 3 utf8_valid_pieces(3) [OF _ m(2,1)] by (simp add: utf8_scalar_def)
  next
    case 4
    have "c div 262144 < 5" "c div 262144 = 0 \<Longrightarrow> 16 \<le> c div 4096 mod 64" "c div 262144 = 4 \<Longrightarrow> c div 4096 mod 64 < 16"
      using d m 4 assms(1) by linarith+
    then show ?thesis
      using 4 utf8_valid_pieces(4) [OF _ m(3,2,1)] by (simp add: utf8_scalar_def)
  qed
qed


definition utf8_head :: "bytes \<Rightarrow> nat" where
  "utf8_head b =
     (let a = unat (b ! 0); cont = (\<lambda>i. unat (b ! i) - 0x80) in
      if a < 0x80 then a
      else if a < 0xe0 then (a - 0xc0) * 64 + cont 1
      else if a < 0xf0 then (a - 0xe0) * 4096 + cont 1 * 64 + cont 2
      else (a - 0xf0) * 262144 + cont 1 * 4096 + cont 2 * 64 + cont 3)"

lemma utf8_head_scalar:
  assumes "c < 0x110000"
  shows "utf8_head (utf8_scalar c @ r) = c"
proof -
  have m: "c mod 64 < 64" "c div 64 mod 64 < 64" "c div 4096 mod 64 < 64"
    by simp_all
  have d: "c = c div 64 * 64 + c mod 64" "c div 64 = c div 4096 * 64 + c div 64 mod 64"
    "c div 4096 = c div 262144 * 64 + c div 4096 mod 64"
    using div_mult_mod_eq [of c 64] div_mult_mod_eq [of "c div 64" 64] div_mult_mod_eq [of "c div 4096" 64]
    by (simp_all add: div_mult2_eq [symmetric])
  have t: "unat (octet (0x80 + k)) - 0x80 = k" if "k < 64" for k
    using that by simp
  consider "c < 0x80" | "0x80 \<le> c" "c < 0x800" | "0x800 \<le> c" "c < 0x10000" | "0x10000 \<le> c"
    by linarith
  then show ?thesis
  proof cases
    case 1
    then show ?thesis by (simp add: utf8_scalar_def utf8_head_def)
  next
    case 2
    then have a: "c div 64 < 32"
      using d(1) m(1) by linarith
    then have "unat (octet (0xc0 + c div 64)) = 0xc0 + c div 64"
      by simp
    then show ?thesis
      using 2 a d(1) t [OF m(1)] by (simp add: utf8_scalar_def utf8_head_def Let_def)
  next
    case 3
    then have a: "c div 4096 < 16"
      using d(1,2) m by linarith
    then have u: "unat (octet (0xe0 + c div 4096)) = 0xe0 + c div 4096"
      by simp
    have "c = c div 4096 * 4096 + c div 64 mod 64 * 64 + c mod 64"
      using d(1,2) by linarith
    then show ?thesis
      using 3 a u t [OF m(1)] t [OF m(2)] by (simp add: utf8_scalar_def utf8_head_def Let_def)
  next
    case 4
    then have a: "c div 262144 < 5"
      using d m assms by linarith
    then have u: "unat (octet (0xf0 + c div 262144)) = 0xf0 + c div 262144"
      by simp
    have "c = c div 262144 * 262144 + c div 4096 mod 64 * 4096 + c div 64 mod 64 * 64 + c mod 64"
      using d by linarith
    then show ?thesis
      using 4 a u t [OF m(1)] t [OF m(2)] t [OF m(3)]
      by (simp add: utf8_scalar_def utf8_head_def Let_def numeral_3_eq_3)
  qed
qed

lemma utf8_scalars_inj:
  assumes "\<forall>c \<in> set cs. c < 0x110000" "\<forall>d \<in> set ds. d < 0x110000"
    "concat (map utf8_scalar cs) = concat (map utf8_scalar ds)"
  shows "cs = ds"
  using assms
proof (induction cs arbitrary: ds)
  case Nil
  then show ?case by (cases ds) (auto simp add: utf8_scalar_def split: if_splits)
next
  case (Cons c cs)
  then obtain d ds' where ds: "ds = d # ds'"
    by (cases ds) (auto simp add: utf8_scalar_def split: if_splits)
  have eq: "utf8_scalar c @ concat (map utf8_scalar cs) = utf8_scalar d @ concat (map utf8_scalar ds')"
    using Cons.prems(3) ds by simp
  then have "c = d"
    using utf8_head_scalar [of c] utf8_head_scalar [of d] Cons.prems(1,2) ds by (metis list.set_intros(1))
  then show ?case
    using eq Cons.IH [of ds'] Cons.prems(1,2) ds by simp
qed

lemma text_encode_scalars:
  "isWellFormedUnicode v \<Longrightarrow> text_encode v = concat (map utf8_scalar (code_points v))"
  unfolding text_encode_def wellformed_code_points
  by (intro arg_cong [where f = concat] map_cong) (auto simp add: scalar_value_def surrogate_def)

lemma text_encode_inj:
  assumes "isWellFormedUnicode v" "isWellFormedUnicode w" "text_encode v = text_encode w"
  shows "v = w"
  using assms utf8_scalars_inj [OF code_points_bound code_points_bound, of v w]
  by (intro code_points_inj) (simp add: text_encode_scalars)

lemma text_encode_valid: "utf8_valid (text_encode v)"
proof -
  have "utf8_valid (concat (map (\<lambda>c. utf8_scalar (scalar_value c)) cs))" if "\<forall>c \<in> set cs. c < 0x110000" for cs
    using that
  proof (induction cs)
    case (Cons c cs)
    have "scalar_value c < 0x110000" "\<not> surrogate (scalar_value c)"
      using Cons.prems by (auto simp add: scalar_value_def surrogate_def)
    then show ?case
      using Cons utf8_scalar_valid by simp
  qed simp
  then show ?thesis
    unfolding text_encode_def using code_points_bound by blast
qed


section \<open>Format characters\<close>

definition ranges_sorted :: "(nat \<times> nat) list \<Rightarrow> bool" where
  "ranges_sorted rs \<longleftrightarrow> list_all (\<lambda>r. fst r \<le> snd r) rs \<and> sorted_wrt (\<lambda>a b. snd a < fst b) rs"

lemma format_search_iff:
  assumes "ranges_sorted ranges" "high \<le> length ranges"
  shows "format_search ranges scalar low high \<longleftrightarrow>
    (\<exists>i. low \<le> i \<and> i < high \<and> fst (ranges ! i) \<le> scalar \<and> scalar \<le> snd (ranges ! i))"
  using assms
proof (induction ranges scalar low high rule: format_search.induct)
  case (1 ranges scalar low high)
  show ?case
  proof (cases "low < high")
    case False
    then show ?thesis by (auto simp add: format_search.simps)
  next
    case True
    define m where "m = low + (high - low) div 2"
    have m: "low \<le> m" "m < high" "m < length ranges"
      using True 1(4) by (auto simp add: m_def)
    have before: "snd (ranges ! i) < fst (ranges ! m)" if "i < m" for i
      using 1(3) that m(3) by (auto simp add: ranges_sorted_def sorted_wrt_iff_nth_less)
    have after: "snd (ranges ! m) < fst (ranges ! i)" if "m < i" "i < high" for i
      using 1(3,4) that by (auto simp add: ranges_sorted_def sorted_wrt_iff_nth_less)
    have step: "format_search ranges scalar low high =
      (if scalar < fst (ranges ! m) then format_search ranges scalar low m
       else if scalar > snd (ranges ! m) then format_search ranges scalar (m + 1) high else True)"
      unfolding format_search.simps [of ranges scalar low high] Let_def m_def [symmetric] using True m(3) by simp
    consider "scalar < fst (ranges ! m)" | "\<not> scalar < fst (ranges ! m)" "scalar > snd (ranges ! m)"
      | "fst (ranges ! m) \<le> scalar" "scalar \<le> snd (ranges ! m)"
      by linarith
    then show ?thesis
    proof cases
      case c: 1
      have "format_search ranges scalar low m \<longleftrightarrow>
          (\<exists>i. low \<le> i \<and> i < m \<and> fst (ranges ! i) \<le> scalar \<and> scalar \<le> snd (ranges ! i))"
        by (rule 1(1) [OF _ m_def]) (use True m c 1(3) in simp_all)
      moreover have "i < m" if "i < high" "fst (ranges ! i) \<le> scalar" for i
      proof (rule ccontr)
        assume "\<not> i < m"
        then consider "i = m" | "m < i" by linarith
        then show False
        proof cases
          case 2
          have "fst (ranges ! m) \<le> snd (ranges ! m)"
            using 1(3) m(3) by (simp add: ranges_sorted_def list_all_length)
          with after [OF 2 that(1)] that(2) c show False by linarith
        qed (use that c in simp)
      qed
      ultimately show ?thesis
        using c step m by (auto intro: less_trans)
    next
      case c: 2
      have "format_search ranges scalar (m + 1) high \<longleftrightarrow>
          (\<exists>i. m + 1 \<le> i \<and> i < high \<and> fst (ranges ! i) \<le> scalar \<and> scalar \<le> snd (ranges ! i))"
        by (rule 1(2) [OF _ m_def]) (use True m c 1(3,4) in simp_all)
      moreover have "m + 1 \<le> i" if "scalar \<le> snd (ranges ! i)" for i
      proof (rule ccontr)
        assume "\<not> m + 1 \<le> i"
        then consider "i = m" | "i < m" by linarith
        then show False
        proof cases
          case 2
          have "fst (ranges ! m) \<le> snd (ranges ! m)"
            using 1(3) m(3) by (simp add: ranges_sorted_def list_all_length)
          with before [OF 2] that c show False by linarith
        qed (use that c in simp)
      qed
      moreover have "low \<le> i" if "m + 1 \<le> i" for i
        using that m(1) by linarith
      moreover have "format_search ranges scalar low high = format_search ranges scalar (m + 1) high"
        using c step by simp
      ultimately show ?thesis
        by blast
    next
      case c: 3
      then show ?thesis
        using step m by auto
    qed
  qed
qed

lemma format_ranges_sorted: "ranges_sorted FORMAT_CHARACTER_RANGES"
  by (simp add: ranges_sorted_def FORMAT_CHARACTER_RANGES_def)

section \<open>Splitting and joining\<close>

lemma code_points_slash: "code_points (s @ 0x2f # r) = code_points s @ 0x2f # code_points r"
proof (induction s rule: code_points.induct)
  case 1
  show ?case by (cases r) (simp_all add: high_surrogate_def)
next
  case (2 u)
  then show ?case by (cases r) (simp_all add: high_surrogate_def low_surrogate_def)
qed auto

lemma text_encode_slash: "text_encode (s @ 0x2f # r) = text_encode s @ 0x2f # text_encode r"
  by (simp add: text_encode_def code_points_slash scalar_value_def utf8_scalar_def octet_def)

lemma split_not_Nil [simp]: "split_slash v \<noteq> []"
  by (induction v rule: split_slash.induct) (simp_all split: list.splits)

lemma join_split: "join_slash (split_slash v) = v"
proof (induction v rule: split_slash.induct)
  case (2 u us)
  then show ?case
    by (cases "split_slash us" rule: join_slash.cases) (auto split: list.splits)
qed simp

lemma split_plain: "0x2f \<notin> set s \<Longrightarrow> split_slash s = [s]"
  by (induction s) (auto split: list.splits)

lemma split_append: "0x2f \<notin> set s \<Longrightarrow> split_slash (s @ 0x2f # r) = s # split_slash r"
  by (induction s) auto

lemma split_join: "path \<noteq> [] \<Longrightarrow> \<forall>s \<in> set path. 0x2f \<notin> set s \<Longrightarrow> split_slash (join_slash path) = path"
  by (induction path rule: join_slash.induct) (auto simp add: split_plain split_append)

lemma encoded_join:
  "path \<noteq> [] \<Longrightarrow> int (length (text_encode (join_slash path))) =
     int (length path) - 1 + int (sum_list (map (\<lambda>s. length (text_encode s)) path))"
  by (induction path rule: join_slash.induct) (auto simp add: text_encode_slash)

lemma path_bytes_Inr:
  "path_bytes t n path = Inr m \<longleftrightarrow> (\<forall>s \<in> set path. isCatalogName t s) \<and>
     m = n + int (sum_list (map (\<lambda>s. length (text_encode s)) path))"
  by (induction t n path rule: path_bytes.induct) auto


section \<open>What the policy guarantees\<close>

definition safe_segment :: "normalization_tables \<Rightarrow> utf16 \<Rightarrow> bool" where
  "safe_segment t s \<longleftrightarrow> s \<noteq> [] \<and> s \<noteq> js_text ''.'' \<and> s \<noteq> js_text ''..'' \<and> 0x2f \<notin> set s \<and> 0x5c \<notin> set s \<and>
     isWellFormedUnicode s \<and> normalizeNFC15 t s = s \<and> length (text_encode s) \<le> 4096 \<and>
     (\<forall>c \<in> set (code_points s). 0x1f < c \<and> \<not> (0x7f \<le> c \<and> c \<le> 0x9f))"

lemma catalog_name_safe: "isCatalogName t s \<Longrightarrow> safe_segment t s"
  by (auto simp add: isCatalogName_def safe_segment_def path_wellformed_eq CATALOG_NAME_BYTES_def list_all_iff
      isControlOrFormatCharacter_def split: if_splits)

lemma snapshot_path_Inr:
  "snapshotCatalogPath t mappings path = Inr p \<longleftrightarrow> p = path \<and> path \<noteq> [] \<and> length path \<le> 256 \<and>
     (\<forall>s \<in> set path. isCatalogName t s) \<and> length (text_encode (join_slash path)) \<le> 32768 \<and>
     take 9 (foldPortableName15 t mappings (hd path)) \<noteq> RESERVED_OUTPUT_PREFIX"
proof (cases "path = []")
  case False
  have "length RESERVED_OUTPUT_PREFIX = 9"
    by (simp add: RESERVED_OUTPUT_PREFIX_def js_text_def)
  moreover have "(case path of [] \<Rightarrow> [] | s # _ \<Rightarrow> s) = hd path"
    using False by (cases path) simp_all
  ultimately show ?thesis
    using encoded_join [OF False] False
    by (auto simp add: snapshotCatalogPath_def res_simps path_bytes_Inr CATALOG_PATH_DEPTH_def CATALOG_PATH_BYTES_def)
qed (simp add: snapshotCatalogPath_def)


lemma sample_nfc: "normalizeNFC15 sample_tables [0x61] = [0x61]" "normalizeNFC15 sample_tables [0x62] = [0x62]"
  by (simp_all add: normalizeNFC15_def decomposition_def decomposeHangul_def hangul sample_tables_def nfc_accept_def
      combiningClass_def composeSegment_def nfc_emit.simps fromCodePoint_def OUTPUT_CHUNK_CHARACTERS_def)

lemma sample_name: "isCatalogName sample_tables [0x61]" "isCatalogName sample_tables [0x62]"
  using sample_nfc
  by (simp_all add: isCatalogName_def js_text_def path_wellformed_eq text_encode_def scalar_value_def utf8_scalar_def
      isControlOrFormatCharacter_def isFormatCharacter_def FORMAT_CHARACTER_RANGES_def format_search.simps
      CATALOG_NAME_BYTES_def)


text \<open>
  The two tests for well-formed strings agree, and hold exactly when no code point is a
  surrogate; the UTF-8 encoder always writes valid UTF-8, and on well-formed strings no two encode to
  the same octets.
\<close>

theorem text_encoding_faithful:
  "path_isWellFormedUnicode v = isWellFormedUnicode v \<and>
   (isWellFormedUnicode v \<longleftrightarrow> (\<forall>c \<in> set (code_points v). \<not> surrogate c)) \<and>
   utf8_valid (text_encode v) \<and>
   (isWellFormedUnicode v \<and> isWellFormedUnicode w \<and> text_encode v = text_encode w \<longrightarrow> v = w)"
  using path_wellformed_eq wellformed_code_points text_encode_valid text_encode_inj by blast

theorem text_encoding_faithful_witness:
  "text_encode [0xd83d, 0xde00] \<noteq> text_encode [0x41]"
proof -
  have "isWellFormedUnicode [0xd83d, 0xde00]" "isWellFormedUnicode [0x41]"
    by simp_all
  then show ?thesis
    using text_encoding_faithful [of "[0xd83d, 0xde00]" "[0x41]"] by auto
qed

text \<open>
  The binary search over the table of format characters finds exactly the characters inside one
  of its ranges.
\<close>

theorem format_character_search:
  "isFormatCharacter c \<longleftrightarrow> (\<exists>(a, b) \<in> set FORMAT_CHARACTER_RANGES. a \<le> c \<and> c \<le> b)"
proof -
  have "isFormatCharacter c \<longleftrightarrow> (\<exists>i < length FORMAT_CHARACTER_RANGES.
      fst (FORMAT_CHARACTER_RANGES ! i) \<le> c \<and> c \<le> snd (FORMAT_CHARACTER_RANGES ! i))"
    unfolding isFormatCharacter_def using format_search_iff [OF format_ranges_sorted order_refl] by simp
  also have "\<dots> \<longleftrightarrow> (\<exists>r \<in> set FORMAT_CHARACTER_RANGES. fst r \<le> c \<and> c \<le> snd r)"
    by (metis in_set_conv_nth)
  finally show ?thesis
    by (simp add: split_def)
qed

end
