(* ===== verification/Canonical_Records.thy ===== *)
theory Canonical_Records
  imports Path_Policy
begin

text \<open>
The canonical encodings of durable records: base64url (\<^verbatim>\<open>crypto/bytes.ts\<close>), the encoders of
  \<^verbatim>\<open>transfer/encoding/canonical.ts\<close> and \<^verbatim>\<open>CanonicalRecordReader\<close> of
  \<^verbatim>\<open>transfer/encoding/canonical-reader.ts\<close>. SHA-256 and the runtime's text normalisation are
  parameters.
\<close>

section \<open>Base64url\<close>

text \<open>
  \<^verbatim>\<open>btoa\<close> and \<^verbatim>\<open>atob\<close> on octets. A string whose characters lie outside Latin-1 is refused by the
  pattern before it is decoded, so the strings here are lists of 8-bit characters.
\<close>

definition B64_ALPHABET :: string where
  "B64_ALPHABET = ''ABCDEFGHIJKLMNOPQRSTUVWXYZabcdefghijklmnopqrstuvwxyz0123456789+/''"

definition b64_char :: "nat \<Rightarrow> char" where
  "b64_char i = B64_ALPHABET ! i"

fun find_index :: "'a \<Rightarrow> 'a list \<Rightarrow> nat option" where
  "find_index x [] = None"
| "find_index x (y # ys) = (if x = y then Some 0 else map_option Suc (find_index x ys))"

definition b64_value :: "char \<Rightarrow> nat option" where
  "b64_value c = find_index c B64_ALPHABET"

fun sextets :: "bytes \<Rightarrow> nat list" where
  "sextets [] = []"
| "sextets [a] = [unat a div 4, unat a mod 4 * 16]"
| "sextets [a, b] = [unat a div 4, unat a mod 4 * 16 + unat b div 16, unat b mod 16 * 4]"
| "sextets (a # b # c # rest) =
     [unat a div 4, unat a mod 4 * 16 + unat b div 16, unat b mod 16 * 4 + unat c div 64, unat c mod 64] @ sextets rest"

definition btoa :: "bytes \<Rightarrow> string" where
  "btoa bs = map b64_char (sextets bs) @ replicate ((3 - length bs mod 3) mod 3) CHR ''=''"

fun octets :: "nat list \<Rightarrow> bytes" where
  "octets [p, q] = [octet (p * 4 + q div 16)]"
| "octets [p, q, r] = [octet (p * 4 + q div 16), octet (q mod 16 * 16 + r div 4)]"
| "octets (p # q # r # s # rest) =
     [octet (p * 4 + q div 16), octet (q mod 16 * 16 + r div 4), octet (r mod 4 * 64 + s)] @ octets rest"
| "octets _ = []"

fun all_some :: "'a option list \<Rightarrow> 'a list option" where
  "all_some [] = Some []"
| "all_some (None # xs) = None"
| "all_some (Some x # xs) = map_option ((#) x) (all_some xs)"

fun drop_padding :: "nat \<Rightarrow> string \<Rightarrow> string" where
  "drop_padding (Suc n) (c # s) = (if c = CHR ''='' then drop_padding n s else c # s)"
| "drop_padding _ s = s"

definition atob :: "string \<Rightarrow> bytes option" where
  "atob s =
     (let s' = (if length s mod 4 = 0 then rev (drop_padding 2 (rev s)) else s) in
      if length s' mod 4 = 1 then None
      else map_option octets (all_some (map b64_value s')))"

definition url_char :: "char \<Rightarrow> char" where
  "url_char c = (if c = CHR ''+'' then CHR ''-'' else if c = CHR ''/'' then CHR ''_'' else c)"

definition plain_char :: "char \<Rightarrow> char" where
  "plain_char c = (if c = CHR ''-'' then CHR ''+'' else if c = CHR ''_'' then CHR ''/'' else c)"

definition encodeBase64Url :: "bytes \<Rightarrow> string" where
  "encodeBase64Url bytes = takeWhile (\<lambda>c. c \<noteq> CHR ''='') (map url_char (btoa bytes))"

definition BASE64URL_PATTERN :: "string \<Rightarrow> bool" where
  "BASE64URL_PATTERN s \<longleftrightarrow> s \<noteq> [] \<and> list_all (\<lambda>c. c = CHR ''-'' \<or> c = CHR ''_'' \<or>
     (c \<noteq> CHR ''+'' \<and> c \<noteq> CHR ''/'' \<and> c \<in> set B64_ALPHABET)) s"

definition decodeBase64Url :: "string \<Rightarrow> bytes option" where
  "decodeBase64Url v =
     (if \<not> BASE64URL_PATTERN v \<or> length v mod 4 = 1 then None
      else let padded = map plain_char v @ replicate ((4 - length v mod 4) mod 4) CHR ''='' in
      case atob padded of
        None \<Rightarrow> None
      | Some decoded \<Rightarrow> if encodeBase64Url decoded = v then Some decoded else None)"

subsection \<open>Round trip\<close>

lemma alphabet_inverse: "i < 64 \<Longrightarrow> b64_value (b64_char i) = Some i"
proof -
  have "list_all (\<lambda>i. b64_value (b64_char i) = Some i) [0..<64]"
    by code_simp
  then show "i < 64 \<Longrightarrow> ?thesis" by (simp add: list_all_iff)
qed

lemma alphabet_url:
  assumes "i < 64"
  shows "plain_char (url_char (b64_char i)) = b64_char i" "b64_char i \<noteq> CHR ''=''" "url_char (b64_char i) \<noteq> CHR ''=''"
    "let c = url_char (b64_char i) in c = CHR ''-'' \<or> c = CHR ''_'' \<or> (c \<noteq> CHR ''+'' \<and> c \<noteq> CHR ''/'' \<and> c \<in> set B64_ALPHABET)"
proof -
  have "list_all (\<lambda>i. plain_char (url_char (b64_char i)) = b64_char i \<and> b64_char i \<noteq> CHR ''='' \<and>
      url_char (b64_char i) \<noteq> CHR ''='' \<and>
      (let c = url_char (b64_char i) in c = CHR ''-'' \<or> c = CHR ''_'' \<or> (c \<noteq> CHR ''+'' \<and> c \<noteq> CHR ''/'' \<and> c \<in> set B64_ALPHABET))) [0..<64]"
    by code_simp
  then show "plain_char (url_char (b64_char i)) = b64_char i" "b64_char i \<noteq> CHR ''=''" "url_char (b64_char i) \<noteq> CHR ''=''"
    "let c = url_char (b64_char i) in c = CHR ''-'' \<or> c = CHR ''_'' \<or> (c \<noteq> CHR ''+'' \<and> c \<noteq> CHR ''/'' \<and> c \<in> set B64_ALPHABET)"
    using assms by (simp_all add: list_all_iff)
qed

lemma byte_digits:
  "unat (a :: byte) div 4 < 64" "unat a mod 4 * 16 + unat (b :: byte) div 16 < 64" "unat a mod 4 * 16 < 64"
  "unat b mod 16 * 4 + unat (c :: byte) div 64 < 64" "unat b mod 16 * 4 < 64"
proof -
  have "unat a < 256" "unat b < 256" "unat c < 256"
    by (rule unat_byte)+
  then have "unat b div 16 < 16" "unat c div 64 < 4" "unat a mod 4 < 4" "unat b mod 16 < 16" "unat a div 4 < 64"
    by (simp_all add: div_less_iff_less_mult)
  then show "unat a div 4 < 64" "unat a mod 4 * 16 + unat b div 16 < 64" "unat a mod 4 * 16 < 64"
    "unat b mod 16 * 4 + unat c div 64 < 64" "unat b mod 16 * 4 < 64"
    by linarith+
qed

lemma sextets_bound: "\<forall>i \<in> set (sextets bs). i < 64"
  by (induction bs rule: sextets.induct) (auto simp add: byte_digits)

lemma length_sextets: "length (sextets bs) mod 4 = (case length bs mod 3 of 0 \<Rightarrow> 0 | Suc 0 \<Rightarrow> 2 | _ \<Rightarrow> 3)"
  by (induction bs rule: sextets.induct) (auto simp add: mod_add_eq split: nat.splits)


lemma digit_pair:
  fixes x y k :: nat
  assumes "y < k"
  shows "(x * k + y) div k = x" "(x * k + y) mod k = y"
  using assms by (simp_all add: div_mult_self3)

lemma octets_sextets: "octets (sextets bs) = bs"
proof (induction bs rule: sextets.induct)
  case (2 a)
  then show ?case by (simp add: div_mult_mod_eq)
next
  case (3 a b)
  have "unat b div 16 < 16"
    using unat_byte [of b] by (simp add: div_less_iff_less_mult)
  then show ?case
    by (simp add: digit_pair div_mult_mod_eq)
next
  case (4 a b c rest)
  have "unat b div 16 < 16" "unat c div 64 < 4"
    using unat_byte [of b] unat_byte [of c] by (simp_all add: div_less_iff_less_mult)
  then show ?case
    using 4 by (simp add: digit_pair div_mult_mod_eq)
qed simp

lemma all_some_values: "\<forall>i \<in> set is. i < 64 \<Longrightarrow> all_some (map b64_value (map b64_char is)) = Some is"
  by (induction "is") (simp_all add: alphabet_inverse)

lemma encode_url: "encodeBase64Url bs = map (\<lambda>i. url_char (b64_char i)) (sextets bs)"
proof -
  have "takeWhile (\<lambda>c. c \<noteq> CHR ''='') (map (\<lambda>i. url_char (b64_char i)) (sextets bs) @
      replicate n CHR ''='') = map (\<lambda>i. url_char (b64_char i)) (sextets bs)" for n
    using sextets_bound [of bs] alphabet_url(3) by (subst takeWhile_append2) (auto simp add: takeWhile_replicate)
  then show ?thesis
    by (simp add: encodeBase64Url_def btoa_def url_char_def comp_def)
qed

lemma drop_padding_sextets:
  assumes "n \<le> 2" "\<forall>i \<in> set is. i < 64"
  shows "rev (drop_padding 2 (rev (map b64_char is @ replicate n CHR ''=''))) = map b64_char is"
proof -
  have stop: "drop_padding k (rev (map b64_char is)) = rev (map b64_char is)" for k
    using assms(2) alphabet_url(2) by (cases "is" rule: rev_cases; cases k) auto
  consider "n = 0" | "n = 1" | "n = 2"
    using assms(1) by linarith
  then show ?thesis
    by cases (simp_all add: stop numeral_2_eq_2)
qed

lemma padding_fills: "r < 4 \<Longrightarrow> (r + (4 - r) mod 4) mod 4 = (0 :: nat)"
  by (cases "r = 0") simp_all

lemma atob_sextets:
  assumes "\<forall>i \<in> set is. i < 64" "length is mod 4 \<noteq> 1"
  shows "atob (map b64_char is @ replicate ((4 - length is mod 4) mod 4) CHR ''='') = Some (octets is)"
proof -
  let ?n = "(4 - length is mod 4) mod 4"
  have l: "length is mod 4 < 4"
    by simp
  then have n: "?n \<le> 2"
    using assms(2) by (cases "length is mod 4 = 0") auto
  have "(length is + ?n) mod 4 = (length is mod 4 + ?n) mod 4"
    by (rule mod_add_left_eq [symmetric])
  also have "\<dots> = 0"
    by (rule padding_fills [OF l])
  finally show ?thesis
    using drop_padding_sextets [OF n assms(1)] all_some_values [OF assms(1)] assms(2)
    by (simp add: atob_def Let_def del: map_map)
qed

lemma base64url_decode_encode:
  assumes "bs \<noteq> []"
  shows "decodeBase64Url (encodeBase64Url bs) = Some bs"
proof -
  let ?e = "encodeBase64Url bs"
  have len: "length ?e mod 4 \<noteq> 1" "length ?e = length (sextets bs)"
    using length_sextets [of bs] by (auto simp add: encode_url split: nat.splits)
  have ne: "?e \<noteq> []"
    using assms by (cases bs rule: sextets.cases) (simp_all add: encode_url)
  have "BASE64URL_PATTERN ?e"
    unfolding BASE64URL_PATTERN_def list_all_iff encode_url
    using ne [unfolded encode_url] sextets_bound [of bs] alphabet_url(4) by (auto simp add: Let_def)
  moreover have "map plain_char ?e = map b64_char (sextets bs)"
    using sextets_bound [of bs] alphabet_url(1) by (auto simp add: encode_url)
  moreover have "atob (map b64_char (sextets bs) @ replicate ((4 - length ?e mod 4) mod 4) CHR ''='') = Some bs"
    using atob_sextets [OF sextets_bound [of bs]] len octets_sextets [of bs] by simp
  ultimately show ?thesis
    using len(1) by (simp add: decodeBase64Url_def)
qed

lemma base64url_iff: "decodeBase64Url s = Some bs \<longleftrightarrow> bs \<noteq> [] \<and> s = encodeBase64Url bs"
proof
  assume a: "decodeBase64Url s = Some bs"
  then have "s = encodeBase64Url bs" "s \<noteq> []"
    by (auto simp add: decodeBase64Url_def BASE64URL_PATTERN_def Let_def split: if_splits option.splits)
  then show "bs \<noteq> [] \<and> s = encodeBase64Url bs"
    by (auto simp add: encode_url)
qed (use base64url_decode_encode in blast)

lemma encodeBase64Url_inj: "encodeBase64Url bs = encodeBase64Url cs \<Longrightarrow> bs = cs"
  using base64url_decode_encode [of bs] base64url_decode_encode [of cs]
  by (cases "bs = []"; cases "cs = []") (auto simp add: encode_url elim: sextets.elims)


section \<open>Canonical values and records\<close>

definition concatCanonicalBytes :: "bytes list \<Rightarrow> type_error + bytes" where
  "concatCanonicalBytes parts =
     (if \<not> is_safe_integer (Integral (int (sum_list (map length parts)))) then Inl TypeError
      else Inr (copy_parts (replicate (sum_list (map length parts)) 0) 0 parts))"

definition equalCanonicalBytes :: "bytes \<Rightarrow> bytes \<Rightarrow> bool" where
  "equalCanonicalBytes left right =
     (if length left \<noteq> length right then False else xor_difference 0 left right = 0)"

definition snapshotCanonicalBytes :: "bytes \<Rightarrow> type_error + bytes" where
  "snapshotCanonicalBytes bs = (if length bs = 0 then Inl TypeError else Inr bs)"

definition canonicalU8 :: "js_number \<Rightarrow> type_error + bytes" where
  "canonicalU8 v = (if \<not> integer_between 0 0xff v then Inl TypeError else Inr [of_int (js_int v)])"

definition canonicalBoolean :: "bool \<Rightarrow> type_error + bytes" where
  "canonicalBoolean v = canonicalU8 (Integral (if v then 1 else 0))"

definition canonicalU32 :: "js_number \<Rightarrow> type_error + bytes" where
  "canonicalU32 v = (if \<not> integer_between 0 0xffffffff v then Inl TypeError else Inr (be_bytes 4 (nat (js_int v))))"

definition canonicalI64 :: "int \<Rightarrow> type_error + bytes" where
  "canonicalI64 v =
     (if v < - 0x8000000000000000 \<or> v > 0x7fffffffffffffff then Inl TypeError
      else Inr (be_bytes 8 (nat (v mod 0x10000000000000000))))"

definition canonicalU64 :: "int \<Rightarrow> type_error + bytes" where
  "canonicalU64 v = (if v < 0 \<or> v > 0xffffffffffffffff then Inl TypeError else Inr (be_bytes 8 (nat v)))"

definition canonicalUnixMilliseconds :: "js_number \<Rightarrow> type_error + bytes" where
  "canonicalUnixMilliseconds v =
     (if \<not> is_safe_integer v \<or> js_int v < 0 then Inl TypeError else canonicalU64 (js_int v))"

definition canonicalFrame :: "bytes \<Rightarrow> type_error + bytes" where
  "canonicalFrame v = bindE (canonicalU64 (int (length v))) (\<lambda>n. concatCanonicalBytes [n, v])"

definition canonicalRecord :: "string \<Rightarrow> js_number \<Rightarrow> bytes list \<Rightarrow> type_error + bytes" where
  "canonicalRecord domain version parts =
     (if \<not> (domain \<noteq> [] \<and> list_all (\<lambda>c. 0x21 \<le> (of_char c :: nat) \<and> (of_char c :: nat) \<le> 0x7e) domain) \<or>
         \<not> integer_between 1 0xff version then Inl TypeError
      else concatCanonicalBytes ([ascii (domain @ [CHR 0x00]), [of_int (js_int version)]] @ parts))"

text \<open>The third copy of the test for well-formed strings.\<close>

fun canonical_isWellFormedUnicode :: "utf16 \<Rightarrow> bool" where
  "canonical_isWellFormedUnicode [] = True"
| "canonical_isWellFormedUnicode (codeUnit # rest) =
     (if codeUnit < 0xd800 \<or> codeUnit > 0xdfff then canonical_isWellFormedUnicode rest
      else if codeUnit > 0xdbff then False
      else (case rest of
         [] \<Rightarrow> False
       | low # rest' \<Rightarrow> if low < 0xdc00 \<or> low > 0xdfff then False else canonical_isWellFormedUnicode rest'))"

definition canonicalText :: "(utf16 \<Rightarrow> utf16) \<Rightarrow> utf16 \<Rightarrow> type_error + bytes" where
  "canonicalText runtime_nfc v =
     (if runtime_nfc v \<noteq> v \<or> \<not> canonical_isWellFormedUnicode v then Inl TypeError else Inr (text_encode v))"

definition canonicalIdentity :: "string \<Rightarrow> nat \<Rightarrow> type_error + bytes" where
  "canonicalIdentity v width =
     (case decodeBase64Url v of
        None \<Rightarrow> Inl TypeError
      | Some bs \<Rightarrow>
          if length bs \<noteq> width \<or> list_all (\<lambda>b. b = 0) bs \<or> encodeBase64Url bs \<noteq> v then Inl TypeError
          else Inr bs)"

definition snapshotIdentity :: "string \<Rightarrow> nat \<Rightarrow> type_error + string" where
  "snapshotIdentity v width = bindE (canonicalIdentity v width) (\<lambda>bs. Inr (encodeBase64Url bs))"

fun canonical_frames :: "utf16 list \<Rightarrow> type_error + bytes list" where
  "canonical_frames [] = Inr []"
| "canonical_frames (segment # segments) =
     bindE (canonicalFrame (text_encode segment)) (\<lambda>f. bindE (canonical_frames segments) (\<lambda>fs. Inr (f # fs)))"

definition canonicalPath ::
  "normalization_tables \<Rightarrow> (nat \<Rightarrow> utf16 option) \<Rightarrow> utf16 list \<Rightarrow> type_error + bytes" where
  "canonicalPath t mappings path =
     bindE (snapshotCatalogPath t mappings path) (\<lambda>snapshot.
     bindE (canonicalU64 (int (length snapshot))) (\<lambda>n.
     bindE (canonical_frames snapshot) (\<lambda>fs. concatCanonicalBytes (n # fs))))"

definition canonicalDigest :: "(bytes \<Rightarrow> bytes) \<Rightarrow> bytes \<Rightarrow> string" where
  "canonicalDigest sha bs = encodeBase64Url (sha bs)"

definition assertCanonicalRecordDomain :: "bytes \<Rightarrow> string \<Rightarrow> js_number \<Rightarrow> type_error + unit" where
  "assertCanonicalRecordDomain bs domain version =
     bindE (canonicalU8 version) (\<lambda>v.
     bindE (concatCanonicalBytes [ascii (domain @ [CHR 0x00]), v]) (\<lambda>prefix.
     if length bs < length prefix \<or> \<not> equalCanonicalBytes (subarray 0 (length prefix) bs) prefix then Inl TypeError
     else Inr ()))"

section \<open>\<open>CanonicalRecordReader\<close>\<close>

record record_reader =
  rr_bytes :: bytes
  rr_offset :: nat

definition U64_BYTES :: nat where "U64_BYTES = 8"

definition reader_open :: "bytes \<Rightarrow> string \<Rightarrow> js_number \<Rightarrow> type_error + record_reader" where
  "reader_open bytesInput domain version =
     bindE (snapshotCanonicalBytes bytesInput) (\<lambda>bs.
     bindE (assertCanonicalRecordDomain bs domain version) (\<lambda>_.
     Inr \<lparr>rr_bytes = bs, rr_offset = length (ascii (domain @ [CHR 0x00])) + 1\<rparr>))"

definition reader_value :: "bytes \<Rightarrow> type_error + record_reader" where
  "reader_value bytesInput =
     bindE (snapshotCanonicalBytes bytesInput) (\<lambda>bs. Inr \<lparr>rr_bytes = bs, rr_offset = 0\<rparr>)"

definition reader_take :: "nat \<Rightarrow> record_reader \<Rightarrow> type_error + (bytes \<times> record_reader)" where
  "reader_take len r =
     (if \<not> is_safe_integer (Integral (int len)) \<or> int (rr_offset r) > int (length (rr_bytes r)) - int len then Inl TypeError
      else Inr (subarray (rr_offset r) (rr_offset r + len) (rr_bytes r), r\<lparr>rr_offset := rr_offset r + len\<rparr>))"

definition reader_u64 :: "record_reader \<Rightarrow> type_error + (nat \<times> record_reader)" where
  "reader_u64 r = bindE (reader_take U64_BYTES r) (\<lambda>(v, r). Inr (get_uint 8 0 v, r))"

definition reader_frame :: "record_reader \<Rightarrow> type_error + (bytes \<times> record_reader)" where
  "reader_frame r =
     bindE (reader_u64 r) (\<lambda>(len, r).
     if int len > max_safe_integer then Inl TypeError else reader_take len r)"

definition reader_byte :: "record_reader \<Rightarrow> type_error + (byte \<times> record_reader)" where
  "reader_byte r = bindE (reader_take 1 r) (\<lambda>(v, r). Inr (v ! 0, r))"

definition reader_framedU64 :: "record_reader \<Rightarrow> type_error + (nat \<times> record_reader)" where
  "reader_framedU64 r =
     bindE (reader_frame r) (\<lambda>(v, r).
     if length v \<noteq> U64_BYTES then Inl TypeError else Inr (get_uint 8 0 v, r))"

definition reader_framedIdentity :: "nat \<Rightarrow> record_reader \<Rightarrow> type_error + (string \<times> record_reader)" where
  "reader_framedIdentity width r =
     bindE (reader_frame r) (\<lambda>(v, r).
     if length v \<noteq> width then Inl TypeError
     else bindE (snapshotIdentity (encodeBase64Url v) width) (\<lambda>i. Inr (i, r)))"

definition reader_identity :: "nat \<Rightarrow> record_reader \<Rightarrow> type_error + (string \<times> record_reader)" where
  "reader_identity width r =
     bindE (reader_take width r) (\<lambda>(v, r).
     bindE (snapshotIdentity (encodeBase64Url v) width) (\<lambda>i. Inr (i, r)))"

definition reader_finish :: "record_reader \<Rightarrow> type_error + unit" where
  "reader_finish r = (if rr_offset r \<noteq> length (rr_bytes r) then Inl TypeError else Inr ())"


section \<open>Records and their reader\<close>

text \<open>
  The fields of a record, the writer's call for each and the reader's. JavaScript arrays are no longer
  than the largest safe integer.
\<close>

datatype field_kind = Frame_field | Byte_field | U64_field | Framed_u64_field | Identity_field nat | Framed_identity_field nat

datatype field_value = Bytes_value bytes | Byte_value byte | U64_value nat | Identity_value string

fun write_field :: "field_kind \<Rightarrow> field_value \<Rightarrow> type_error + bytes" where
  "write_field Frame_field (Bytes_value b) = canonicalFrame b"
| "write_field Byte_field (Byte_value b) = canonicalU8 (Integral (uint b))"
| "write_field U64_field (U64_value n) = canonicalU64 (int n)"
| "write_field Framed_u64_field (U64_value n) = bindE (canonicalU64 (int n)) canonicalFrame"
| "write_field (Identity_field w) (Identity_value i) = canonicalIdentity i w"
| "write_field (Framed_identity_field w) (Identity_value i) = bindE (canonicalIdentity i w) canonicalFrame"
| "write_field _ _ = Inl TypeError"

definition tag_value :: "('a \<Rightarrow> field_value) \<Rightarrow> type_error + ('a \<times> record_reader) \<Rightarrow> type_error + (field_value \<times> record_reader)" where
  "tag_value f m = bindE m (\<lambda>(v, r). Inr (f v, r))"

fun read_field :: "field_kind \<Rightarrow> record_reader \<Rightarrow> type_error + (field_value \<times> record_reader)" where
  "read_field Frame_field r = tag_value Bytes_value (reader_frame r)"
| "read_field Byte_field r = tag_value Byte_value (reader_byte r)"
| "read_field U64_field r = tag_value U64_value (reader_u64 r)"
| "read_field Framed_u64_field r = tag_value U64_value (reader_framedU64 r)"
| "read_field (Identity_field w) r = tag_value Identity_value (reader_identity w r)"
| "read_field (Framed_identity_field w) r = tag_value Identity_value (reader_framedIdentity w r)"

fun write_fields :: "field_kind list \<Rightarrow> field_value list \<Rightarrow> type_error + bytes list" where
  "write_fields [] [] = Inr []"
| "write_fields (k # ks) (v # vs) = bindE (write_field k v) (\<lambda>b. bindE (write_fields ks vs) (\<lambda>bs. Inr (b # bs)))"
| "write_fields _ _ = Inl TypeError"

fun read_fields :: "field_kind list \<Rightarrow> record_reader \<Rightarrow> type_error + (field_value list \<times> record_reader)" where
  "read_fields [] r = Inr ([], r)"
| "read_fields (k # ks) r =
     bindE (read_field k r) (\<lambda>(v, r). bindE (read_fields ks r) (\<lambda>(vs, r). Inr (v # vs, r)))"

definition read_record :: "string \<Rightarrow> js_number \<Rightarrow> field_kind list \<Rightarrow> bytes \<Rightarrow> type_error + field_value list" where
  "read_record domain version ks b =
     bindE (reader_open b domain version) (\<lambda>r.
     bindE (read_fields ks r) (\<lambda>(vs, r). bindE (reader_finish r) (\<lambda>_. Inr vs)))"

definition write_record :: "string \<Rightarrow> js_number \<Rightarrow> field_kind list \<Rightarrow> field_value list \<Rightarrow> type_error + bytes" where
  "write_record domain version ks vs = bindE (write_fields ks vs) (canonicalRecord domain version)"

text \<open>The octets at the reader's position.\<close>

definition at_reader :: "record_reader \<Rightarrow> bytes \<Rightarrow> bool" where
  "at_reader r w \<longleftrightarrow> rr_offset r \<le> length (rr_bytes r) \<and> (\<exists>rest. drop (rr_offset r) (rr_bytes r) = w @ rest)"

definition skip :: "bytes \<Rightarrow> record_reader \<Rightarrow> record_reader" where
  "skip w r = r\<lparr>rr_offset := rr_offset r + length w\<rparr>"

definition short :: "record_reader \<Rightarrow> bool" where
  "short r \<longleftrightarrow> int (length (rr_bytes r)) \<le> max_safe_integer"

lemma skip_simps [simp]: "rr_bytes (skip w r) = rr_bytes r" "rr_offset (skip w r) = rr_offset r + length w"
  "short (skip w r) = short r" "skip [] r = r" "skip x (skip w r) = skip (w @ x) r"
  by (simp_all add: skip_def short_def)

lemma at_reader_Nil [simp]: "at_reader r [] \<longleftrightarrow> rr_offset r \<le> length (rr_bytes r)"
  by (simp add: at_reader_def)

lemma at_reader_length: "at_reader r w \<Longrightarrow> rr_offset r + length w \<le> length (rr_bytes r)"
  by (auto simp add: at_reader_def dest!: arg_cong [of _ _ length])

lemma at_reader_append: "at_reader r (w @ x) \<longleftrightarrow> at_reader r w \<and> at_reader (skip w r) x"
proof
  assume a: "at_reader r (w @ x)"
  then obtain rest where d: "drop (rr_offset r) (rr_bytes r) = w @ x @ rest"
    by (auto simp add: at_reader_def)
  then have "drop (rr_offset r + length w) (rr_bytes r) = x @ rest"
    by (metis add.commute append_eq_conv_conj drop_drop)
  then show "at_reader r w \<and> at_reader (skip w r) x"
    using a d at_reader_length [OF a] by (auto simp add: at_reader_def)
next
  assume a: "at_reader r w \<and> at_reader (skip w r) x"
  then obtain rest rest' where d: "drop (rr_offset r) (rr_bytes r) = w @ rest"
      "drop (rr_offset r + length w) (rr_bytes r) = x @ rest'"
    by (auto simp add: at_reader_def)
  then have "rest = x @ rest'"
    by (metis add.commute append_eq_conv_conj drop_drop)
  then show "at_reader r (w @ x)"
    using a d by (auto simp add: at_reader_def)
qed

lemma reader_take_iff:
  "reader_take n r = Inr (v, r') \<longleftrightarrow>
     int n \<le> max_safe_integer \<and> length v = n \<and> at_reader r v \<and> r' = skip v r"
proof (cases "rr_offset r + n \<le> length (rr_bytes r)")
  case True
  let ?v = "take n (drop (rr_offset r) (rr_bytes r))"
  have take: "reader_take n r = (if int n \<le> max_safe_integer then Inr (?v, skip ?v r) else Inl TypeError)"
    using True by (auto simp add: reader_take_def max_safe_integer_def subarray_def skip_def)
  have "length v = n \<and> at_reader r v \<longleftrightarrow> v = ?v"
  proof
    assume v: "v = ?v"
    have "drop (rr_offset r) (rr_bytes r) = v @ drop n (drop (rr_offset r) (rr_bytes r))"
      unfolding v by (rule append_take_drop_id [symmetric])
    then show "length v = n \<and> at_reader r v"
      using True v by (auto simp add: at_reader_def)
  qed (auto simp add: at_reader_def)
  then show ?thesis
    using take by auto
next
  case False
  then show ?thesis
    using at_reader_length [of r v] by (auto simp add: reader_take_def)
qed

lemma concat_canonical_Inr:
  "concatCanonicalBytes parts = Inr b \<longleftrightarrow> int (length (concat parts)) \<le> max_safe_integer \<and> b = concat parts"
  by (auto simp add: concatCanonicalBytes_def copy_parts_eq length_concat max_safe_integer_def)

lemma canonicalU64_Inr: "canonicalU64 v = Inr b \<longleftrightarrow> 0 \<le> v \<and> v < 256 ^ 8 \<and> b = be_bytes 8 (nat v)"
  by (auto simp add: canonicalU64_def)

lemma canonicalFrame_Inr:
  "canonicalFrame v = Inr b \<longleftrightarrow> int (8 + length v) \<le> max_safe_integer \<and> b = be_bytes 8 (length v) @ v"
  by (auto simp add: canonicalFrame_def bindE_eq_Inr canonicalU64_Inr concat_canonical_Inr max_safe_integer_def)

lemma canonicalIdentity_Inr:
  "canonicalIdentity i w = Inr b \<longleftrightarrow> i = encodeBase64Url b \<and> length b = w \<and> nonzero b"
proof
  assume "canonicalIdentity i w = Inr b"
  then show "i = encodeBase64Url b \<and> length b = w \<and> nonzero b"
    by (auto simp add: canonicalIdentity_def nonzero_iff list_all_iff split: option.splits if_splits)
next
  assume a: "i = encodeBase64Url b \<and> length b = w \<and> nonzero b"
  then have "b \<noteq> []"
    by (auto simp add: nonzero_iff)
  then show "canonicalIdentity i w = Inr b"
    using a base64url_decode_encode by (auto simp add: canonicalIdentity_def nonzero_iff list_all_iff)
qed

lemma snapshotIdentity_Inr:
  "snapshotIdentity i w = Inr j \<longleftrightarrow> j = i \<and> (\<exists>b. canonicalIdentity i w = Inr b)"
  by (auto simp add: snapshotIdentity_def bindE_eq_Inr canonicalIdentity_Inr)

lemma canonicalU8_byte: "canonicalU8 (Integral (uint (b :: byte))) = Inr [b]"
  using uint_lt2p [of b] by (simp add: canonicalU8_def)


lemma u64_field:
  "reader_u64 r = Inr (n, r') \<longleftrightarrow> (\<exists>w. canonicalU64 (int n) = Inr w \<and> at_reader r w \<and> r' = skip w r)"
  (is "_ \<longleftrightarrow> ?R")
proof -
  have "reader_u64 r = Inr (n, r') \<longleftrightarrow> (\<exists>v. length v = 8 \<and> at_reader r v \<and> r' = skip v r \<and> n = be_value v)"
    by (auto simp add: reader_u64_def bindE_eq_Inr reader_take_iff U64_BYTES_def max_safe_integer_def get_uint_def)
  also have "\<dots> \<longleftrightarrow> n < 256 ^ 8 \<and> at_reader r (be_bytes 8 n) \<and> r' = skip (be_bytes 8 n) r"
  proof
    assume "\<exists>v. length v = 8 \<and> at_reader r v \<and> r' = skip v r \<and> n = be_value v"
    then obtain v where v: "length v = 8" "at_reader r v" "r' = skip v r" "n = be_value v"
      by blast
    moreover from v(1,4) have "v = be_bytes 8 n" "n < 256 ^ 8"
      using be_value_bound [of v] by simp_all
    ultimately show "n < 256 ^ 8 \<and> at_reader r (be_bytes 8 n) \<and> r' = skip (be_bytes 8 n) r"
      by metis
  next
    assume "n < 256 ^ 8 \<and> at_reader r (be_bytes 8 n) \<and> r' = skip (be_bytes 8 n) r"
    then show "\<exists>v. length v = 8 \<and> at_reader r v \<and> r' = skip v r \<and> n = be_value v"
      by (intro exI [of _ "be_bytes 8 n"]) simp
  qed
  also have "\<dots> \<longleftrightarrow> ?R"
    by (auto simp add: canonicalU64_Inr)
  finally show ?thesis .
qed

lemma frame_field:
  assumes "short r"
  shows "reader_frame r = Inr (b, r') \<longleftrightarrow> (\<exists>w. canonicalFrame b = Inr w \<and> at_reader r w \<and> r' = skip w r)"
proof
  assume "reader_frame r = Inr (b, r')"
  then obtain q where q: "reader_u64 r = Inr (length b, q)" "at_reader q b" "r' = skip b q"
    by (auto simp add: reader_frame_def bindE_eq_Inr reader_take_iff split: if_splits)
  then have a: "at_reader r (be_bytes 8 (length b) @ b)" "r' = skip (be_bytes 8 (length b) @ b) r"
    by (auto simp add: u64_field canonicalU64_Inr at_reader_append)
  moreover have "int (8 + length b) \<le> max_safe_integer"
    using at_reader_length [OF a(1)] assms by (auto simp add: short_def)
  ultimately show "\<exists>w. canonicalFrame b = Inr w \<and> at_reader r w \<and> r' = skip w r"
    by (auto simp add: canonicalFrame_Inr)
next
  assume "\<exists>w. canonicalFrame b = Inr w \<and> at_reader r w \<and> r' = skip w r"
  then have a: "int (8 + length b) \<le> max_safe_integer" "at_reader r (be_bytes 8 (length b))"
      "at_reader (skip (be_bytes 8 (length b)) r) b" "r' = skip b (skip (be_bytes 8 (length b)) r)"
    by (auto simp add: canonicalFrame_Inr at_reader_append)
  have "reader_u64 r = Inr (length b, skip (be_bytes 8 (length b)) r)"
    unfolding u64_field using a(1,2) by (auto simp add: canonicalU64_Inr max_safe_integer_def)
  then show "reader_frame r = Inr (b, r')"
    using a(1,3,4) by (simp add: reader_frame_def reader_take_iff)
qed

lemma identity_bytes:
  "snapshotIdentity (encodeBase64Url v) w = Inr i \<longleftrightarrow> i = encodeBase64Url v \<and> length v = w \<and> nonzero v"
  using encodeBase64Url_inj by (auto simp add: snapshotIdentity_Inr canonicalIdentity_Inr)

lemma read_field_iff:
  assumes "short r" "\<And>w. k \<noteq> Identity_field w \<or> int w \<le> max_safe_integer"
  shows "read_field k r = Inr (v, r') \<longleftrightarrow> (\<exists>w. write_field k v = Inr w \<and> at_reader r w \<and> r' = skip w r)"
proof (cases k)
  case Frame_field
  then show ?thesis
    using frame_field [OF assms(1)] by (cases v) (auto simp add: tag_value_def bindE_eq_Inr)
next
  case Byte_field
  have "reader_byte r = Inr (b, r') \<longleftrightarrow> at_reader r [b] \<and> r' = skip [b] r" for b
  proof
    assume "reader_byte r = Inr (b, r')"
    then obtain x where "length x = 1" "at_reader r x" "r' = skip x r" "b = x ! 0"
      by (auto simp add: reader_byte_def bindE_eq_Inr reader_take_iff)
    then show "at_reader r [b] \<and> r' = skip [b] r"
      by (cases x) simp_all
  next
    assume "at_reader r [b] \<and> r' = skip [b] r"
    then have "reader_take 1 r = Inr ([b], r')"
      by (simp add: reader_take_iff max_safe_integer_def)
    then show "reader_byte r = Inr (b, r')"
      by (simp add: reader_byte_def)
  qed
  then show ?thesis
    using Byte_field by (cases v) (auto simp add: tag_value_def bindE_eq_Inr canonicalU8_byte)
next
  case U64_field
  then show ?thesis
    using u64_field by (cases v) (auto simp add: tag_value_def bindE_eq_Inr)
next
  case Framed_u64_field
  have "reader_framedU64 r = Inr (n, r') \<longleftrightarrow> (\<exists>b w. canonicalU64 (int n) = Inr b \<and> canonicalFrame b = Inr w \<and>
      at_reader r w \<and> r' = skip w r)" for n
  proof -
    have "reader_framedU64 r = Inr (n, r') \<longleftrightarrow>
        (\<exists>b. reader_frame r = Inr (b, r') \<and> length b = 8 \<and> n = be_value b)"
      by (auto simp add: reader_framedU64_def bindE_eq_Inr U64_BYTES_def get_uint_def)
    also have "\<dots> \<longleftrightarrow> (\<exists>b. reader_frame r = Inr (b, r') \<and> n < 256 ^ 8 \<and> b = be_bytes 8 n)"
      by (metis be_bytes_be_value be_value_be_bytes be_value_bound length_be_bytes)
    finally show ?thesis
      unfolding frame_field [OF assms(1)] by (auto simp add: canonicalU64_Inr)
  qed
  then show ?thesis
    using Framed_u64_field by (cases v) (auto simp add: tag_value_def bindE_eq_Inr)
next
  case (Identity_field w)
  have "int w \<le> max_safe_integer"
    using assms(2) [of w] Identity_field by simp
  then have "reader_identity w r = Inr (i, r') \<longleftrightarrow> (\<exists>b. canonicalIdentity i w = Inr b \<and> at_reader r b \<and> r' = skip b r)" for i
    by (auto simp add: reader_identity_def bindE_eq_Inr reader_take_iff identity_bytes canonicalIdentity_Inr)
  then show ?thesis
    using Identity_field by (cases v) (auto simp add: tag_value_def bindE_eq_Inr)
next
  case (Framed_identity_field w)
  have "reader_framedIdentity w r = Inr (i, r') \<longleftrightarrow>
      (\<exists>b x. canonicalIdentity i w = Inr b \<and> canonicalFrame b = Inr x \<and> at_reader r x \<and> r' = skip x r)" for i
    unfolding reader_framedIdentity_def bindE_eq_Inr
    using frame_field [OF assms(1)] by (auto simp add: bindE_eq_Inr identity_bytes canonicalIdentity_Inr)
  then show ?thesis
    using Framed_identity_field by (cases v) (auto simp add: tag_value_def bindE_eq_Inr)
qed


definition kinds_ok :: "field_kind list \<Rightarrow> bool" where
  "kinds_ok ks \<longleftrightarrow> (\<forall>w. Identity_field w \<in> set ks \<longrightarrow> int w \<le> max_safe_integer)"

lemma read_fields_iff:
  "short r \<Longrightarrow> rr_offset r \<le> length (rr_bytes r) \<Longrightarrow> kinds_ok ks \<Longrightarrow>
   read_fields ks r = Inr (vs, r') \<longleftrightarrow>
     (\<exists>ws. write_fields ks vs = Inr ws \<and> at_reader r (concat ws) \<and> r' = skip (concat ws) r)"
proof (induction ks arbitrary: r vs)
  case Nil
  then show ?case by (cases vs) auto
next
  case (Cons k ks)
  have k: "\<And>w. k \<noteq> Identity_field w \<or> int w \<le> max_safe_integer" and ks: "kinds_ok ks"
    using Cons.prems(3) by (auto simp add: kinds_ok_def)
  have step: "read_fields (k # ks) r = Inr (vs, r') \<longleftrightarrow>
      (\<exists>v q us. read_field k r = Inr (v, q) \<and> read_fields ks q = Inr (us, r') \<and> vs = v # us)"
    by (auto simp add: bindE_eq_Inr)
  show ?case
    unfolding step read_field_iff [OF Cons.prems(1) k]
  proof
    assume "\<exists>v q us. (\<exists>w. write_field k v = Inr w \<and> at_reader r w \<and> q = skip w r) \<and>
        read_fields ks q = Inr (us, r') \<and> vs = v # us"
    then obtain v us w where a: "write_field k v = Inr w" "at_reader r w" "read_fields ks (skip w r) = Inr (us, r')" "vs = v # us"
      by blast
    have "short (skip w r)" "rr_offset (skip w r) \<le> length (rr_bytes (skip w r))"
      using Cons.prems(1) at_reader_length [OF a(2)] by simp_all
    from Cons.IH [OF this ks] a(3) obtain ws where "write_fields ks us = Inr ws" "at_reader (skip w r) (concat ws)"
        "r' = skip (concat ws) (skip w r)"
      by blast
    with a show "\<exists>ws. write_fields (k # ks) vs = Inr ws \<and> at_reader r (concat ws) \<and> r' = skip (concat ws) r"
      by (auto simp add: at_reader_append)
  next
    assume "\<exists>ws. write_fields (k # ks) vs = Inr ws \<and> at_reader r (concat ws) \<and> r' = skip (concat ws) r"
    then obtain v us w ws where a: "vs = v # us" "write_field k v = Inr w" "write_fields ks us = Inr ws"
        "at_reader r w" "at_reader (skip w r) (concat ws)" "r' = skip (concat ws) (skip w r)"
      by (cases vs) (auto simp add: bindE_eq_Inr at_reader_append)
    have "short (skip w r)" "rr_offset (skip w r) \<le> length (rr_bytes (skip w r))"
      using Cons.prems(1) at_reader_length [OF a(4)] by simp_all
    from Cons.IH [OF this ks] a(3,5,6) have "read_fields ks (skip w r) = Inr (us, r')"
      by blast
    with a show "\<exists>v q us. (\<exists>w. write_field k v = Inr w \<and> at_reader r w \<and> q = skip w r) \<and>
        read_fields ks q = Inr (us, r') \<and> vs = v # us"
      by blast
  qed
qed

definition domain_ok :: "string \<Rightarrow> bool" where
  "domain_ok domain \<longleftrightarrow> domain \<noteq> [] \<and> list_all (\<lambda>c. 0x21 \<le> (of_char c :: nat) \<and> (of_char c :: nat) \<le> 0x7e) domain"

definition record_prefix :: "string \<Rightarrow> int \<Rightarrow> bytes" where
  "record_prefix domain version = ascii domain @ [0, of_int version]"

lemma prefix_concat: "ascii (domain @ [CHR 0x00]) @ [of_int version] = record_prefix domain version"
  by (simp add: record_prefix_def ascii_def)

lemma reader_open_iff:
  assumes "int (length b) \<le> max_safe_integer" "1 \<le> version" "version \<le> 255"
  shows "reader_open b domain (Integral version) = Inr r \<longleftrightarrow>
    (\<exists>rest. b = record_prefix domain version @ rest) \<and>
    r = \<lparr>rr_bytes = b, rr_offset = length (record_prefix domain version)\<rparr>"
proof -
  let ?p = "record_prefix domain version"
  have len: "length ?p = length (ascii (domain @ [CHR 0x00])) + 1"
    by (simp add: record_prefix_def ascii_def)
  have eq: "equalCanonicalBytes x y \<longleftrightarrow> x = y" for x y
    by (auto simp add: equalCanonicalBytes_def xor_difference_zero)
  have u8: "canonicalU8 (Integral version) = Inr [of_int version]"
    using assms by (simp add: canonicalU8_def)
  have cat: "concatCanonicalBytes [ascii (domain @ [CHR 0x00]), [of_int version]] = Inr x \<longleftrightarrow>
      int (length ?p) \<le> max_safe_integer \<and> x = ?p" for x
    unfolding concat_canonical_Inr by (simp add: prefix_concat len)
  have starts: "length b \<ge> length ?p \<and> subarray 0 (length ?p) b = ?p \<longleftrightarrow> (\<exists>rest. b = ?p @ rest)"
    by (auto simp add: subarray_def) (metis append_take_drop_id)
  have "assertCanonicalRecordDomain b domain (Integral version) = Inr u \<longleftrightarrow> (\<exists>rest. b = ?p @ rest)" for u
    unfolding assertCanonicalRecordDomain_def u8 bindE_Inr bindE_eq_Inr cat starts [symmetric]
    using assms(1) by (auto simp add: eq)
  moreover have "b \<noteq> []" if "\<exists>rest. b = ?p @ rest"
    using that by (auto simp add: record_prefix_def)
  ultimately show ?thesis
    by (auto simp add: reader_open_def snapshotCanonicalBytes_def bindE_eq_Inr len)
qed

lemma write_record_Inr:
  assumes "domain_ok domain" "1 \<le> version" "version \<le> 255"
  shows "write_record domain (Integral version) ks vs = Inr b \<longleftrightarrow>
    (\<exists>ws. write_fields ks vs = Inr ws \<and> b = record_prefix domain version @ concat ws) \<and> int (length b) \<le> max_safe_integer"
proof -
  have "canonicalRecord domain (Integral version) ws = Inr b \<longleftrightarrow>
      b = record_prefix domain version @ concat ws \<and> int (length b) \<le> max_safe_integer" for ws
    using assms concat_canonical_Inr [of "[ascii (domain @ [CHR 0x00]), [of_int version]] @ ws" b]
    by (auto simp add: canonicalRecord_def domain_ok_def record_prefix_def ascii_def)
  then show ?thesis
    by (auto simp add: write_record_def bindE_eq_Inr)
qed


lemma read_record_iff:
  assumes dom: "domain_ok domain" "1 \<le> version" "version \<le> 255" and ks: "kinds_ok ks"
    and b: "int (length b) \<le> max_safe_integer"
  shows "read_record domain (Integral version) ks b = Inr vs \<longleftrightarrow> write_record domain (Integral version) ks vs = Inr b"
proof -
  let ?p = "record_prefix domain version" and ?r = "\<lparr>rr_bytes = b, rr_offset = length (record_prefix domain version)\<rparr>"
  have "read_record domain (Integral version) ks b = Inr vs \<longleftrightarrow>
      (\<exists>rest. b = ?p @ rest) \<and> (\<exists>r'. read_fields ks ?r = Inr (vs, r') \<and> rr_offset r' = length (rr_bytes r'))"
    unfolding read_record_def bindE_eq_Inr reader_open_iff [OF b dom(2,3)]
    by (auto simp add: bindE_eq_Inr reader_finish_def split: if_splits)
  also have "\<dots> \<longleftrightarrow> (\<exists>ws. write_fields ks vs = Inr ws \<and> b = ?p @ concat ws)"
  proof
    assume a: "(\<exists>rest. b = ?p @ rest) \<and> (\<exists>r'. read_fields ks ?r = Inr (vs, r') \<and> rr_offset r' = length (rr_bytes r'))"
    then obtain rest r' where r: "b = ?p @ rest" "read_fields ks ?r = Inr (vs, r')" "rr_offset r' = length (rr_bytes r')"
      by blast
    have "short ?r" "rr_offset ?r \<le> length (rr_bytes ?r)"
      using b r(1) by (simp_all add: short_def)
    from read_fields_iff [OF this ks] r(2) obtain ws where ws: "write_fields ks vs = Inr ws" "at_reader ?r (concat ws)"
        "r' = skip (concat ws) ?r"
      by blast
    have "rest = concat ws"
      using ws(2,3) r(1,3) by (auto simp add: at_reader_def)
    then show "\<exists>ws. write_fields ks vs = Inr ws \<and> b = ?p @ concat ws"
      using ws(1) r(1) by blast
  next
    assume "\<exists>ws. write_fields ks vs = Inr ws \<and> b = ?p @ concat ws"
    then obtain ws where ws: "write_fields ks vs = Inr ws" "b = ?p @ concat ws"
      by blast
    have "short ?r" "rr_offset ?r \<le> length (rr_bytes ?r)" "at_reader ?r (concat ws)"
      using b ws(2) by (simp_all add: short_def at_reader_def)
    then have "read_fields ks ?r = Inr (vs, skip (concat ws) ?r)"
      using read_fields_iff [OF _ _ ks, of ?r] ws(1) by blast
    then show "(\<exists>rest. b = ?p @ rest) \<and> (\<exists>r'. read_fields ks ?r = Inr (vs, r') \<and> rr_offset r' = length (rr_bytes r'))"
      using ws(2) by auto
  qed
  finally show ?thesis
    using write_record_Inr [OF dom] b by blast
qed

text \<open>
  C30. The record reader accepts exactly what the record writer makes: for every list of fields, reading
  a byte string under a domain and version gives the values \<open>vs\<close> if and only if writing those values
  under that domain and version gives that byte string.
\<close>

theorem record_reader_exact:
  assumes "domain_ok domain" "1 \<le> version" "version \<le> 255" "kinds_ok ks" "int (length b) \<le> max_safe_integer"
  shows "read_record domain (Integral version) ks b = Inr vs \<longleftrightarrow> write_record domain (Integral version) ks vs = Inr b"
  by (rule read_record_iff [OF assms])

lemma be_bytes_one: "be_bytes 8 (Suc 0) = [0, 0, 0, 0, 0, 0, 0, 1]"
  by code_simp

theorem record_reader_exact_witness:
  "read_record ''ws'' (Integral 1) [Byte_field, Frame_field] [119, 115, 0, 1, 7, 0, 0, 0, 0, 0, 0, 0, 1, 9] =
     Inr [Byte_value 7, Bytes_value [9]]"
proof -
  have "domain_ok ''ws''" "kinds_ok [Byte_field, Frame_field]"
    by (simp_all add: domain_ok_def kinds_ok_def)
  moreover have "write_record ''ws'' (Integral 1) [Byte_field, Frame_field] [Byte_value 7, Bytes_value [9]] =
      Inr [119, 115, 0, 1, 7, 0, 0, 0, 0, 0, 0, 0, 1, 9]"
    by (simp add: write_record_def canonicalU8_def canonicalFrame_def canonicalU64_def concatCanonicalBytes_def
        canonicalRecord_def max_safe_integer_def set_at_def ascii_def be_bytes_one)
  ultimately show ?thesis
    using record_reader_exact [of "''ws''" 1 "[Byte_field, Frame_field]"
        "[119, 115, 0, 1, 7, 0, 0, 0, 0, 0, 0, 0, 1, 9]" "[Byte_value 7, Bytes_value [9]]"]
    by (simp add: max_safe_integer_def)
qed

lemma zero_free_prefix: "0 \<notin> set a \<Longrightarrow> 0 \<notin> set b \<Longrightarrow> a @ (0 :: byte) # x = b @ 0 # y \<Longrightarrow> a = b \<and> x = y"
proof (induction a arbitrary: b)
  case Nil
  then show ?case by (cases b) auto
next
  case (Cons c a)
  then show ?case by (cases b) auto
qed

lemma unat_of_char: "unat (of_char c :: byte) = of_char c"
proof -
  have "unat (of_nat (of_char c) :: byte) = of_char c mod 256"
    by (simp add: unat_of_nat)
  then show ?thesis
    using nat_of_char_less_256 [of c] unfolding of_nat_of_char by simp
qed

lemma ascii_domain: "domain_ok d \<Longrightarrow> 0 \<notin> set (ascii d)"
  by (auto simp add: domain_ok_def ascii_def list_all_iff dest!: arg_cong [where f = unat] simp: unat_of_char)

lemma ascii_inj: "ascii d = ascii e \<Longrightarrow> d = e"
proof -
  have "map unat (ascii s) = map of_char s" for s
    by (simp add: ascii_def unat_of_char comp_def)
  then have "ascii d = ascii e \<Longrightarrow> map (of_char :: char \<Rightarrow> nat) d = map of_char e"
    by metis
  then show "ascii d = ascii e \<Longrightarrow> d = e"
    using inj_map_eq_map [OF inj_of_char, of d e] by blast
qed

text \<open>
  C31. Records of different domains or versions never have the same octets, and under one list of field kinds
  no two lists of values have: a digest over a record commits to its domain, version and values.
\<close>

theorem record_domains_separate:
  assumes "domain_ok d" "1 \<le> v" "v \<le> 255" "domain_ok d'" "1 \<le> v'" "v' \<le> 255" "kinds_ok ks"
    "write_record d (Integral v) ks vs = Inr b" "write_record d' (Integral v') ks' vs' = Inr b"
  shows "d = d' \<and> v = v' \<and> (ks = ks' \<longrightarrow> vs = vs')"
proof -
  have len: "int (length b) \<le> max_safe_integer"
    using assms(8) unfolding write_record_Inr [OF assms(1-3)] by blast
  obtain ws where w: "b = ascii d @ 0 # of_int v # concat ws"
    using assms(8) unfolding write_record_Inr [OF assms(1-3)] record_prefix_def by auto
  obtain ws' where w': "b = ascii d' @ 0 # of_int v' # concat ws'"
    using assms(9) unfolding write_record_Inr [OF assms(4-6)] record_prefix_def by auto
  from w w' have "ascii d = ascii d'" "(of_int v :: byte) = of_int v'"
    using zero_free_prefix [OF ascii_domain [OF assms(1)] ascii_domain [OF assms(4)], of "of_int v # concat ws"
        "of_int v' # concat ws'"] by auto
  moreover have "v = v'"
  proof -
    have "uint (of_int v :: byte) = v" "uint (of_int v' :: byte) = v'"
      using assms(2,3,5,6) by (simp_all add: uint_word_of_int)
    then show ?thesis using calculation(2) by metis
  qed
  moreover have "vs = vs'" if "ks = ks'"
    using assms(7-9) ascii_inj [OF calculation(1)] calculation(3) that
      read_record_iff [OF assms(1-3,7) len] by (metis sum.inject(2))
  ultimately show ?thesis
    using ascii_inj by blast
qed

theorem record_domains_separate_witness:
  "write_record ''a'' (Integral 1) [] [] = Inr [0x61, 0, 1] \<and> write_record ''b'' (Integral 1) [] [] \<noteq> Inr [0x61, 0, 1]"
proof -
  have "domain_ok ''a''" "domain_ok ''b''" "kinds_ok []"
    by (simp_all add: domain_ok_def kinds_ok_def)
  moreover have "write_record ''a'' (Integral 1) [] [] = Inr [0x61, 0, 1]" by code_simp
  ultimately show ?thesis
    using record_domains_separate [of "''a''" 1 "''b''" 1 "[]" "[]" "[0x61, 0, 1]" "[]" "[]"] by auto
qed

text \<open>
  Base64url strings and nonempty byte strings correspond one to one: the decoder accepts exactly the
  encoder's results. An identity is accepted exactly when it encodes a byte string of the right width that is not
  all zero, and is kept unchanged.
\<close>

theorem identities_canonical:
  "(decodeBase64Url s = Some bs \<longleftrightarrow> bs \<noteq> [] \<and> s = encodeBase64Url bs) \<and>
   (snapshotIdentity s w = Inr r \<longleftrightarrow> r = s \<and> (\<exists>bs. s = encodeBase64Url bs \<and> length bs = w \<and> nonzero bs))"
  using base64url_iff by (auto simp add: snapshotIdentity_Inr canonicalIdentity_Inr)

lemma canonical_frames_Inr:
  "canonical_frames path = Inr fs \<Longrightarrow> fs = map (\<lambda>s. be_bytes 8 (length (text_encode s)) @ text_encode s) path \<and>
     (\<forall>s \<in> set path. int (length (text_encode s)) \<le> max_safe_integer)"
  by (induction path arbitrary: fs) (auto simp add: bindE_eq_Inr canonicalFrame_Inr)

lemma frames_inj:
  assumes "\<forall>a \<in> set as. length a < 256 ^ 8" "\<forall>b \<in> set bs. length b < 256 ^ 8" "length as = length bs"
    "concat (map (\<lambda>a. be_bytes 8 (length a) @ a) as) = concat (map (\<lambda>b. be_bytes 8 (length b) @ b) bs)"
  shows "as = bs"
  using assms(3,1,2,4)
proof (induction as bs rule: list_induct2)
  case (Cons a as b bs)
  have "be_bytes 8 (length a) = be_bytes 8 (length b)"
    and rest: "a @ concat (map (\<lambda>a. be_bytes 8 (length a) @ a) as) = b @ concat (map (\<lambda>b. be_bytes 8 (length b) @ b) bs)"
    using Cons.prems(3) by simp_all
  then have "length a = length b"
    using Cons.prems(1,2) be_bytes_inj [of "length a" 8 "length b"] by simp
  then show ?case
    using rest Cons by simp
qed simp


text \<open>
  The canonical octets of a catalog path determine the path.
\<close>

theorem canonical_path_unambiguous:
  assumes "canonicalPath t mappings p = Inr b" "canonicalPath t mappings q = Inr b"
  shows "p = q"
proof -
  let ?f = "\<lambda>a. be_bytes 8 (length a) @ a"
  have path: "\<exists>fs. snapshotCatalogPath t mappings x = Inr x \<and> canonical_frames x = Inr fs \<and>
      b = be_bytes 8 (length x) @ concat fs \<and> length x < 256 ^ 8" if "canonicalPath t mappings x = Inr b" for x
    using that by (auto simp add: canonicalPath_def bindE_eq_Inr canonicalU64_Inr concat_canonical_Inr snapshot_path_Inr)
  have shape: "b = be_bytes 8 (length x) @ concat (map ?f (map text_encode x))" "length x < 256 ^ 8"
    "\<forall>a \<in> set (map text_encode x). length a < 256 ^ 8" "\<forall>s \<in> set x. isWellFormedUnicode s"
    if x: "canonicalPath t mappings x = Inr b" for x
  proof -
    obtain fs where fs: "snapshotCatalogPath t mappings x = Inr x" "canonical_frames x = Inr fs"
        "b = be_bytes 8 (length x) @ concat fs" "length x < 256 ^ 8"
      using path [OF x] by blast
    show "length x < 256 ^ 8" by (rule fs(4))
    show "b = be_bytes 8 (length x) @ concat (map ?f (map text_encode x))"
      using fs(3) canonical_frames_Inr [OF fs(2)] by (simp add: comp_def)
    show "\<forall>a \<in> set (map text_encode x). length a < 256 ^ 8"
      using canonical_frames_Inr [OF fs(2)] by (auto simp add: max_safe_integer_def)
    show "\<forall>s \<in> set x. isWellFormedUnicode s"
      using fs(1) catalog_name_safe unfolding snapshot_path_Inr safe_segment_def by blast
  qed
  note p = shape [OF assms(1)] and q = shape [OF assms(2)]
  have "be_bytes 8 (length p) = be_bytes 8 (length q)"
    and frames: "concat (map ?f (map text_encode p)) = concat (map ?f (map text_encode q))"
    using p(1) q(1) by simp_all
  then have "length p = length q"
    using be_bytes_inj [OF p(2) q(2)] by blast
  then have "map text_encode p = map text_encode q"
    by (intro frames_inj [OF p(3) q(3) _ frames]) simp
  then show ?thesis
    using p(4) q(4) text_encode_inj by (intro map_inj_on [of text_encode]) (auto intro!: inj_onI)
qed

theorem canonical_path_unambiguous_witness:
  "\<exists>b. canonicalPath sample_tables (\<lambda>_. None) [[0x61]] = Inr b \<and> canonicalPath sample_tables (\<lambda>_. None) [[0x62]] \<noteq> Inr b"
proof -
  have "foldPortableName15 sample_tables (\<lambda>_. None) [0x61] = [0x61]"
    by (simp add: foldPortableName15_def fullCaseFold15_def fold_loop_points fold_point_def fromCodePoint_def sample_nfc)
  moreover have e: "text_encode [0x61] = [0x61]"
    by (simp add: text_encode_def scalar_value_def utf8_scalar_def octet_def)
  ultimately have "snapshotCatalogPath sample_tables (\<lambda>_. None) [[0x61]] = Inr [[0x61]]"
    by (simp add: snapshot_path_Inr sample_name RESERVED_OUTPUT_PREFIX_def js_text_def)
  then have "\<exists>b. canonicalPath sample_tables (\<lambda>_. None) [[0x61]] = Inr b"
    using e by (simp add: canonicalPath_def canonicalU64_def canonicalFrame_def concatCanonicalBytes_def max_safe_integer_def
        set_at_def)
  then show ?thesis
    using canonical_path_unambiguous [of sample_tables "\<lambda>_. None" "[[0x61]]" _ "[[0x62]]"] by auto
qed

lemma canonical_wellformed_simps:
  "canonical_isWellFormedUnicode [u] \<longleftrightarrow> \<not> high_surrogate u \<and> \<not> low_surrogate u"
  "canonical_isWellFormedUnicode (u # x # rest) \<longleftrightarrow>
     (if high_surrogate u then low_surrogate x \<and> canonical_isWellFormedUnicode rest
      else \<not> low_surrogate u \<and> canonical_isWellFormedUnicode (x # rest))"
proof -
  have unit: "(u < 0xd800 \<or> u > 0xdfff) \<longleftrightarrow> \<not> high_surrogate u \<and> \<not> low_surrogate u"
    unfolding surrogate_nat word_less_nat_alt by simp linarith
  have lead: "high_surrogate u \<longleftrightarrow> \<not> (u < 0xd800 \<or> u > 0xdfff) \<and> \<not> u > 0xdbff"
    unfolding surrogate_nat word_less_nat_alt by simp linarith
  have trail: "(x < 0xdc00 \<or> x > 0xdfff) \<longleftrightarrow> \<not> low_surrogate x"
    unfolding surrogate_nat word_less_nat_alt by simp linarith
  consider (plain) "u < 0xd800 \<or> u > 0xdfff" "\<not> high_surrogate u" "\<not> low_surrogate u"
    | (high) "\<not> (u < 0xd800 \<or> u > 0xdfff)" "\<not> u > 0xdbff" "high_surrogate u"
    | (low) "\<not> (u < 0xd800 \<or> u > 0xdfff)" "u > 0xdbff" "\<not> high_surrogate u" "low_surrogate u"
    using unit lead by blast
  then have "(canonical_isWellFormedUnicode [u] \<longleftrightarrow> \<not> high_surrogate u \<and> \<not> low_surrogate u) \<and>
    (canonical_isWellFormedUnicode (u # x # rest) \<longleftrightarrow>
     (if high_surrogate u then low_surrogate x \<and> canonical_isWellFormedUnicode rest
      else \<not> low_surrogate u \<and> canonical_isWellFormedUnicode (x # rest)))"
  proof cases
    case plain
    show ?thesis
      unfolding canonical_isWellFormedUnicode.simps(2) [of u] if_P [OF plain(1)] using plain(2,3) by simp
  next
    case high
    show ?thesis
      unfolding canonical_isWellFormedUnicode.simps(2) [of u] if_not_P [OF high(1)] if_not_P [OF high(2)] list.case
        trail using high(3) by simp
  next
    case low
    show ?thesis
      unfolding canonical_isWellFormedUnicode.simps(2) [of u] if_not_P [OF low(1)] if_P [OF low(2)] using low(3,4) by simp
  qed
  then show "canonical_isWellFormedUnicode [u] \<longleftrightarrow> \<not> high_surrogate u \<and> \<not> low_surrogate u"
    "canonical_isWellFormedUnicode (u # x # rest) \<longleftrightarrow>
     (if high_surrogate u then low_surrogate x \<and> canonical_isWellFormedUnicode rest
      else \<not> low_surrogate u \<and> canonical_isWellFormedUnicode (x # rest))"
    by blast+
qed

lemma canonical_wellformed_eq: "canonical_isWellFormedUnicode v = isWellFormedUnicode v"
proof (induction v rule: code_points.induct)
  case (3 u x rest)
  then show ?case
    unfolding wellformed_simps canonical_wellformed_simps by (cases "high_surrogate u"; cases "low_surrogate x") simp_all
qed (simp_all only: wellformed_simps canonical_wellformed_simps isWellFormedUnicode.simps(1)
    canonical_isWellFormedUnicode.simps(1))

text \<open>
  The number encoders have fixed widths, accept exactly the range of their type and give
  different octets for different numbers, negative ones included; the third test for well-formed
  strings agrees with the first.
\<close>

theorem canonical_numbers_exact:
  "(is_ok (canonicalU8 (Integral i)) \<longleftrightarrow> 0 \<le> i \<and> i < 2 ^ 8) \<and>
   (is_ok (canonicalU32 (Integral i)) \<longleftrightarrow> 0 \<le> i \<and> i < 2 ^ 32) \<and>
   (is_ok (canonicalU64 i) \<longleftrightarrow> 0 \<le> i \<and> i < 2 ^ 64) \<and>
   (is_ok (canonicalI64 i) \<longleftrightarrow> - (2 ^ 63) \<le> i \<and> i < 2 ^ 63) \<and>
   (canonicalU64 i = Inr b \<and> canonicalU64 j = Inr b \<longrightarrow> i = j \<and> length b = 8) \<and>
   (canonicalI64 i = Inr b \<and> canonicalI64 j = Inr b \<longrightarrow> i = j \<and> length b = 8) \<and>
   (canonicalU32 (Integral i) = Inr b \<and> canonicalU32 (Integral j) = Inr b \<longrightarrow> i = j \<and> length b = 4) \<and>
   canonical_isWellFormedUnicode v = isWellFormedUnicode v"
proof (intro conjI impI)
  show "canonical_isWellFormedUnicode v = isWellFormedUnicode v"
    by (rule canonical_wellformed_eq)
next
  show "is_ok (canonicalU8 (Integral i)) \<longleftrightarrow> 0 \<le> i \<and> i < 2 ^ 8"
    "is_ok (canonicalU32 (Integral i)) \<longleftrightarrow> 0 \<le> i \<and> i < 2 ^ 32"
    "is_ok (canonicalU64 i) \<longleftrightarrow> 0 \<le> i \<and> i < 2 ^ 64"
    "is_ok (canonicalI64 i) \<longleftrightarrow> - (2 ^ 63) \<le> i \<and> i < 2 ^ 63"
    by (auto simp add: canonicalU8_def canonicalU32_def canonicalU64_def canonicalI64_def is_ok_iff)
next
  assume "canonicalU64 i = Inr b \<and> canonicalU64 j = Inr b"
  then have "nat i < 256 ^ 8" "nat j < 256 ^ 8" "be_bytes 8 (nat i) = be_bytes 8 (nat j)" "0 \<le> i" "0 \<le> j" "length b = 8"
    by (auto simp add: canonicalU64_Inr)
  then show "i = j" "length b = 8"
    using be_bytes_inj [of "nat i" 8 "nat j"] by simp_all
next
  assume a: "canonicalI64 i = Inr b \<and> canonicalI64 j = Inr b"
  let ?m = "0x10000000000000000 :: int"
  have r: "- 0x8000000000000000 \<le> i" "i \<le> 0x7fffffffffffffff" "- 0x8000000000000000 \<le> j" "j \<le> 0x7fffffffffffffff"
    "b = be_bytes 8 (nat (i mod ?m))" "b = be_bytes 8 (nat (j mod ?m))"
    using a by (auto simp add: canonicalI64_def split: if_splits)
  have "nat (i mod ?m) < 256 ^ 8" "nat (j mod ?m) < 256 ^ 8"
    using pos_mod_bound [of ?m i] pos_mod_bound [of ?m j] by simp_all
  then have "i mod ?m = j mod ?m"
    using be_bytes_inj r(5,6) by (metis eq_nat_nat_iff pos_mod_sign zero_less_numeral)
  then have "?m dvd i - j"
    by (simp add: mod_eq_dvd_iff)
  then have "i - j = 0"
    using dvd_imp_le_int [of "i - j" ?m] r(1-4) by linarith
  then show "i = j" by simp
  show "length b = 8" using r(5) by simp
next
  assume "canonicalU32 (Integral i) = Inr b \<and> canonicalU32 (Integral j) = Inr b"
  then have "nat i < 256 ^ 4" "nat j < 256 ^ 4" "be_bytes 4 (nat i) = be_bytes 4 (nat j)" "0 \<le> i" "0 \<le> j" "length b = 4"
    by (auto simp add: canonicalU32_def split: if_splits)
  then show "i = j" "length b = 4"
    using be_bytes_inj [of "nat i" 4 "nat j"] by simp_all
qed


theorem canonical_numbers_exact_witness: "canonicalI64 (- 1) \<noteq> canonicalI64 1"
proof -
  have "\<exists>b. canonicalI64 1 = Inr b"
    by (simp add: canonicalI64_def)
  then obtain b where "canonicalI64 1 = Inr b" by blast
  then show ?thesis
    using canonical_numbers_exact [of "- 1" b 1 "[]"] by auto
qed

end
