(* ===== verification/Lifecycle.thy ===== *)
theory Lifecycle
  imports Canonical_Records
begin

text \<open>
The life of one receive operation, from \<^verbatim>\<open>web/src/transfer/lifecycle/\<close>: the durable states, their
  timing and content warnings (\<^verbatim>\<open>state.ts\<close>, \<^verbatim>\<open>timing.ts\<close>, \<^verbatim>\<open>content-warning.ts\<close>), the events and the
  reducer that applies them under the authority of a generation and a lease (\<^verbatim>\<open>events.ts\<close>, \<^verbatim>\<open>transitions.ts\<close>,
  \<^verbatim>\<open>recovery.ts\<close>, \<^verbatim>\<open>reducer.ts\<close>), and what an interrupted operation keeps (\<^verbatim>\<open>interruption.ts\<close>).
  A state is the common fields with a payload, one constructor per kind; a raise is \<open>Inl TypeError\<close>; the one
  reading of the clock of a transition is \<open>le_now\<close>.  Branches whose only purpose is to reject values outside
  the declared TypeScript types are not represented: the HOL types exclude those values.
\<close>

section \<open>States\<close>

datatype plan_kind = Direct_tree | Direct_atomic | Workspace_then_publish | Portable_handoff | Direct_resumable_zip

datatype owned_cleanup_state = Clean | Cleanup_pending
datatype needs_attention_reason = Target_ownership_unknown | Publication_unknown | Cleanup_unknown
datatype restart_required_reason =
  Direct_atomic_rolled_back | Portable_aborted | Source_revision_changed | Preparation_invalidated
| Content_session_ended | Target_deleted
datatype direct_zip_checkpoint_phase = Between_members | Inside_member | Closing
datatype recovery_gate_kind = Authorization_required | Target_verification_required | Destination_space_required
datatype partial_directory_reason = Failures | Stopped
datatype recovery_discovery_state = Discovery_complete | Discovery_failed
datatype preparation_admission_reason =
  Entry_limit | Metadata_limit | Artifact_limit | Job_workspace_limit | Process_workspace_limit
| Quota_insufficient | Generation_mismatch | Arithmetic_overflow
datatype directory_failure_reason =
  File_open_failed | File_revision_changed | Content_read_failed | Output_write_failed | Output_commit_failed
| Directory_finalize_failed
datatype package_failure_reason = Package_quota_insufficient | Writer_failed | Layout_mismatch
datatype external_attempt_reason = User_cancelled | Permission_denied | Target_unavailable | Target_collision
datatype start_reason = Start_paused | Start_failed
datatype missing_content_reason = Source_changed | Source_unavailable | File_failed

record recovery_selection_facts =
  sf_discoveredFileCount :: int
  sf_discoveredBytes :: int
  sf_discovery :: recovery_discovery_state

record file_set =
  fs_checkpointSetDigest :: string
  fs_completedFileCount :: int
  fs_completedBytes :: int
  fs_retainedBytes :: int
  fs_selectionFacts :: recovery_selection_facts
  fs_partialReceiptDigest :: "string option"

record workspace_archive =
  wa_objectId :: string
  wa_checkpointGeneration :: int
  wa_occupiedBytes :: int
  wa_completedFileCount :: int
  wa_completedBytes :: int
  wa_discoveryComplete :: bool
  wa_storagePressure :: bool

record direct_zip =
  dz_checkpointDigest :: string
  dz_safeSelectedPayloadBytes :: int
  dz_committedArchiveLength :: int
  dz_checkpointPhase :: direct_zip_checkpoint_phase

datatype resumable_payload =
  File_set file_set | Workspace_archive workspace_archive | Direct_zip direct_zip

text \<open>An attempt to hand the result to the browser: its id, and the package of a workspace.\<close>

datatype handoff_attempt = Workspace_attempt string string | Portable_attempt string

datatype lifecycle_payload =
  is_Intent_frozen: Intent_frozen
| Resumable_start start_reason
| is_Preparing: Preparing string
| is_Receiving: Receiving string
| Source_invalidated string
| is_Resumable_receive: Resumable_receive resumable_payload
| is_Finalizing_tree: Finalizing_tree string
| is_Committing_atomic: Committing_atomic string
| is_Materialization_sealed: Materialization_sealed string
| is_Packaging: Packaging string string string
| is_Resumable_package: Resumable_package string string
| is_Artifact_sealed: Artifact_sealed string
| Waiting_to_save string
| is_Publishing_managed: Publishing_managed string string string
| is_Handing_off: Handing_off string handoff_attempt
| is_Published: Published string owned_cleanup_state
| Download_started handoff_attempt
| is_Partial_directory: Partial_directory partial_directory_reason int int string
| is_Restart_required: Restart_required restart_required_reason string
| Discarded string
| Needs_attention needs_attention_reason string
| is_Recovery_gate: Recovery_gate recovery_gate_kind string

record receive_timing =
  rt_startedAtMilliseconds :: js_number
  rt_resultReadyAtMilliseconds :: "js_number option"

record missing_content_file =
  mf_path :: "utf16 list"
  mf_reason :: missing_content_reason

record receive_content_warning =
  cw_completedFileCount :: int
  cw_selectedFileCount :: int
  cw_missingFiles :: "missing_content_file list"

record lifecycle_state =
  ls_contentWarning :: "receive_content_warning option"
  ls_timing :: "receive_timing option"
  ls_operationId :: string
  ls_receiveIntentDigest :: string
  ls_generation :: int
  ls_payload :: lifecycle_payload

text \<open>The Unicode tables of the path policy and the reading of \<^verbatim>\<open>Date.now\<close>.\<close>

record lifecycle_env =
  le_tables :: normalization_tables
  le_mappings :: "nat \<Rightarrow> utf16 option"
  le_now :: int

definition MAXIMUM_RECOVERY_SELECTION_VALUE :: int where
  "MAXIMUM_RECOVERY_SELECTION_VALUE = 0xffffffffffffffff"
definition MAX_CONTENT_WARNING_FILES :: nat where "MAX_CONTENT_WARNING_FILES = 8"
definition MAX_FILE_COUNT :: int where "MAX_FILE_COUNT = 0xffffffffffffffff"

lemmas lifecycle_limits = MAXIMUM_RECOVERY_SELECTION_VALUE_def MAX_CONTENT_WARNING_FILES_def MAX_FILE_COUNT_def

subsection \<open>State bytes\<close>

fun receiveStateByte :: "lifecycle_payload \<Rightarrow> nat" where
  "receiveStateByte Intent_frozen = 1"
| "receiveStateByte (Preparing _) = 2"
| "receiveStateByte (Receiving _) = 3"
| "receiveStateByte (Resumable_receive _) = 4"
| "receiveStateByte (Finalizing_tree _) = 5"
| "receiveStateByte (Committing_atomic _) = 6"
| "receiveStateByte (Materialization_sealed _) = 7"
| "receiveStateByte (Packaging _ _ _) = 8"
| "receiveStateByte (Resumable_package _ _) = 9"
| "receiveStateByte (Artifact_sealed _) = 10"
| "receiveStateByte (Waiting_to_save _) = 11"
| "receiveStateByte (Publishing_managed _ _ _) = 12"
| "receiveStateByte (Handing_off _ _) = 13"
| "receiveStateByte (Published _ _) = 14"
| "receiveStateByte (Download_started _) = 15"
| "receiveStateByte (Partial_directory _ _ _ _) = 16"
| "receiveStateByte (Restart_required _ _) = 17"
| "receiveStateByte (Discarded _) = 18"
| "receiveStateByte (Needs_attention _ _) = 20"
| "receiveStateByte (Recovery_gate Authorization_required _) = 21"
| "receiveStateByte (Recovery_gate Target_verification_required _) = 22"
| "receiveStateByte (Recovery_gate Destination_space_required _) = 23"
| "receiveStateByte (Source_invalidated _) = 24"
| "receiveStateByte (Resumable_start _) = 25"

definition isReceiveStateByte :: "nat \<Rightarrow> bool" where
  "isReceiveStateByte v \<longleftrightarrow> v \<in> set [1, 2, 3, 4, 5, 6, 7, 8, 9, 10, 11, 12, 13, 14, 15, 16, 17, 18, 20, 21, 22, 23, 24, 25]"

fun isTerminalLifecycleState :: "lifecycle_payload \<Rightarrow> bool" where
  "isTerminalLifecycleState (Published _ _) = True"
| "isTerminalLifecycleState (Partial_directory _ _ _ _) = True"
| "isTerminalLifecycleState (Restart_required _ _) = True"
| "isTerminalLifecycleState (Source_invalidated _) = True"
| "isTerminalLifecycleState (Discarded _) = True"
| "isTerminalLifecycleState (Needs_attention _ _) = True"
| "isTerminalLifecycleState _ = False"

subsection \<open>Timing\<close>

fun validMilliseconds :: "js_number \<Rightarrow> bool" where
  "validMilliseconds (Integral i) = (is_safe_integer (Integral i) \<and> i \<ge> 0)"
| "validMilliseconds Nonintegral = False"

fun js_less :: "js_number \<Rightarrow> js_number \<Rightarrow> bool" where
  "js_less (Integral i) (Integral j) = (i < j)"
| "js_less _ _ = False"

fun js_max :: "js_number \<Rightarrow> js_number \<Rightarrow> js_number" where
  "js_max (Integral i) (Integral j) = Integral (max i j)"
| "js_max _ _ = Nonintegral"

definition snapshotReceiveTiming :: "receive_timing option \<Rightarrow> receive_timing option" where
  "snapshotReceiveTiming input =
     (case input of
        None \<Rightarrow> None
      | Some timing \<Rightarrow>
          if \<not> validMilliseconds (rt_startedAtMilliseconds timing) then None
          else if (case rt_resultReadyAtMilliseconds timing of
                     None \<Rightarrow> False
                   | Some r \<Rightarrow> \<not> validMilliseconds r \<or> js_less r (rt_startedAtMilliseconds timing)) then None
          else Some timing)"

fun resultIsReady :: "lifecycle_payload \<Rightarrow> bool" where
  "resultIsReady (Artifact_sealed _) = True"
| "resultIsReady (Waiting_to_save _) = True"
| "resultIsReady (Published _ _) = True"
| "resultIsReady (Download_started _) = True"
| "resultIsReady (Partial_directory _ _ _ _) = True"
| "resultIsReady _ = False"

definition advanceReceiveTiming ::
  "receive_timing option \<Rightarrow> lifecycle_payload \<Rightarrow> int \<Rightarrow> receive_timing option" where
  "advanceReceiveTiming timing payload now =
     (case timing of
        None \<Rightarrow> snapshotReceiveTiming None
      | Some t \<Rightarrow>
          if rt_resultReadyAtMilliseconds t \<noteq> None \<or> \<not> resultIsReady payload then snapshotReceiveTiming (Some t)
          else snapshotReceiveTiming (Some (t\<lparr>rt_resultReadyAtMilliseconds :=
            Some (js_max (rt_startedAtMilliseconds t) (Integral now))\<rparr>)))"

definition receiveElapsedMilliseconds :: "receive_timing option \<Rightarrow> int option" where
  "receiveElapsedMilliseconds input =
     (case snapshotReceiveTiming input of
        None \<Rightarrow> None
      | Some t \<Rightarrow>
          (case rt_resultReadyAtMilliseconds t of
             None \<Rightarrow> None
           | Some r \<Rightarrow> Some (js_int r - js_int (rt_startedAtMilliseconds t))))"

subsection \<open>Content warnings\<close>

definition validCount :: "int \<Rightarrow> bool" where
  "validCount v \<longleftrightarrow> v \<ge> 0 \<and> v \<le> MAX_FILE_COUNT"

fun snapshot_missing ::
  "lifecycle_env \<Rightarrow> missing_content_file list \<Rightarrow> type_error + missing_content_file list" where
  "snapshot_missing env [] = Inr []"
| "snapshot_missing env (file # files) =
     bindE (snapshotCatalogPath (le_tables env) (le_mappings env) (mf_path file)) (\<lambda>path.
     bindE (snapshot_missing env files) (\<lambda>rest. Inr (file\<lparr>mf_path := path\<rparr> # rest)))"

definition snapshotReceiveContentWarning ::
  "lifecycle_env \<Rightarrow> receive_content_warning \<Rightarrow> type_error + receive_content_warning" where
  "snapshotReceiveContentWarning env v =
     (if \<not> validCount (cw_completedFileCount v) \<or> \<not> validCount (cw_selectedFileCount v) \<or>
         cw_completedFileCount v \<ge> cw_selectedFileCount v \<or>
         length (cw_missingFiles v) > MAX_CONTENT_WARNING_FILES \<or>
         int (length (cw_missingFiles v)) > cw_selectedFileCount v - cw_completedFileCount v then Inl TypeError
      else bindE (snapshot_missing env (cw_missingFiles v)) (\<lambda>files. Inr (v\<lparr>cw_missingFiles := files\<rparr>)))"

definition receiveContentWarningFields ::
  "lifecycle_env \<Rightarrow> receive_content_warning option \<Rightarrow> type_error + receive_content_warning option" where
  "receiveContentWarningFields env v =
     (case v of None \<Rightarrow> Inr None | Some w \<Rightarrow> bindE (snapshotReceiveContentWarning env w) (\<lambda>w. Inr (Some w)))"

subsection \<open>The next state\<close>

definition snapshotRecoverySelectionFacts ::
  "recovery_selection_facts \<Rightarrow> int \<Rightarrow> int \<Rightarrow> type_error + recovery_selection_facts" where
  "snapshotRecoverySelectionFacts input completedFileCount completedBytes =
     (if sf_discoveredFileCount input < 0 \<or> sf_discoveredFileCount input > MAXIMUM_RECOVERY_SELECTION_VALUE \<or>
         sf_discoveredBytes input < 0 \<or> sf_discoveredBytes input > MAXIMUM_RECOVERY_SELECTION_VALUE then Inl TypeError
      else if completedFileCount < 0 \<or> completedBytes < 0 \<or>
              completedFileCount > sf_discoveredFileCount input \<or> completedBytes > sf_discoveredBytes input \<or>
              (completedFileCount = 0 \<and> completedBytes \<noteq> 0) \<or>
              (sf_discoveredFileCount input = 0 \<and> sf_discoveredBytes input \<noteq> 0) then Inl TypeError
      else Inr input)"

definition snapshotRetainedFileSetProgress :: "file_set \<Rightarrow> type_error + file_set" where
  "snapshotRetainedFileSetProgress input =
     bindE (snapshotRecoverySelectionFacts (fs_selectionFacts input) (fs_completedFileCount input)
       (fs_completedBytes input)) (\<lambda>facts.
     if fs_retainedBytes input < fs_completedBytes input \<or> fs_retainedBytes input > sf_discoveredBytes facts \<or>
        (fs_completedFileCount input = sf_discoveredFileCount facts \<and> fs_retainedBytes input \<noteq> fs_completedBytes input)
     then Inl TypeError
     else Inr (input\<lparr>fs_selectionFacts := facts\<rparr>))"

definition initialReceiveLifecycleState ::
  "js_number option \<Rightarrow> string \<Rightarrow> string \<Rightarrow> type_error + lifecycle_state" where
  "initialReceiveLifecycleState startedAt operationId receiveIntentDigest =
     bindE (snapshotIdentity operationId 16) (\<lambda>oid.
     bindE (snapshotIdentity receiveIntentDigest 32) (\<lambda>digest.
     Inr \<lparr>ls_contentWarning = None,
       ls_timing = (case startedAt of None \<Rightarrow> None
         | Some s \<Rightarrow> snapshotReceiveTiming (Some \<lparr>rt_startedAtMilliseconds = s, rt_resultReadyAtMilliseconds = None\<rparr>)),
       ls_operationId = oid, ls_receiveIntentDigest = digest, ls_generation = 1, ls_payload = Intent_frozen\<rparr>))"

definition durable_payload :: "lifecycle_payload \<Rightarrow> type_error + lifecycle_payload" where
  "durable_payload payload =
     (case payload of
        Resumable_receive (File_set f) \<Rightarrow>
          bindE (snapshotRetainedFileSetProgress f) (\<lambda>f. Inr (Resumable_receive (File_set f)))
      | _ \<Rightarrow> Inr payload)"

text \<open>
  \<open>warning\<close> is the \<^verbatim>\<open>contentWarning\<close> property of the payload: absent, \<^verbatim>\<open>null\<close> or a warning.
\<close>

definition nextReceiveLifecycleState ::
  "lifecycle_env \<Rightarrow> lifecycle_state \<Rightarrow> lifecycle_payload \<Rightarrow> receive_content_warning option option \<Rightarrow>
   type_error + lifecycle_state" where
  "nextReceiveLifecycleState env current payload warning =
     (if ls_generation current \<ge> 0xffffffffffffffff then Inl TypeError
      else bindE (durable_payload payload) (\<lambda>durable.
      bindE (receiveContentWarningFields env (case warning of None \<Rightarrow> ls_contentWarning current | Some w \<Rightarrow> w)) (\<lambda>cw.
      Inr \<lparr>ls_contentWarning = cw, ls_timing = advanceReceiveTiming (ls_timing current) payload (le_now env),
        ls_operationId = ls_operationId current, ls_receiveIntentDigest = ls_receiveIntentDigest current,
        ls_generation = ls_generation current + 1, ls_payload = durable\<rparr>)))"


section \<open>Events\<close>

datatype tree_outcome = Tree_published | Tree_resumable file_set bool | Tree_partial_directory | Tree_discarded

datatype handoff_kind = Workspace_handoff | Portable_handoff_attempt

datatype pause_stage = Receive_stage | Package_stage

datatype verified_pause = Receive_pause file_set | Package_pause string string

datatype lifecycle_event =
  Receive_started "string option"
| Preparation_admitted
| Preparation_rejected preparation_admission_reason string
| Pause_requested pause_stage
| Source_invalidation_verified string
| Pause_verified verified_pause
| Direct_zip_pause_verified direct_zip
| Direct_zip_recovery_gated recovery_gate_kind string
| Direct_zip_recovery_resumed
| Resume_started "string option"
| Resume_admission_failed file_set
| Receive_authority_reacquired
| Stop_requested int int string string
| Discovery_completed
| Selected_entry_failed directory_failure_reason
| Tree_finalization_completed tree_outcome string int int int int
| Materialization_failed directory_failure_reason
| Materialization_completed
| Restart_boundary_verified restart_required_reason string
| Materialization_seal_verified string
| Package_started string
| Package_retryable_failure package_failure_reason string
| Package_seal_verified string
| Wait_record_persisted
| Save_requested string
| Publication_committed string
| Publication_not_committed external_attempt_reason
| Publication_unknown_observed string
| Handoff_requested handoff_kind string
| Handoff_started
| Handoff_not_started external_attempt_reason
| Handoff_unknown string
| Discard_requested int int
| Cleanup_verified string
| Cleanup_unknown_observed string
| Ownership_unknown_observed string
| Abandoned_operation_observed

record lifecycle_message =
  lm_expectedGeneration :: int
  lm_leaseId :: string
  lm_event :: lifecycle_event

record reducer_context =
  rc_planKind :: plan_kind
  rc_preparationRequired :: bool
  rc_activeLeaseId :: string

datatype lifecycle_reduction = Applied lifecycle_state | Stale lifecycle_state

section \<open>Transitions\<close>

fun active_lease :: "lifecycle_payload \<Rightarrow> string option" where
  "active_lease (Receiving l) = Some l"
| "active_lease (Finalizing_tree l) = Some l"
| "active_lease (Committing_atomic l) = Some l"
| "active_lease (Packaging l _ _) = Some l"
| "active_lease (Publishing_managed l _ _) = Some l"
| "active_lease (Handing_off l _) = Some l"
| "active_lease _ = None"

definition activeLeaseMismatch :: "lifecycle_state \<Rightarrow> string \<Rightarrow> bool" where
  "activeLeaseMismatch state leaseId =
     (case active_lease (ls_payload state) of None \<Rightarrow> False | Some l \<Rightarrow> l \<noteq> leaseId)"

abbreviation next_state :: "lifecycle_env \<Rightarrow> lifecycle_state \<Rightarrow> lifecycle_payload \<Rightarrow> type_error + lifecycle_state" where
  "next_state env state payload \<equiv> nextReceiveLifecycleState env state payload None"

definition needsAttention ::
  "lifecycle_env \<Rightarrow> lifecycle_state \<Rightarrow> needs_attention_reason \<Rightarrow> string \<Rightarrow> type_error + lifecycle_state" where
  "needsAttention env state reason digest = next_state env state (Needs_attention reason digest)"

text \<open>\<^verbatim>\<open>requireState\<close> and \<^verbatim>\<open>requireWorkspaceState\<close> for a kind given by its test.\<close>

definition requireState :: "lifecycle_state \<Rightarrow> (lifecycle_payload \<Rightarrow> bool) \<Rightarrow> type_error + unit" where
  "requireState state kind = (if \<not> kind (ls_payload state) then Inl TypeError else Inr ())"

definition requireWorkspaceState ::
  "lifecycle_state \<Rightarrow> plan_kind \<Rightarrow> (lifecycle_payload \<Rightarrow> bool) \<Rightarrow> type_error + unit" where
  "requireWorkspaceState state plan kind =
     (if plan \<noteq> Workspace_then_publish then Inl TypeError else requireState state kind)"

definition pauseDirectZip ::
  "lifecycle_env \<Rightarrow> lifecycle_state \<Rightarrow> direct_zip \<Rightarrow> reducer_context \<Rightarrow> type_error + lifecycle_state" where
  "pauseDirectZip env state checkpoint ctxt =
     bindE (requireState state is_Receiving) (\<lambda>_.
     if rc_planKind ctxt \<noteq> Direct_resumable_zip then Inl TypeError
     else next_state env state (Resumable_receive (Direct_zip checkpoint)))"

definition requireDirectZipRecoveryState :: "lifecycle_state \<Rightarrow> plan_kind \<Rightarrow> type_error + unit" where
  "requireDirectZipRecoveryState state plan =
     (if plan \<noteq> Direct_resumable_zip \<or>
         \<not> (is_Receiving (ls_payload state) \<or> is_Resumable_receive (ls_payload state) \<or> is_Recovery_gate (ls_payload state))
      then Inl TypeError
      else case ls_payload state of
        Resumable_receive p \<Rightarrow> (case p of Direct_zip _ \<Rightarrow> Inr () | _ \<Rightarrow> Inl TypeError)
      | _ \<Rightarrow> Inr ())"

definition gateDirectZipRecovery ::
  "lifecycle_env \<Rightarrow> lifecycle_state \<Rightarrow> recovery_gate_kind \<Rightarrow> string \<Rightarrow> reducer_context \<Rightarrow> type_error + lifecycle_state" where
  "gateDirectZipRecovery env state gate digest ctxt =
     bindE (requireDirectZipRecoveryState state (rc_planKind ctxt)) (\<lambda>_.
     next_state env state (Recovery_gate gate digest))"

definition resumeDirectZipRecovery ::
  "lifecycle_env \<Rightarrow> lifecycle_state \<Rightarrow> reducer_context \<Rightarrow> type_error + lifecycle_state" where
  "resumeDirectZipRecovery env state ctxt =
     (if rc_planKind ctxt \<noteq> Direct_resumable_zip \<or> \<not> is_Recovery_gate (ls_payload state) then Inl TypeError
      else next_state env state (Receiving (rc_activeLeaseId ctxt)))"

definition reacquireReceiveAuthority ::
  "lifecycle_env \<Rightarrow> lifecycle_state \<Rightarrow> reducer_context \<Rightarrow> type_error + lifecycle_state" where
  "reacquireReceiveAuthority env state ctxt =
     bindE (requireState state is_Receiving) (\<lambda>_.
     if rc_planKind ctxt \<noteq> Direct_tree \<and> rc_planKind ctxt \<noteq> Workspace_then_publish then Inl TypeError
     else next_state env state (Receiving (rc_activeLeaseId ctxt)))"

definition startReceive ::
  "lifecycle_env \<Rightarrow> lifecycle_state \<Rightarrow> string option \<Rightarrow> reducer_context \<Rightarrow> type_error + lifecycle_state" where
  "startReceive env state preparation ctxt =
     bindE (requireState state is_Intent_frozen) (\<lambda>_.
     if (rc_planKind ctxt = Direct_tree \<or> rc_planKind ctxt = Direct_atomic) \<and> rc_preparationRequired ctxt
     then Inl TypeError
     else if rc_planKind ctxt = Portable_handoff \<and> \<not> rc_preparationRequired ctxt then Inl TypeError
     else if rc_preparationRequired ctxt then
       (case preparation of None \<Rightarrow> Inl TypeError | Some p \<Rightarrow> next_state env state (Preparing p))
     else if preparation \<noteq> None then Inl TypeError
     else next_state env state (Receiving (rc_activeLeaseId ctxt)))"

definition admitPreparation ::
  "lifecycle_env \<Rightarrow> lifecycle_state \<Rightarrow> reducer_context \<Rightarrow> type_error + lifecycle_state" where
  "admitPreparation env state ctxt =
     bindE (requireState state is_Preparing) (\<lambda>_.
     if \<not> rc_preparationRequired ctxt \<or>
        (rc_planKind ctxt \<noteq> Workspace_then_publish \<and> rc_planKind ctxt \<noteq> Portable_handoff) then Inl TypeError
     else next_state env state (Receiving (rc_activeLeaseId ctxt)))"

definition rejectPreparation :: "lifecycle_env \<Rightarrow> lifecycle_state \<Rightarrow> string \<Rightarrow> type_error + lifecycle_state" where
  "rejectPreparation env state receipt =
     bindE (requireState state is_Preparing) (\<lambda>_. next_state env state (Discarded receipt))"

definition pauseVerified ::
  "lifecycle_env \<Rightarrow> lifecycle_state \<Rightarrow> verified_pause \<Rightarrow> reducer_context \<Rightarrow> type_error + lifecycle_state" where
  "pauseVerified env state pause ctxt =
     (case pause of
        Receive_pause files \<Rightarrow>
          bindE (requireState state is_Receiving) (\<lambda>_.
          if rc_planKind ctxt \<noteq> Direct_tree \<and> rc_planKind ctxt \<noteq> Workspace_then_publish then Inl TypeError
          else next_state env state (Resumable_receive (File_set files)))
      | Package_pause sealed cleanupProof \<Rightarrow>
          bindE (requireWorkspaceState state (rc_planKind ctxt) is_Packaging) (\<lambda>_.
          next_state env state (Resumable_package sealed cleanupProof)))"

definition resumeStable ::
  "lifecycle_env \<Rightarrow> lifecycle_state \<Rightarrow> string option \<Rightarrow> reducer_context \<Rightarrow> type_error + lifecycle_state" where
  "resumeStable env state packageTempObjectId ctxt =
     (case ls_payload state of
        Resumable_receive p \<Rightarrow>
          let plan = rc_planKind ctxt;
              directZipResume = (plan = Direct_resumable_zip \<and> (case p of Direct_zip _ \<Rightarrow> True | _ \<Rightarrow> False));
              fileSetResume = ((plan = Direct_tree \<or> plan = Workspace_then_publish) \<and>
                (case p of File_set _ \<Rightarrow> True | _ \<Rightarrow> False));
              nativeZipResume = (plan = Workspace_then_publish \<and> (case p of Workspace_archive _ \<Rightarrow> True | _ \<Rightarrow> False)) in
          if \<not> directZipResume \<and> \<not> fileSetResume \<and> \<not> nativeZipResume then Inl TypeError
          else if packageTempObjectId \<noteq> None then Inl TypeError
          else next_state env state (Receiving (rc_activeLeaseId ctxt))
      | Resumable_package sealed _ \<Rightarrow>
          if rc_planKind ctxt \<noteq> Workspace_then_publish then Inl TypeError
          else (case packageTempObjectId of
                  None \<Rightarrow> Inl TypeError
                | Some temp \<Rightarrow> next_state env state (Packaging (rc_activeLeaseId ctxt) sealed temp))
      | _ \<Rightarrow> Inl TypeError)"

definition restoreReceiveContinuation ::
  "lifecycle_env \<Rightarrow> lifecycle_state \<Rightarrow> file_set \<Rightarrow> reducer_context \<Rightarrow> type_error + lifecycle_state" where
  "restoreReceiveContinuation env state files ctxt =
     bindE (requireState state is_Receiving) (\<lambda>_.
     if rc_planKind ctxt \<noteq> Direct_tree \<and> rc_planKind ctxt \<noteq> Workspace_then_publish then Inl TypeError
     else next_state env state (Resumable_receive (File_set files)))"

definition stopReceive ::
  "lifecycle_env \<Rightarrow> lifecycle_state \<Rightarrow> int \<Rightarrow> int \<Rightarrow> string \<Rightarrow> string \<Rightarrow> plan_kind \<Rightarrow> type_error + lifecycle_state" where
  "stopReceive env state successCount failureCount receipt cleanupReceipt plan =
     (if \<not> is_Receiving (ls_payload state) \<and> \<not> is_Resumable_receive (ls_payload state) then Inl TypeError
      else if plan \<noteq> Direct_tree then Inl TypeError
      else if successCount = 0 then next_state env state (Discarded cleanupReceipt)
      else next_state env state (Partial_directory Stopped successCount failureCount receipt))"

definition discoveryCompleted ::
  "lifecycle_env \<Rightarrow> lifecycle_state \<Rightarrow> reducer_context \<Rightarrow> type_error + lifecycle_state" where
  "discoveryCompleted env state ctxt =
     bindE (requireState state is_Receiving) (\<lambda>_.
     if rc_planKind ctxt = Direct_tree then next_state env state (Finalizing_tree (rc_activeLeaseId ctxt))
     else if rc_planKind ctxt = Direct_atomic then next_state env state (Committing_atomic (rc_activeLeaseId ctxt))
     else Inl TypeError)"

definition finalizeTree ::
  "lifecycle_env \<Rightarrow> lifecycle_state \<Rightarrow> tree_outcome \<Rightarrow> string \<Rightarrow> int \<Rightarrow> int \<Rightarrow> reducer_context \<Rightarrow> type_error + lifecycle_state" where
  "finalizeTree env state outcome receipt successCount failureCount ctxt =
     bindE (requireState state is_Finalizing_tree) (\<lambda>_.
     if rc_planKind ctxt \<noteq> Direct_tree then Inl TypeError
     else case outcome of
       Tree_published \<Rightarrow>
         if failureCount \<noteq> 0 then Inl TypeError else next_state env state (Published receipt Cleanup_pending)
     | Tree_resumable files retryable \<Rightarrow>
         if \<not> retryable then Inl TypeError
         else next_state env state (Resumable_receive (File_set (files\<lparr>fs_partialReceiptDigest := Some receipt\<rparr>)))
     | Tree_partial_directory \<Rightarrow>
         next_state env state (Partial_directory Failures successCount failureCount receipt)
     | Tree_discarded \<Rightarrow>
         if successCount \<noteq> 0 then Inl TypeError else next_state env state (Discarded receipt))"

definition materializationCompleted ::
  "lifecycle_env \<Rightarrow> lifecycle_state \<Rightarrow> reducer_context \<Rightarrow> type_error + lifecycle_state" where
  "materializationCompleted env state ctxt =
     bindE (requireState state is_Receiving) (\<lambda>_.
     if rc_planKind ctxt = Direct_tree \<or> rc_planKind ctxt = Direct_atomic then discoveryCompleted env state ctxt
     else Inr state)"

definition restartRequired ::
  "lifecycle_env \<Rightarrow> lifecycle_state \<Rightarrow> restart_required_reason \<Rightarrow> string \<Rightarrow> plan_kind \<Rightarrow> type_error + lifecycle_state" where
  "restartRequired env state reason receipt plan =
     (let p = ls_payload state;
          directAtomicState = (plan = Direct_atomic \<and> (is_Receiving p \<or> is_Committing_atomic p));
          portableState = (plan = Portable_handoff \<and>
            (is_Receiving p \<or> (case p of Handing_off _ (Portable_attempt _) \<Rightarrow> True | _ \<Rightarrow> False)));
          directZipDeleted = (plan = Direct_resumable_zip \<and> reason = Target_deleted \<and>
            (is_Receiving p \<or> is_Resumable_receive p \<or> is_Recovery_gate p)) in
      if \<not> directAtomicState \<and> \<not> portableState \<and> \<not> directZipDeleted then Inl TypeError
      else if reason = Direct_atomic_rolled_back \<and> \<not> directAtomicState then Inl TypeError
      else if reason = Portable_aborted \<and> \<not> portableState then Inl TypeError
      else if reason = Target_deleted \<and> \<not> directZipDeleted then Inl TypeError
      else next_state env state (Restart_required reason receipt))"

definition sealMaterialization ::
  "lifecycle_env \<Rightarrow> lifecycle_state \<Rightarrow> string \<Rightarrow> reducer_context \<Rightarrow> type_error + lifecycle_state" where
  "sealMaterialization env state digest ctxt =
     bindE (requireState state is_Receiving) (\<lambda>_.
     if rc_planKind ctxt \<noteq> Workspace_then_publish then Inl TypeError
     else next_state env state (Materialization_sealed digest))"

definition startPackage ::
  "lifecycle_env \<Rightarrow> lifecycle_state \<Rightarrow> string \<Rightarrow> reducer_context \<Rightarrow> type_error + lifecycle_state" where
  "startPackage env state temp ctxt =
     bindE (requireWorkspaceState state (rc_planKind ctxt) is_Materialization_sealed) (\<lambda>_.
     case ls_payload state of
       Materialization_sealed sealed \<Rightarrow> next_state env state (Packaging (rc_activeLeaseId ctxt) sealed temp)
     | _ \<Rightarrow> Inl TypeError)"

definition pausePackage :: "lifecycle_env \<Rightarrow> lifecycle_state \<Rightarrow> string \<Rightarrow> type_error + lifecycle_state" where
  "pausePackage env state cleanupProof =
     (case ls_payload state of
        Packaging _ sealed _ \<Rightarrow> next_state env state (Resumable_package sealed cleanupProof)
      | _ \<Rightarrow> Inl TypeError)"

definition sealPackage :: "lifecycle_env \<Rightarrow> lifecycle_state \<Rightarrow> string \<Rightarrow> type_error + lifecycle_state" where
  "sealPackage env state digest =
     (if \<not> is_Packaging (ls_payload state) \<and> \<not> is_Materialization_sealed (ls_payload state) \<and>
         \<not> is_Resumable_package (ls_payload state) then Inl TypeError
      else next_state env state (Artifact_sealed digest))"

definition waitToSave :: "lifecycle_env \<Rightarrow> lifecycle_state \<Rightarrow> type_error + lifecycle_state" where
  "waitToSave env state =
     (case ls_payload state of
        Artifact_sealed digest \<Rightarrow> next_state env state (Waiting_to_save digest)
      | _ \<Rightarrow> Inl TypeError)"

text \<open>The package a workspace operation retains: the guard that the managed publication and the
  workspace handoff share.\<close>

definition retained_package :: "lifecycle_payload \<Rightarrow> string option" where
  "retained_package p =
     (case p of
        Waiting_to_save digest \<Rightarrow> Some digest
      | Download_started (Workspace_attempt _ digest) \<Rightarrow> Some digest
      | _ \<Rightarrow> None)"

definition startManagedPublication ::
  "lifecycle_env \<Rightarrow> lifecycle_state \<Rightarrow> string \<Rightarrow> reducer_context \<Rightarrow> type_error + lifecycle_state" where
  "startManagedPublication env state attempt ctxt =
     (if rc_planKind ctxt \<noteq> Workspace_then_publish then Inl TypeError
      else case retained_package (ls_payload state) of
        None \<Rightarrow> Inl TypeError
      | Some digest \<Rightarrow> next_state env state (Publishing_managed (rc_activeLeaseId ctxt) digest attempt))"

definition commitPublication :: "lifecycle_env \<Rightarrow> lifecycle_state \<Rightarrow> string \<Rightarrow> type_error + lifecycle_state" where
  "commitPublication env state receipt =
     bindE (requireState state is_Publishing_managed) (\<lambda>_.
     next_state env state (Published receipt Cleanup_pending))"

definition publicationNotCommitted :: "lifecycle_env \<Rightarrow> lifecycle_state \<Rightarrow> type_error + lifecycle_state" where
  "publicationNotCommitted env state =
     (case ls_payload state of
        Publishing_managed _ digest _ \<Rightarrow> next_state env state (Waiting_to_save digest)
      | _ \<Rightarrow> Inl TypeError)"

definition startHandoff ::
  "lifecycle_env \<Rightarrow> lifecycle_state \<Rightarrow> handoff_kind \<Rightarrow> string \<Rightarrow> reducer_context \<Rightarrow> type_error + lifecycle_state" where
  "startHandoff env state kind attempt ctxt =
     (if kind = Workspace_handoff then
        if rc_planKind ctxt \<noteq> Workspace_then_publish then Inl TypeError
        else (case retained_package (ls_payload state) of
                None \<Rightarrow> Inl TypeError
              | Some digest \<Rightarrow>
                  next_state env state (Handing_off (rc_activeLeaseId ctxt) (Workspace_attempt attempt digest)))
      else if rc_planKind ctxt \<noteq> Portable_handoff \<or> \<not> is_Receiving (ls_payload state) then Inl TypeError
      else next_state env state (Handing_off (rc_activeLeaseId ctxt) (Portable_attempt attempt)))"

definition handoffStarted :: "lifecycle_env \<Rightarrow> lifecycle_state \<Rightarrow> type_error + lifecycle_state" where
  "handoffStarted env state =
     (case ls_payload state of
        Handing_off _ attempt \<Rightarrow> next_state env state (Download_started attempt)
      | _ \<Rightarrow> Inl TypeError)"

definition handoffNotStarted :: "lifecycle_env \<Rightarrow> lifecycle_state \<Rightarrow> type_error + lifecycle_state" where
  "handoffNotStarted env state =
     (case ls_payload state of
        Handing_off _ (Portable_attempt attempt) \<Rightarrow> next_state env state (Restart_required Portable_aborted attempt)
      | Handing_off _ (Workspace_attempt _ digest) \<Rightarrow> next_state env state (Waiting_to_save digest)
      | _ \<Rightarrow> Inl TypeError)"

definition handoffUnknown :: "lifecycle_env \<Rightarrow> lifecycle_state \<Rightarrow> plan_kind \<Rightarrow> type_error + lifecycle_state" where
  "handoffUnknown env state plan =
     bindE (requireWorkspaceState state plan is_Handing_off) (\<lambda>_.
     case ls_payload state of
       Handing_off _ (Workspace_attempt _ digest) \<Rightarrow> next_state env state (Waiting_to_save digest)
     | _ \<Rightarrow> Inl TypeError)"

definition cleanupVerified :: "lifecycle_env \<Rightarrow> lifecycle_state \<Rightarrow> string \<Rightarrow> type_error + lifecycle_state" where
  "cleanupVerified env state receipt =
     (case ls_payload state of
        Published digest _ \<Rightarrow> next_state env state (Published digest Clean)
      | Partial_directory _ _ _ _ \<Rightarrow> Inl TypeError
      | Restart_required _ _ \<Rightarrow> Inl TypeError
      | _ \<Rightarrow> next_state env state (Discarded receipt))"

section \<open>The reducer\<close>

fun reduce_event ::
  "lifecycle_env \<Rightarrow> lifecycle_state \<Rightarrow> reducer_context \<Rightarrow> lifecycle_event \<Rightarrow> type_error + lifecycle_state" where
  "reduce_event env state ctxt (Direct_zip_pause_verified checkpoint) = pauseDirectZip env state checkpoint ctxt"
| "reduce_event env state ctxt (Direct_zip_recovery_gated gate digest) =
     gateDirectZipRecovery env state gate digest ctxt"
| "reduce_event env state ctxt Direct_zip_recovery_resumed = resumeDirectZipRecovery env state ctxt"
| "reduce_event env state ctxt (Receive_started preparation) = startReceive env state preparation ctxt"
| "reduce_event env state ctxt Preparation_admitted = admitPreparation env state ctxt"
| "reduce_event env state ctxt (Preparation_rejected _ receipt) = rejectPreparation env state receipt"
| "reduce_event env state ctxt (Pause_verified pause) = pauseVerified env state pause ctxt"
| "reduce_event env state ctxt (Source_invalidation_verified digest) =
     bindE (requireWorkspaceState state (rc_planKind ctxt) is_Receiving) (\<lambda>_.
     next_state env state (Source_invalidated digest))"
| "reduce_event env state ctxt (Resume_started temp) = resumeStable env state temp ctxt"
| "reduce_event env state ctxt (Resume_admission_failed files) = restoreReceiveContinuation env state files ctxt"
| "reduce_event env state ctxt Receive_authority_reacquired = reacquireReceiveAuthority env state ctxt"
| "reduce_event env state ctxt (Stop_requested successes failures receipt cleanup) =
     stopReceive env state successes failures receipt cleanup (rc_planKind ctxt)"
| "reduce_event env state ctxt Discovery_completed = discoveryCompleted env state ctxt"
| "reduce_event env state ctxt (Tree_finalization_completed outcome receipt _ _ successes failures) =
     finalizeTree env state outcome receipt successes failures ctxt"
| "reduce_event env state ctxt Materialization_completed = materializationCompleted env state ctxt"
| "reduce_event env state ctxt (Restart_boundary_verified reason receipt) =
     restartRequired env state reason receipt (rc_planKind ctxt)"
| "reduce_event env state ctxt (Materialization_seal_verified digest) = sealMaterialization env state digest ctxt"
| "reduce_event env state ctxt (Package_started temp) = startPackage env state temp ctxt"
| "reduce_event env state ctxt (Package_retryable_failure _ cleanupProof) = pausePackage env state cleanupProof"
| "reduce_event env state ctxt (Package_seal_verified digest) = sealPackage env state digest"
| "reduce_event env state ctxt Wait_record_persisted = waitToSave env state"
| "reduce_event env state ctxt (Save_requested attempt) = startManagedPublication env state attempt ctxt"
| "reduce_event env state ctxt (Publication_committed receipt) = commitPublication env state receipt"
| "reduce_event env state ctxt (Publication_not_committed _) = publicationNotCommitted env state"
| "reduce_event env state ctxt (Publication_unknown_observed digest) =
     bindE (requireWorkspaceState state (rc_planKind ctxt) is_Publishing_managed) (\<lambda>_.
     needsAttention env state Publication_unknown digest)"
| "reduce_event env state ctxt (Handoff_unknown _) = handoffUnknown env state (rc_planKind ctxt)"
| "reduce_event env state ctxt (Handoff_requested kind attempt) = startHandoff env state kind attempt ctxt"
| "reduce_event env state ctxt Handoff_started = handoffStarted env state"
| "reduce_event env state ctxt (Handoff_not_started _) = handoffNotStarted env state"
| "reduce_event env state ctxt (Cleanup_verified receipt) = cleanupVerified env state receipt"
| "reduce_event env state ctxt (Cleanup_unknown_observed digest) = needsAttention env state Cleanup_unknown digest"
| "reduce_event env state ctxt (Ownership_unknown_observed digest) =
     needsAttention env state Target_ownership_unknown digest"
| "reduce_event env state ctxt (Pause_requested _) = Inr state"
| "reduce_event env state ctxt (Selected_entry_failed _) = Inr state"
| "reduce_event env state ctxt (Materialization_failed _) = Inr state"
| "reduce_event env state ctxt (Discard_requested _ _) = Inr state"
| "reduce_event env state ctxt Abandoned_operation_observed = Inr state"

definition reduceReceiveLifecycle ::
  "lifecycle_env \<Rightarrow> lifecycle_state \<Rightarrow> lifecycle_message \<Rightarrow> reducer_context \<Rightarrow> type_error + lifecycle_reduction" where
  "reduceReceiveLifecycle env state message ctxt =
     (if lm_expectedGeneration message \<noteq> ls_generation state \<or> lm_leaseId message \<noteq> rc_activeLeaseId ctxt \<or>
         (lm_event message \<noteq> Receive_authority_reacquired \<and> activeLeaseMismatch state (rc_activeLeaseId ctxt))
      then Inr (Stale state)
      else bindE (reduce_event env state ctxt (lm_event message)) (\<lambda>s. Inr (Applied s)))"


section \<open>Interruption and storage settlement\<close>

datatype interruption = Pause | Stop

datatype interruption_error = TransferPauseRequestedError | TransferStopRequestedError

fun receiveInterruptionControls :: "plan_kind \<Rightarrow> interruption list" where
  "receiveInterruptionControls Direct_tree = [Pause, Stop]"
| "receiveInterruptionControls Direct_resumable_zip = [Pause]"
| "receiveInterruptionControls Workspace_then_publish = [Pause]"
| "receiveInterruptionControls Portable_handoff = [Stop]"
| "receiveInterruptionControls Direct_atomic = []"

definition receiveInterruptionReason :: "interruption \<Rightarrow> interruption_error" where
  "receiveInterruptionReason control =
     (if control = Pause then TransferPauseRequestedError else TransferStopRequestedError)"

datatype settlement_task = Continuable | Ended | Unsettled
datatype retention =
  Continuation | Complete_results | Delivered_results | Browser_handoff | No_retention | Reconcile
datatype settlement_cleanup = Settled | Retryable

record storage_settlement =
  st_task :: settlement_task
  st_retention :: retention
  st_cleanup :: settlement_cleanup

fun settlement_of :: "lifecycle_payload \<Rightarrow> storage_settlement" where
  "settlement_of (Resumable_start _) = \<lparr>st_task = Continuable, st_retention = Continuation, st_cleanup = Settled\<rparr>"
| "settlement_of (Resumable_receive _) = \<lparr>st_task = Continuable, st_retention = Continuation, st_cleanup = Settled\<rparr>"
| "settlement_of (Resumable_package _ _) = \<lparr>st_task = Continuable, st_retention = Continuation, st_cleanup = Settled\<rparr>"
| "settlement_of (Recovery_gate _ _) = \<lparr>st_task = Continuable, st_retention = Continuation, st_cleanup = Settled\<rparr>"
| "settlement_of (Materialization_sealed _) =
     \<lparr>st_task = Ended, st_retention = Complete_results, st_cleanup = Settled\<rparr>"
| "settlement_of (Artifact_sealed _) = \<lparr>st_task = Ended, st_retention = Complete_results, st_cleanup = Settled\<rparr>"
| "settlement_of (Waiting_to_save _) = \<lparr>st_task = Ended, st_retention = Complete_results, st_cleanup = Settled\<rparr>"
| "settlement_of (Download_started attempt) =
     \<lparr>st_task = Ended,
      st_retention = (case attempt of Workspace_attempt _ _ \<Rightarrow> Complete_results | Portable_attempt _ \<Rightarrow> Browser_handoff),
      st_cleanup = Settled\<rparr>"
| "settlement_of (Published _ cleanup) =
     \<lparr>st_task = Ended, st_retention = Delivered_results,
      st_cleanup = (if cleanup = Clean then Settled else Retryable)\<rparr>"
| "settlement_of (Partial_directory _ _ _ _) =
     \<lparr>st_task = Ended, st_retention = Complete_results, st_cleanup = Settled\<rparr>"
| "settlement_of (Restart_required reason _) =
     (if reason = Direct_atomic_rolled_back \<or> reason = Portable_aborted \<or> reason = Target_deleted
      then \<lparr>st_task = Ended, st_retention = No_retention, st_cleanup = Settled\<rparr>
      else \<lparr>st_task = Ended, st_retention = Reconcile, st_cleanup = Retryable\<rparr>)"
| "settlement_of (Discarded _) = \<lparr>st_task = Ended, st_retention = No_retention, st_cleanup = Settled\<rparr>"
| "settlement_of (Source_invalidated _) = \<lparr>st_task = Ended, st_retention = Reconcile, st_cleanup = Retryable\<rparr>"
| "settlement_of (Needs_attention _ _) = \<lparr>st_task = Unsettled, st_retention = Reconcile, st_cleanup = Retryable\<rparr>"
| "settlement_of _ = \<lparr>st_task = Unsettled, st_retention = Reconcile, st_cleanup = Settled\<rparr>"

definition receiveStorageSettlement :: "lifecycle_state \<Rightarrow> storage_settlement" where
  "receiveStorageSettlement state = settlement_of (ls_payload state)"

record storage_evidence =
  se_operationId :: string
  se_lifecycleKind :: nat
  se_generation :: int
  se_artifactId :: "string option"
  se_checkpointId :: "string option"
  se_checkpointGeneration :: "int option"
  se_settlement :: storage_settlement

fun package_digest :: "lifecycle_payload \<Rightarrow> string option" where
  "package_digest (Artifact_sealed digest) = Some digest"
| "package_digest (Waiting_to_save digest) = Some digest"
| "package_digest (Publishing_managed _ digest _) = Some digest"
| "package_digest (Handing_off _ (Workspace_attempt _ digest)) = Some digest"
| "package_digest (Download_started (Workspace_attempt _ digest)) = Some digest"
| "package_digest _ = None"

text \<open>The kind of a state is identified by its byte.\<close>

definition receiveLifecycleStorageEvidence :: "lifecycle_state \<Rightarrow> storage_evidence" where
  "receiveLifecycleStorageEvidence state =
     (let base = \<lparr>se_operationId = ls_operationId state, se_lifecycleKind = receiveStateByte (ls_payload state),
                   se_generation = ls_generation state, se_artifactId = package_digest (ls_payload state),
                   se_checkpointId = None, se_checkpointGeneration = None,
                   se_settlement = receiveStorageSettlement state\<rparr> in
      case ls_payload state of
        Source_invalidated digest \<Rightarrow> base\<lparr>se_checkpointId := Some digest\<rparr>
      | Resumable_receive p \<Rightarrow>
          (case p of
             File_set files \<Rightarrow> base\<lparr>se_checkpointId := Some (fs_checkpointSetDigest files)\<rparr>
           | Workspace_archive a \<Rightarrow>
               base\<lparr>se_artifactId := Some (wa_objectId a), se_checkpointId := Some (wa_objectId a),
                    se_checkpointGeneration := Some (wa_checkpointGeneration a)\<rparr>
           | Direct_zip z \<Rightarrow> base\<lparr>se_checkpointId := Some (dz_checkpointDigest z)\<rparr>)
      | _ \<Rightarrow> base)"

end
