(* ===== verification/Lifecycle_Runs.thy ===== *)
theory Lifecycle_Runs
  imports Lifecycle
begin

text \<open>
What a receive operation does over its life.  \<open>lifecycle_step\<close> is the specification: the transitions a plan
  allows on the payload alone.  One lemma per handler of the reducer shows that it moves only along that
  relation (\<open>handler_moves\<close>, \<open>reduce_event_moves\<close>); the properties of runs, \<open>lifecycle_reachable\<close> and
  \<open>lifecycle_run\<close>, follow by rule induction over it.
\<close>

section \<open>The abstract transitions\<close>

text \<open>
  What the reducer promises about the payload alone, per plan: \<open>lifecycle_step plan lease p q\<close> says that an
  operation of this plan may move from \<open>p\<close> to \<open>q\<close> under an executor that holds \<open>lease\<close>.
\<close>

inductive lifecycle_step :: "plan_kind \<Rightarrow> string \<Rightarrow> lifecycle_payload \<Rightarrow> lifecycle_payload \<Rightarrow> bool"
  for plan lease where
  prepare: "plan \<in> {Workspace_then_publish, Portable_handoff, Direct_resumable_zip} \<Longrightarrow>
     lifecycle_step plan lease Intent_frozen (Preparing i)"
| start: "plan \<noteq> Portable_handoff \<Longrightarrow> lifecycle_step plan lease Intent_frozen (Receiving lease)"
| admit: "plan \<in> {Workspace_then_publish, Portable_handoff} \<Longrightarrow>
     lifecycle_step plan lease (Preparing i) (Receiving lease)"
| reacquire: "plan \<in> {Direct_tree, Workspace_then_publish} \<Longrightarrow>
     lifecycle_step plan lease (Receiving l) (Receiving lease)"
| pause: "plan \<in> {Direct_tree, Workspace_then_publish} \<Longrightarrow>
     lifecycle_step plan lease (Receiving l) (Resumable_receive (File_set f))"
| resume_files: "plan \<in> {Direct_tree, Workspace_then_publish} \<Longrightarrow>
     lifecycle_step plan lease (Resumable_receive (File_set f)) (Receiving lease)"
| resume_archive: "plan = Workspace_then_publish \<Longrightarrow>
     lifecycle_step plan lease (Resumable_receive (Workspace_archive a)) (Receiving lease)"
| pause_zip: "plan = Direct_resumable_zip \<Longrightarrow>
     lifecycle_step plan lease (Receiving l) (Resumable_receive (Direct_zip z))"
| resume_zip: "plan = Direct_resumable_zip \<Longrightarrow>
     lifecycle_step plan lease (Resumable_receive (Direct_zip z)) (Receiving lease)"
| gate: "plan = Direct_resumable_zip \<Longrightarrow>
     p = Receiving l \<or> p = Resumable_receive (Direct_zip z) \<or> p = Recovery_gate g' d' \<Longrightarrow>
     lifecycle_step plan lease p (Recovery_gate g d)"
| ungate: "plan = Direct_resumable_zip \<Longrightarrow> lifecycle_step plan lease (Recovery_gate g d) (Receiving lease)"
| stop: "plan = Direct_tree \<Longrightarrow> p = Receiving l \<or> p = Resumable_receive r \<Longrightarrow> n \<noteq> 0 \<Longrightarrow>
     lifecycle_step plan lease p (Partial_directory Stopped n m d)"
| finalize: "plan = Direct_tree \<Longrightarrow> lifecycle_step plan lease (Receiving l) (Finalizing_tree lease)"
| publish_tree: "plan = Direct_tree \<Longrightarrow> lifecycle_step plan lease (Finalizing_tree l) (Published d Cleanup_pending)"
| partial_tree: "plan = Direct_tree \<Longrightarrow>
     lifecycle_step plan lease (Finalizing_tree l) (Partial_directory Failures n m d)"
| resumable_tree: "plan = Direct_tree \<Longrightarrow> fs_partialReceiptDigest f \<noteq> None \<Longrightarrow>
     lifecycle_step plan lease (Finalizing_tree l) (Resumable_receive (File_set f))"
| commit_atomic: "plan = Direct_atomic \<Longrightarrow> lifecycle_step plan lease (Receiving l) (Committing_atomic lease)"
| restart_atomic: "plan = Direct_atomic \<Longrightarrow> p = Receiving l \<or> p = Committing_atomic l \<Longrightarrow>
     r \<notin> {Portable_aborted, Target_deleted} \<Longrightarrow> lifecycle_step plan lease p (Restart_required r d)"
| restart_portable: "plan = Portable_handoff \<Longrightarrow> p = Receiving l \<or> p = Handing_off l (Portable_attempt i) \<Longrightarrow>
     r \<notin> {Direct_atomic_rolled_back, Target_deleted} \<Longrightarrow> lifecycle_step plan lease p (Restart_required r d)"
| restart_zip: "plan = Direct_resumable_zip \<Longrightarrow>
     p = Receiving l \<or> p = Resumable_receive rr \<or> p = Recovery_gate g d' \<Longrightarrow>
     lifecycle_step plan lease p (Restart_required Target_deleted d)"
| invalidate: "plan = Workspace_then_publish \<Longrightarrow> lifecycle_step plan lease (Receiving l) (Source_invalidated d)"
| seal: "plan = Workspace_then_publish \<Longrightarrow> lifecycle_step plan lease (Receiving l) (Materialization_sealed d)"
| package: "plan = Workspace_then_publish \<Longrightarrow>
     lifecycle_step plan lease (Materialization_sealed d) (Packaging lease d t)"
| pause_package: "lifecycle_step plan lease (Packaging l d t) (Resumable_package d' c)"
| resume_package: "plan = Workspace_then_publish \<Longrightarrow>
     lifecycle_step plan lease (Resumable_package d c) (Packaging lease d t)"
| seal_package: "p = Packaging l d t \<or> p = Materialization_sealed d \<or> p = Resumable_package d c \<Longrightarrow>
     lifecycle_step plan lease p (Artifact_sealed a)"
| await_save: "lifecycle_step plan lease (Artifact_sealed a) (Waiting_to_save a)"
| publish: "plan = Workspace_then_publish \<Longrightarrow> retained_package p = Some a \<Longrightarrow>
     lifecycle_step plan lease p (Publishing_managed lease a i)"
| publish_done: "lifecycle_step plan lease (Publishing_managed l a i) (Published d Cleanup_pending)"
| publish_failed: "lifecycle_step plan lease (Publishing_managed l a i) (Waiting_to_save a)"
| hand_off: "plan = Workspace_then_publish \<Longrightarrow> retained_package p = Some a \<Longrightarrow>
     lifecycle_step plan lease p (Handing_off lease (Workspace_attempt i a))"
| hand_off_portable: "plan = Portable_handoff \<Longrightarrow>
     lifecycle_step plan lease (Receiving l) (Handing_off lease (Portable_attempt i))"
| hand_off_started: "lifecycle_step plan lease (Handing_off l h) (Download_started h)"
| hand_off_aborted: "lifecycle_step plan lease (Handing_off l (Portable_attempt i)) (Restart_required Portable_aborted i)"
| hand_off_failed: "lifecycle_step plan lease (Handing_off l (Workspace_attempt i a)) (Waiting_to_save a)"
| clean: "lifecycle_step plan lease (Published d c) (Published d Clean)"
| discard: "\<not> is_Published p \<Longrightarrow> \<not> is_Partial_directory p \<Longrightarrow> \<not> is_Restart_required p \<Longrightarrow>
     lifecycle_step plan lease p (Discarded d)"
| attend: "lifecycle_step plan lease p (Needs_attention r d)"

lemma snapshot_facts_id: "snapshotRecoverySelectionFacts f n b = Inr g \<Longrightarrow> g = f"
  by (auto simp: snapshotRecoverySelectionFacts_def split: if_splits)

lemma snapshot_progress_id: "snapshotRetainedFileSetProgress f = Inr g \<Longrightarrow> g = f"
  by (auto simp: snapshotRetainedFileSetProgress_def res_simps split: if_splits dest!: snapshot_facts_id)

lemma durable_payload_id: "durable_payload p = Inr q \<Longrightarrow> q = p"
  by (auto simp: durable_payload_def res_simps split: lifecycle_payload.splits resumable_payload.splits
      dest!: snapshot_progress_id)

lemma next_state_fields:
  assumes "nextReceiveLifecycleState env s p w = Inr s'"
  shows "ls_payload s' = p" "ls_generation s' = ls_generation s + 1" "ls_operationId s' = ls_operationId s"
    "ls_receiveIntentDigest s' = ls_receiveIntentDigest s"
    "ls_timing s' = advanceReceiveTiming (ls_timing s) p (le_now env)" "ls_generation s < 0xffffffffffffffff"
  using assms by (auto simp: nextReceiveLifecycleState_def res_simps split: if_splits dest!: durable_payload_id)

definition idle_event :: "lifecycle_event \<Rightarrow> bool" where
  "idle_event e \<longleftrightarrow> (case e of
     Pause_requested _ \<Rightarrow> True | Selected_entry_failed _ \<Rightarrow> True | Materialization_failed _ \<Rightarrow> True
   | Discard_requested _ _ \<Rightarrow> True | Abandoned_operation_observed \<Rightarrow> True | Materialization_completed \<Rightarrow> True
   | _ \<Rightarrow> False)"

definition moves :: "lifecycle_env \<Rightarrow> reducer_context \<Rightarrow> lifecycle_state \<Rightarrow> lifecycle_state \<Rightarrow> bool" where
  "moves env ctxt s s' \<longleftrightarrow> next_state env s (ls_payload s') = Inr s' \<and>
     lifecycle_step (rc_planKind ctxt) (rc_activeLeaseId ctxt) (ls_payload s) (ls_payload s')"

lemma movesI:
  assumes "next_state env s p = Inr s'" "lifecycle_step (rc_planKind ctxt) (rc_activeLeaseId ctxt) (ls_payload s) p"
  shows "moves env ctxt s s'"
  using assms next_state_fields(1) [OF assms(1)] by (simp add: moves_def)


lemma requireState_Inr: "requireState s k = Inr u \<longleftrightarrow> k (ls_payload s)"
  by (simp add: requireState_def)

lemma requireWorkspaceState_Inr:
  "requireWorkspaceState s plan k = Inr u \<longleftrightarrow> plan = Workspace_then_publish \<and> k (ls_payload s)"
  by (simp add: requireWorkspaceState_def requireState_Inr)

lemmas payload_kinds =
  is_Receiving_def is_Preparing_def is_Packaging_def is_Resumable_receive_def is_Recovery_gate_def
  is_Finalizing_tree_def is_Committing_atomic_def is_Materialization_sealed_def is_Resumable_package_def
  is_Publishing_managed_def is_Handing_off_def is_Artifact_sealed_def

lemmas handler_simps = requireState_Inr requireWorkspaceState_Inr payload_kinds res_simps

lemma pauseDirectZip_moves: "pauseDirectZip env s z ctxt = Inr s' \<Longrightarrow> moves env ctxt s s'"
  by (auto simp: pauseDirectZip_def handler_simps split: if_splits elim!: movesI intro: lifecycle_step.intros)

lemma gateDirectZipRecovery_moves: "gateDirectZipRecovery env s g d ctxt = Inr s' \<Longrightarrow> moves env ctxt s s'"
  by (auto simp: gateDirectZipRecovery_def requireDirectZipRecoveryState_def handler_simps
      split: if_splits resumable_payload.splits elim!: movesI intro: lifecycle_step.gate)

lemma resumeDirectZipRecovery_moves: "resumeDirectZipRecovery env s ctxt = Inr s' \<Longrightarrow> moves env ctxt s s'"
  by (auto simp: resumeDirectZipRecovery_def handler_simps split: if_splits elim!: movesI intro: lifecycle_step.ungate)

lemma reacquireReceiveAuthority_moves: "reacquireReceiveAuthority env s ctxt = Inr s' \<Longrightarrow> moves env ctxt s s'"
  by (auto simp: reacquireReceiveAuthority_def handler_simps split: if_splits elim!: movesI
      intro: lifecycle_step.reacquire)

lemma startReceive_moves: "startReceive env s i ctxt = Inr s' \<Longrightarrow> moves env ctxt s s'"
  by (cases "rc_planKind ctxt")
    (auto simp: startReceive_def handler_simps is_Intent_frozen_def split: if_splits option.splits elim!: movesI
      intro: lifecycle_step.prepare lifecycle_step.start)

lemma admitPreparation_moves: "admitPreparation env s ctxt = Inr s' \<Longrightarrow> moves env ctxt s s'"
  by (auto simp: admitPreparation_def handler_simps split: if_splits elim!: movesI intro: lifecycle_step.admit)

lemma discard_moves:
  "next_state env s (Discarded d) = Inr s' \<Longrightarrow>
   \<not> (is_Published (ls_payload s) \<or> is_Partial_directory (ls_payload s) \<or> is_Restart_required (ls_payload s)) \<Longrightarrow>
   moves env ctxt s s'"
  by (erule movesI, rule lifecycle_step.discard) simp_all

lemma rejectPreparation_moves: "rejectPreparation env s d = Inr s' \<Longrightarrow> moves env ctxt s s'"
  by (auto simp: rejectPreparation_def handler_simps intro: discard_moves)

lemma pauseVerified_moves: "pauseVerified env s v ctxt = Inr s' \<Longrightarrow> moves env ctxt s s'"
  by (auto simp: pauseVerified_def handler_simps split: verified_pause.splits if_splits elim!: movesI
      intro: lifecycle_step.pause lifecycle_step.pause_package)

lemma resumeStable_moves: "resumeStable env s t ctxt = Inr s' \<Longrightarrow> moves env ctxt s s'"
  by (auto simp: resumeStable_def Let_def split: lifecycle_payload.splits resumable_payload.splits if_splits option.splits
      elim!: movesI intro: lifecycle_step.resume_files lifecycle_step.resume_archive lifecycle_step.resume_zip
        lifecycle_step.resume_package)

lemma restoreReceiveContinuation_moves: "restoreReceiveContinuation env s f ctxt = Inr s' \<Longrightarrow> moves env ctxt s s'"
  by (auto simp: restoreReceiveContinuation_def handler_simps split: if_splits elim!: movesI intro: lifecycle_step.pause)

lemma stopReceive_moves: "stopReceive env s n m d c (rc_planKind ctxt) = Inr s' \<Longrightarrow> moves env ctxt s s'"
  by (auto simp: stopReceive_def handler_simps split: if_splits intro: discard_moves movesI lifecycle_step.stop)

lemma discoveryCompleted_moves: "discoveryCompleted env s ctxt = Inr s' \<Longrightarrow> moves env ctxt s s'"
  by (auto simp: discoveryCompleted_def handler_simps split: if_splits elim!: movesI
      intro: lifecycle_step.finalize lifecycle_step.commit_atomic)

lemma finalizeTree_moves: "finalizeTree env s t d n m ctxt = Inr s' \<Longrightarrow> moves env ctxt s s'"
  by (auto simp: finalizeTree_def handler_simps split: tree_outcome.splits if_splits intro: discard_moves)
    (auto elim!: movesI intro!: lifecycle_step.resumable_tree lifecycle_step.publish_tree lifecycle_step.partial_tree)

lemma restartRequired_moves: "restartRequired env s r d (rc_planKind ctxt) = Inr s' \<Longrightarrow> moves env ctxt s s'"
  by (auto simp: restartRequired_def Let_def handler_simps
      split: if_splits lifecycle_payload.splits handoff_attempt.splits elim!: movesI
      intro: lifecycle_step.restart_atomic lifecycle_step.restart_portable lifecycle_step.restart_zip)

lemma sealMaterialization_moves: "sealMaterialization env s d ctxt = Inr s' \<Longrightarrow> moves env ctxt s s'"
  by (auto simp: sealMaterialization_def handler_simps split: if_splits elim!: movesI intro: lifecycle_step.seal)

lemma startPackage_moves: "startPackage env s t ctxt = Inr s' \<Longrightarrow> moves env ctxt s s'"
  by (auto simp: startPackage_def handler_simps elim!: movesI intro!: lifecycle_step.package)

lemma pausePackage_moves: "pausePackage env s c = Inr s' \<Longrightarrow> moves env ctxt s s'"
  by (auto simp: pausePackage_def split: lifecycle_payload.splits elim!: movesI intro: lifecycle_step.pause_package)

lemma sealPackage_moves: "sealPackage env s a = Inr s' \<Longrightarrow> moves env ctxt s s'"
  by (auto simp: sealPackage_def handler_simps split: if_splits elim!: movesI intro: lifecycle_step.seal_package)

lemma waitToSave_moves: "waitToSave env s = Inr s' \<Longrightarrow> moves env ctxt s s'"
  by (auto simp: waitToSave_def split: lifecycle_payload.splits elim!: movesI intro: lifecycle_step.await_save)

lemma startManagedPublication_moves: "startManagedPublication env s i ctxt = Inr s' \<Longrightarrow> moves env ctxt s s'"
  by (auto simp: startManagedPublication_def split: if_splits option.splits elim!: movesI intro: lifecycle_step.publish)

lemma commitPublication_moves: "commitPublication env s d = Inr s' \<Longrightarrow> moves env ctxt s s'"
  by (auto simp: commitPublication_def handler_simps elim!: movesI intro: lifecycle_step.publish_done)

lemma publicationNotCommitted_moves: "publicationNotCommitted env s = Inr s' \<Longrightarrow> moves env ctxt s s'"
  by (auto simp: publicationNotCommitted_def split: lifecycle_payload.splits elim!: movesI
      intro: lifecycle_step.publish_failed)

lemma startHandoff_moves: "startHandoff env s k i ctxt = Inr s' \<Longrightarrow> moves env ctxt s s'"
  by (auto simp: startHandoff_def handler_simps split: if_splits option.splits elim!: movesI
      intro: lifecycle_step.hand_off lifecycle_step.hand_off_portable)

lemma handoffStarted_moves: "handoffStarted env s = Inr s' \<Longrightarrow> moves env ctxt s s'"
  by (auto simp: handoffStarted_def split: lifecycle_payload.splits elim!: movesI
      intro: lifecycle_step.hand_off_started)

lemma handoffNotStarted_moves: "handoffNotStarted env s = Inr s' \<Longrightarrow> moves env ctxt s s'"
  by (auto simp: handoffNotStarted_def split: lifecycle_payload.splits handoff_attempt.splits elim!: movesI
      intro: lifecycle_step.hand_off_aborted lifecycle_step.hand_off_failed)

lemma handoffUnknown_moves: "handoffUnknown env s (rc_planKind ctxt) = Inr s' \<Longrightarrow> moves env ctxt s s'"
  by (auto simp: handoffUnknown_def handler_simps split: handoff_attempt.splits elim!: movesI
      intro!: lifecycle_step.hand_off_failed)

lemma clean_moves:
  "next_state env s (Published d Clean) = Inr s' \<Longrightarrow> ls_payload s = Published d c \<Longrightarrow> moves env ctxt s s'"
  by (erule movesI) (simp add: lifecycle_step.clean)

lemma cleanupVerified_moves: "cleanupVerified env s d = Inr s' \<Longrightarrow> moves env ctxt s s'"
  by (cases "ls_payload s") (auto simp: cleanupVerified_def intro: discard_moves elim!: clean_moves)

lemma needsAttention_moves: "needsAttention env s r d = Inr s' \<Longrightarrow> moves env ctxt s s'"
  by (auto simp: needsAttention_def elim!: movesI intro: lifecycle_step.attend)

lemma materializationCompleted_moves:
  "materializationCompleted env s ctxt = Inr s' \<Longrightarrow> moves env ctxt s s' \<or> s' = s"
  by (auto simp: materializationCompleted_def handler_simps split: if_splits dest: discoveryCompleted_moves)

lemma source_invalidated_moves:
  "reduce_event env s ctxt (Source_invalidation_verified d) = Inr s' \<Longrightarrow> moves env ctxt s s'"
  by (auto simp: handler_simps elim!: movesI intro: lifecycle_step.invalidate)

lemmas handler_moves =
  pauseDirectZip_moves gateDirectZipRecovery_moves resumeDirectZipRecovery_moves reacquireReceiveAuthority_moves
  startReceive_moves admitPreparation_moves rejectPreparation_moves pauseVerified_moves resumeStable_moves
  restoreReceiveContinuation_moves stopReceive_moves discoveryCompleted_moves finalizeTree_moves
  restartRequired_moves sealMaterialization_moves startPackage_moves pausePackage_moves sealPackage_moves
  waitToSave_moves startManagedPublication_moves commitPublication_moves publicationNotCommitted_moves
  startHandoff_moves handoffStarted_moves handoffNotStarted_moves handoffUnknown_moves cleanupVerified_moves
  needsAttention_moves

lemma reduce_event_moves:
  assumes "reduce_event env s ctxt e = Inr s'"
  shows "moves env ctxt s s' \<or> (s' = s \<and> idle_event e)"
proof (cases e)
  case Materialization_completed
  with assms materializationCompleted_moves show ?thesis by (auto simp: idle_event_def)
next
  case (Source_invalidation_verified d)
  with assms source_invalidated_moves show ?thesis by blast
next
  case (Publication_unknown_observed d)
  with assms show ?thesis by (auto simp: res_simps dest: needsAttention_moves)
qed (use assms in \<open>auto simp: idle_event_def dest: handler_moves\<close>)


section \<open>Reductions and runs\<close>

lemma reduce_applied:
  assumes "reduceReceiveLifecycle env s m ctxt = Inr (Applied s')"
  shows "lm_expectedGeneration m = ls_generation s" "lm_leaseId m = rc_activeLeaseId ctxt"
    "moves env ctxt s s' \<or> (s' = s \<and> idle_event (lm_event m) \<and> \<not> activeLeaseMismatch s (rc_activeLeaseId ctxt))"
proof -
  show "lm_expectedGeneration m = ls_generation s" "lm_leaseId m = rc_activeLeaseId ctxt"
    using assms by (auto simp: reduceReceiveLifecycle_def split: if_splits)
  have "reduce_event env s ctxt (lm_event m) = Inr s'"
    and "lm_event m = Receive_authority_reacquired \<or> \<not> activeLeaseMismatch s (rc_activeLeaseId ctxt)"
    using assms by (auto simp: reduceReceiveLifecycle_def res_simps split: if_splits)
  with reduce_event_moves [OF this(1)]
  show "moves env ctxt s s' \<or> (s' = s \<and> idle_event (lm_event m) \<and> \<not> activeLeaseMismatch s (rc_activeLeaseId ctxt))"
    by (auto simp: idle_event_def)
qed

lemma reduce_cases:
  assumes "reduceReceiveLifecycle env s m ctxt = Inr r"
  obtains (stale) "r = Stale s" | (applied) s' where "r = Applied s'"
  using assms by (auto simp: reduceReceiveLifecycle_def res_simps split: if_splits)

lemma moves_fields:
  assumes "moves env ctxt s s'"
  shows "ls_generation s' = ls_generation s + 1" "ls_operationId s' = ls_operationId s"
    "ls_receiveIntentDigest s' = ls_receiveIntentDigest s"
    "ls_timing s' = advanceReceiveTiming (ls_timing s) (ls_payload s') (le_now env)"
    "ls_generation s < 0xffffffffffffffff"
    "lifecycle_step (rc_planKind ctxt) (rc_activeLeaseId ctxt) (ls_payload s) (ls_payload s')"
  using assms next_state_fields [of env s "ls_payload s'" None s'] by (auto simp: moves_def)

inductive lifecycle_reachable :: "plan_kind \<Rightarrow> lifecycle_state \<Rightarrow> bool" for plan where
  init: "initialReceiveLifecycleState startedAt operationId digest = Inr s \<Longrightarrow> lifecycle_reachable plan s"
| event: "lifecycle_reachable plan s \<Longrightarrow> rc_planKind ctxt = plan \<Longrightarrow>
     reduceReceiveLifecycle env s m ctxt = Inr (Applied s') \<Longrightarrow> lifecycle_reachable plan s'"

lemma lifecycle_reachable_induct:
  assumes "lifecycle_reachable plan s"
    and "\<And>startedAt operationId digest s. initialReceiveLifecycleState startedAt operationId digest = Inr s \<Longrightarrow> P s"
    and "\<And>env ctxt s s'. P s \<Longrightarrow> rc_planKind ctxt = plan \<Longrightarrow> moves env ctxt s s' \<Longrightarrow> P s'"
  shows "P s"
  using assms(1)
proof induction
  case (init startedAt operationId digest s)
  with assms(2) show ?case .
next
  case (event s ctxt env m s')
  from reduce_applied(3) [OF event(3)] event(2,4) assms(3) show ?case by blast
qed

lemma initial_state:
  assumes "initialReceiveLifecycleState startedAt operationId digest = Inr s"
  shows "ls_payload s = Intent_frozen" "ls_generation s = 1" "ls_contentWarning s = None"
    "ls_timing s = (case startedAt of None \<Rightarrow> None
       | Some t \<Rightarrow> snapshotReceiveTiming (Some \<lparr>rt_startedAtMilliseconds = t, rt_resultReadyAtMilliseconds = None\<rparr>))"
  using assms by (auto simp: initialReceiveLifecycleState_def res_simps)

subsection \<open>Leases and authority\<close>

lemma step_lease: "lifecycle_step plan lease p q \<Longrightarrow> active_lease q = None \<or> active_lease q = Some lease"
  by (induction rule: lifecycle_step.induct) auto

text \<open>
  C14. The reducer acts only under the authority of the state it was addressed to.  A reduction that returns is
  either the unchanged state marked stale, or was addressed to the generation of the state by the lease of the
  context; it keeps the operation id and the intent digest, and leaves no lease in the state but that of the
  context.  Unless it left the state alone, it advanced the generation by one, so that the same message sent
  again, under any clock, tables and context, is stale and changes nothing.
\<close>

theorem reducer_authority:
  assumes "reduceReceiveLifecycle env s m ctxt = Inr r"
  shows "r = Stale s \<or>
    (\<exists>s'. r = Applied s' \<and> lm_expectedGeneration m = ls_generation s \<and> lm_leaseId m = rc_activeLeaseId ctxt \<and>
       ls_operationId s' = ls_operationId s \<and> ls_receiveIntentDigest s' = ls_receiveIntentDigest s \<and>
       active_lease (ls_payload s') \<in> {None, Some (rc_activeLeaseId ctxt)} \<and>
       (s' = s \<or> ls_generation s' = ls_generation s + 1 \<and> ls_generation s' \<le> 0xffffffffffffffff \<and>
          (\<forall>env' ctxt'. reduceReceiveLifecycle env' s' m ctxt' = Inr (Stale s'))))"
proof (cases rule: reduce_cases [OF assms])
  case 1
  then show ?thesis by blast
next
  case (2 s')
  note ap = reduce_applied [OF assms [unfolded 2]]
  from ap(3) show ?thesis
  proof
    assume mv: "moves env ctxt s s'"
    have "reduceReceiveLifecycle env' s' m ctxt' = Inr (Stale s')" for env' ctxt'
      using ap(1) moves_fields(1) [OF mv] by (simp add: reduceReceiveLifecycle_def)
    with mv 2 ap(1,2) moves_fields [OF mv] step_lease [OF moves_fields(6) [OF mv]] show ?thesis by auto
  next
    assume "s' = s \<and> idle_event (lm_event m) \<and> \<not> activeLeaseMismatch s (rc_activeLeaseId ctxt)"
    with 2 ap(1,2) show ?thesis by (auto simp: activeLeaseMismatch_def split: option.splits)
  qed
qed

subsection \<open>The reducer implements the transitions\<close>

text \<open>
  C6. Refinement: every reduction that is applied either leaves the state as it was, which happens only for the
  events that record nothing, or is a transition the abstract relation allows for the plan and the lease of the
  context; it is never a transition outside that relation.
\<close>

theorem reducer_refines_steps:
  assumes "reduceReceiveLifecycle env s m ctxt = Inr (Applied s')"
  shows "(s' = s \<and> idle_event (lm_event m)) \<or>
    lifecycle_step (rc_planKind ctxt) (rc_activeLeaseId ctxt) (ls_payload s) (ls_payload s')"
  using reduce_applied(3) [OF assms] moves_fields(6) by blast

subsection \<open>Plans\<close>

fun plan_allows :: "plan_kind \<Rightarrow> lifecycle_payload \<Rightarrow> bool" where
  "plan_allows plan Intent_frozen = True"
| "plan_allows plan (Resumable_start _) = False"
| "plan_allows plan (Preparing _) = (plan \<in> {Workspace_then_publish, Portable_handoff, Direct_resumable_zip})"
| "plan_allows plan (Receiving _) = True"
| "plan_allows plan (Source_invalidated _) = (plan = Workspace_then_publish)"
| "plan_allows plan (Resumable_receive r) =
     (case r of
        File_set _ \<Rightarrow> plan \<in> {Direct_tree, Workspace_then_publish}
      | Workspace_archive _ \<Rightarrow> False
      | Direct_zip _ \<Rightarrow> plan = Direct_resumable_zip)"
| "plan_allows plan (Finalizing_tree _) = (plan = Direct_tree)"
| "plan_allows plan (Committing_atomic _) = (plan = Direct_atomic)"
| "plan_allows plan (Materialization_sealed _) = (plan = Workspace_then_publish)"
| "plan_allows plan (Packaging _ _ _) = (plan = Workspace_then_publish)"
| "plan_allows plan (Resumable_package _ _) = (plan = Workspace_then_publish)"
| "plan_allows plan (Artifact_sealed _) = (plan = Workspace_then_publish)"
| "plan_allows plan (Waiting_to_save _) = (plan = Workspace_then_publish)"
| "plan_allows plan (Publishing_managed _ _ _) = (plan = Workspace_then_publish)"
| "plan_allows plan (Handing_off _ h) =
     (case h of Workspace_attempt _ _ \<Rightarrow> plan = Workspace_then_publish | Portable_attempt _ \<Rightarrow> plan = Portable_handoff)"
| "plan_allows plan (Published _ _) = (plan \<in> {Direct_tree, Workspace_then_publish})"
| "plan_allows plan (Download_started h) =
     (case h of Workspace_attempt _ _ \<Rightarrow> plan = Workspace_then_publish | Portable_attempt _ \<Rightarrow> plan = Portable_handoff)"
| "plan_allows plan (Partial_directory _ _ _ _) = (plan = Direct_tree)"
| "plan_allows plan (Restart_required r _) =
     (r \<notin> {Direct_atomic_rolled_back, Portable_aborted, Target_deleted} \<and> plan \<in> {Direct_atomic, Portable_handoff} \<or>
      r = Direct_atomic_rolled_back \<and> plan = Direct_atomic \<or> r = Portable_aborted \<and> plan = Portable_handoff \<or>
      r = Target_deleted \<and> plan = Direct_resumable_zip)"
| "plan_allows plan (Discarded _) = True"
| "plan_allows plan (Needs_attention _ _) = True"
| "plan_allows plan (Recovery_gate _ _) = (plan = Direct_resumable_zip)"

lemma step_plan_allows: "lifecycle_step plan lease p q \<Longrightarrow> plan_allows plan p \<Longrightarrow> plan_allows plan q"
  by (induction rule: lifecycle_step.induct)
    (auto simp: retained_package_def split: lifecycle_payload.splits handoff_attempt.splits)

lemma reachable_plan_allows: "lifecycle_reachable plan s \<Longrightarrow> plan_allows plan (ls_payload s)"
  by (erule lifecycle_reachable_induct) (auto simp: initial_state(1) dest: moves_fields(6) step_plan_allows)



subsection \<open>Packages and terminal states\<close>

lemma package_of_handoff [simp]: "package_digest (Handing_off l h) = package_digest (Download_started h)"
  by (cases h) simp_all

lemma step_package:
  "lifecycle_step plan lease p q \<Longrightarrow> package_digest p = Some a \<Longrightarrow> package_digest q = Some a \<or> isTerminalLifecycleState q"
  by (induction rule: lifecycle_step.induct)
    (auto simp: retained_package_def split: lifecycle_payload.splits handoff_attempt.splits)

lemma step_terminal: "lifecycle_step plan lease p q \<Longrightarrow> isTerminalLifecycleState p \<Longrightarrow> isTerminalLifecycleState q"
  by (induction rule: lifecycle_step.induct)
    (auto simp: retained_package_def split: lifecycle_payload.splits handoff_attempt.splits)

lemma terminal_no_lease: "isTerminalLifecycleState p \<Longrightarrow> active_lease p = None \<and> package_digest p = None"
  by (cases p) auto

inductive lifecycle_run :: "plan_kind \<Rightarrow> lifecycle_state \<Rightarrow> lifecycle_state \<Rightarrow> bool" for plan s where
  here: "lifecycle_run plan s s"
| further: "lifecycle_run plan s s' \<Longrightarrow> rc_planKind ctxt = plan \<Longrightarrow>
     reduceReceiveLifecycle env s' m ctxt = Inr (Applied s'') \<Longrightarrow> lifecycle_run plan s s''"

lemma lifecycle_run_induct:
  assumes "lifecycle_run plan s s'" and "P s"
    and "\<And>env ctxt u v. P u \<Longrightarrow> rc_planKind ctxt = plan \<Longrightarrow> moves env ctxt u v \<Longrightarrow> P v"
  shows "P s'"
  using assms(1)
proof induction
  case here
  from assms(2) show ?case .
next
  case (further s' ctxt env m s'')
  from reduce_applied(3) [OF further(3)] further(2,4) assms(3) show ?case by blast
qed

text \<open>
  C33. What happens after the result exists.  From a state that holds a sealed package, however the operation goes
  on, it holds that same package or is in a terminal state: no save, handoff, failed publication or unknown
  outcome ever exchanges the package.  A terminal state is left only for another one, it carries no lease and
  the generation never decreases.
\<close>

theorem package_and_terminal_states_kept:
  assumes "lifecycle_run plan s s'"
  shows "(\<forall>a. package_digest (ls_payload s) = Some a \<longrightarrow>
      package_digest (ls_payload s') = Some a \<or> isTerminalLifecycleState (ls_payload s')) \<and>
    (isTerminalLifecycleState (ls_payload s) \<longrightarrow>
      isTerminalLifecycleState (ls_payload s') \<and> active_lease (ls_payload s') = None) \<and>
    ls_generation s \<le> ls_generation s'"
proof (intro conjI impI allI)
  show "package_digest (ls_payload s') = Some a \<or> isTerminalLifecycleState (ls_payload s')"
    if "package_digest (ls_payload s) = Some a" for a
    using assms that by (rule lifecycle_run_induct [OF _ disjI1])
      (blast dest: moves_fields(6) step_package step_terminal)
  show terminal: "isTerminalLifecycleState (ls_payload s')" if "isTerminalLifecycleState (ls_payload s)"
    using assms that by (rule lifecycle_run_induct) (blast dest: moves_fields(6) step_terminal)
  show "active_lease (ls_payload s') = None" if "isTerminalLifecycleState (ls_payload s)"
    using terminal [OF that] terminal_no_lease by blast
  show "ls_generation s \<le> ls_generation s'"
    using assms order_refl by (rule lifecycle_run_induct) (simp add: moves_fields(1))
qed

subsection \<open>Bounds\<close>

definition file_set_ok :: "file_set \<Rightarrow> bool" where
  "file_set_ok f \<longleftrightarrow>
     0 \<le> fs_completedFileCount f \<and> fs_completedFileCount f \<le> sf_discoveredFileCount (fs_selectionFacts f) \<and>
     sf_discoveredFileCount (fs_selectionFacts f) < 2 ^ 64 \<and>
     0 \<le> fs_completedBytes f \<and> fs_completedBytes f \<le> fs_retainedBytes f \<and>
     fs_retainedBytes f \<le> sf_discoveredBytes (fs_selectionFacts f) \<and>
     sf_discoveredBytes (fs_selectionFacts f) < 2 ^ 64 \<and>
     (fs_completedFileCount f = 0 \<longrightarrow> fs_completedBytes f = 0) \<and>
     (fs_completedFileCount f = sf_discoveredFileCount (fs_selectionFacts f) \<longrightarrow>
        fs_retainedBytes f = fs_completedBytes f)"

lemma snapshot_progress_iff: "snapshotRetainedFileSetProgress f = Inr g \<longleftrightarrow> g = f \<and> 
   file_set_ok f \<and> (sf_discoveredFileCount (fs_selectionFacts f) = 0 \<longrightarrow> sf_discoveredBytes (fs_selectionFacts f) = 0)"
  by (auto simp: snapshotRetainedFileSetProgress_def snapshotRecoverySelectionFacts_def file_set_ok_def res_simps
      lifecycle_limits split: if_splits)

lemma next_state_file_set:
  "nextReceiveLifecycleState env s (Resumable_receive (File_set f)) w = Inr s' \<Longrightarrow> file_set_ok f"
  by (auto simp: nextReceiveLifecycleState_def durable_payload_def res_simps snapshot_progress_iff split: if_splits)

lemma moves_file_set: "moves env ctxt s s' \<Longrightarrow> ls_payload s' = Resumable_receive (File_set f) \<Longrightarrow> file_set_ok f"
  by (auto simp: moves_def dest: next_state_file_set)

lemma snapshot_timing_idem: "snapshotReceiveTiming (snapshotReceiveTiming t) = snapshotReceiveTiming t"
  by (auto simp: snapshotReceiveTiming_def split: option.splits)

lemma advance_timing_stable:
  "snapshotReceiveTiming (advanceReceiveTiming t p now) = advanceReceiveTiming t p now"
  by (simp add: advanceReceiveTiming_def snapshot_timing_idem split: option.splits)

lemma elapsed_nonneg: "receiveElapsedMilliseconds t = Some e \<Longrightarrow> 0 \<le> e"
  by (auto simp: receiveElapsedMilliseconds_def snapshotReceiveTiming_def split: option.splits if_splits
      elim!: validMilliseconds.elims)

lemma elapsed_kept:
  "receiveElapsedMilliseconds t = Some e \<Longrightarrow> receiveElapsedMilliseconds (advanceReceiveTiming t p now) = Some e"
  by (auto simp: receiveElapsedMilliseconds_def advanceReceiveTiming_def snapshotReceiveTiming_def
      split: option.splits if_splits)

text \<open>
  C34. Every state the reducer reaches is in range: its generation is a positive 64-bit number; the progress of
  retained files stays ordered, completed within retained within discovered, within 64 bits, with no bytes
  without a file and nothing retained beyond completed files once all are complete; its timing survives its own
  validation, and the elapsed time it gives is never negative and, whatever follows, never changes again.
\<close>

theorem lifecycle_states_in_range:
  assumes "lifecycle_reachable plan s"
  shows "1 \<le> ls_generation s \<and> ls_generation s < 2 ^ 64 \<and>
    (\<forall>f. ls_payload s = Resumable_receive (File_set f) \<longrightarrow> file_set_ok f) \<and>
    snapshotReceiveTiming (ls_timing s) = ls_timing s \<and>
    (\<forall>e. receiveElapsedMilliseconds (ls_timing s) = Some e \<longrightarrow>
       0 \<le> e \<and> (\<forall>s'. lifecycle_run plan s s' \<longrightarrow> receiveElapsedMilliseconds (ls_timing s') = Some e))"
proof (intro conjI)
  show "1 \<le> ls_generation s"
    using assms by (rule lifecycle_reachable_induct) (simp_all add: initial_state moves_fields(1))
  show "ls_generation s < 2 ^ 64"
    using assms by (rule lifecycle_reachable_induct) (use moves_fields(1,5) in \<open>fastforce simp: initial_state\<close>)+
  show "\<forall>f. ls_payload s = Resumable_receive (File_set f) \<longrightarrow> file_set_ok f"
    using assms by (rule lifecycle_reachable_induct) (auto simp: initial_state dest: moves_file_set)
  show "snapshotReceiveTiming (ls_timing s) = ls_timing s"
    using assms by (rule lifecycle_reachable_induct)
      (auto simp: initial_state moves_fields(4) advance_timing_stable snapshot_timing_idem
        snapshotReceiveTiming_def [of None] split: option.splits)
  have "receiveElapsedMilliseconds (ls_timing s') = Some e"
    if "receiveElapsedMilliseconds (ls_timing s) = Some e" "lifecycle_run plan s s'" for e s'
    using that(2,1) by (rule lifecycle_run_induct) (simp add: moves_fields(4) elapsed_kept)
  with elapsed_nonneg show "\<forall>e. receiveElapsedMilliseconds (ls_timing s) = Some e \<longrightarrow>
      0 \<le> e \<and> (\<forall>s'. lifecycle_run plan s s' \<longrightarrow> receiveElapsedMilliseconds (ls_timing s') = Some e)" by blast
qed

subsection \<open>Continuations\<close>

fun resume_event :: "lifecycle_payload \<Rightarrow> lifecycle_event" where
  "resume_event (Resumable_package _ _) = Resume_started (Some [])"
| "resume_event (Recovery_gate _ _) = Direct_zip_recovery_resumed"
| "resume_event _ = Resume_started None"

lemma moves_warning:
  assumes "moves env ctxt s s'" "ls_contentWarning s = None"
  shows "ls_contentWarning s' = None"
proof -
  have "\<exists>cw. receiveContentWarningFields env (ls_contentWarning s) = Inr cw \<and> ls_contentWarning s' = cw"
    using assms(1) by (auto simp: moves_def nextReceiveLifecycleState_def res_simps split: if_splits)
      (metis lifecycle_state.select_convs(1))
  with assms(2) show ?thesis by (auto simp: receiveContentWarningFields_def)
qed

lemma reachable_no_warning: "lifecycle_reachable plan s \<Longrightarrow> ls_contentWarning s = None"
  by (erule lifecycle_reachable_induct) (auto simp: initial_state dest: moves_warning)

lemma next_state_defined:
  assumes "ls_contentWarning s = None" "ls_generation s < 0xffffffffffffffff" "\<not> is_Resumable_receive p"
  shows "\<exists>s'. next_state env s p = Inr s' \<and> ls_payload s' = p"
  using assms by (cases p)
    (simp_all add: nextReceiveLifecycleState_def receiveContentWarningFields_def durable_payload_def)

lemma resume_reduces:
  assumes ok: "ls_contentWarning s = None" "ls_generation s < 0xffffffffffffffff"
    and pa: "plan_allows (rc_planKind ctxt) (ls_payload s)"
    and co: "st_task (receiveStorageSettlement s) = Continuable"
  shows "\<exists>s'. reduce_event env s ctxt (resume_event (ls_payload s)) = Inr s' \<and>
    active_lease (ls_payload s') = Some (rc_activeLeaseId ctxt)"
proof -
  have nr: "\<exists>s'. next_state env s (Receiving (rc_activeLeaseId ctxt)) = Inr s' \<and>
      ls_payload s' = Receiving (rc_activeLeaseId ctxt)"
    by (rule next_state_defined [OF ok]) simp
  have np: "\<exists>s'. next_state env s (Packaging (rc_activeLeaseId ctxt) d []) = Inr s' \<and>
      ls_payload s' = Packaging (rc_activeLeaseId ctxt) d []" for d
    by (rule next_state_defined [OF ok]) simp
  show ?thesis
  proof (cases "ls_payload s")
    case (Resumable_receive r)
    with nr pa show ?thesis by (cases r) (auto simp: resumeStable_def)
  next
    case (Resumable_package d c)
    with np [of d] pa show ?thesis by (auto simp: resumeStable_def)
  next
    case (Recovery_gate g d)
    with nr pa show ?thesis by (auto simp: resumeDirectZipRecovery_def)
  qed (use co pa in \<open>auto simp: receiveStorageSettlement_def split: if_splits\<close>)
qed



section \<open>A sample operation\<close>

definition sample_env :: lifecycle_env where
  "sample_env = \<lparr>le_tables = sample_tables, le_mappings = (\<lambda>_. None), le_now = 1500\<rparr>"

definition sample_operation :: "int \<Rightarrow> receive_timing option \<Rightarrow> lifecycle_payload \<Rightarrow> lifecycle_state" where
  "sample_operation g t p =
     \<lparr>ls_contentWarning = None, ls_timing = t, ls_operationId = CHR ''B'' # replicate 21 CHR ''A'',
      ls_receiveIntentDigest = CHR ''B'' # replicate 42 CHR ''A'', ls_generation = g, ls_payload = p\<rparr>"

definition sample_ctxt :: "plan_kind \<Rightarrow> reducer_context" where
  "sample_ctxt plan = \<lparr>rc_planKind = plan, rc_preparationRequired = False, rc_activeLeaseId = ''lease''\<rparr>"

definition sample_message :: "int \<Rightarrow> lifecycle_event \<Rightarrow> lifecycle_message" where
  "sample_message g e = \<lparr>lm_expectedGeneration = g, lm_leaseId = ''lease'', lm_event = e\<rparr>"

definition sample_started :: receive_timing where
  "sample_started = \<lparr>rt_startedAtMilliseconds = Integral 1000, rt_resultReadyAtMilliseconds = None\<rparr>"

definition sample_ready :: receive_timing where
  "sample_ready = \<lparr>rt_startedAtMilliseconds = Integral 1000, rt_resultReadyAtMilliseconds = Some (Integral 1500)\<rparr>"

definition sample_files :: file_set where
  "sample_files =
     \<lparr>fs_checkpointSetDigest = ''c'', fs_completedFileCount = 1, fs_completedBytes = 10, fs_retainedBytes = 14,
      fs_selectionFacts = \<lparr>sf_discoveredFileCount = 3, sf_discoveredBytes = 40, sf_discovery = Discovery_complete\<rparr>,
      fs_partialReceiptDigest = None\<rparr>"

lemmas sample_defs = sample_env_def sample_operation_def sample_ctxt_def sample_message_def sample_started_def
  sample_ready_def sample_files_def

lemma sample_initial:
  "initialReceiveLifecycleState (Some (Integral 1000)) (CHR ''B'' # replicate 21 CHR ''A'') (CHR ''B'' # replicate 42 CHR ''A'') =
   Inr (sample_operation 1 (Some sample_started) Intent_frozen)"
  by code_simp


lemmas sample_reduction = sample_defs reduceReceiveLifecycle_def activeLeaseMismatch_def requireState_def
  nextReceiveLifecycleState_def durable_payload_def receiveContentWarningFields_def advanceReceiveTiming_def
  snapshotReceiveTiming_def max_safe_integer_def

lemma sample_start:
  "reduceReceiveLifecycle sample_env (sample_operation 1 (Some sample_started) Intent_frozen)
     (sample_message 1 (Receive_started None)) (sample_ctxt Direct_tree) =
   Inr (Applied (sample_operation 2 (Some sample_started) (Receiving ''lease'')))"
  by (simp add: sample_reduction startReceive_def)

lemma sample_pause:
  "reduceReceiveLifecycle sample_env (sample_operation 2 (Some sample_started) (Receiving ''lease''))
     (sample_message 2 (Pause_verified (Receive_pause sample_files))) (sample_ctxt Direct_tree) =
   Inr (Applied (sample_operation 3 (Some sample_started) (Resumable_receive (File_set sample_files))))"
  by (simp add: sample_reduction pauseVerified_def snapshotRetainedFileSetProgress_def
      snapshotRecoverySelectionFacts_def lifecycle_limits)

lemma sample_stop:
  "reduceReceiveLifecycle sample_env (sample_operation 3 (Some sample_started) (Resumable_receive (File_set sample_files)))
     (sample_message 3 (Stop_requested 1 2 ''r'' ''c'')) (sample_ctxt Direct_tree) =
   Inr (Applied (sample_operation 4 (Some sample_ready) (Partial_directory Stopped 1 2 ''r'')))"
  by (simp add: sample_reduction stopReceive_def)

lemma sample_save:
  "reduceReceiveLifecycle sample_env (sample_operation 7 None (Waiting_to_save ''p''))
     (sample_message 7 (Save_requested ''a'')) (sample_ctxt Workspace_then_publish) =
   Inr (Applied (sample_operation 8 None (Publishing_managed ''lease'' ''p'' ''a'')))"
  by (simp add: sample_reduction startManagedPublication_def retained_package_def)

lemma sample_plan: "rc_planKind (sample_ctxt plan) = plan"
  by (simp add: sample_ctxt_def)

lemma sample_reachable:
  "lifecycle_reachable Direct_tree (sample_operation 3 (Some sample_started) (Resumable_receive (File_set sample_files)))"
  by (rule lifecycle_reachable.event [OF lifecycle_reachable.event [OF lifecycle_reachable.init [OF sample_initial]
    sample_plan sample_start] sample_plan sample_pause])

lemma sample_stopped:
  "lifecycle_reachable Direct_tree (sample_operation 4 (Some sample_ready) (Partial_directory Stopped 1 2 ''r''))"
  by (rule lifecycle_reachable.event [OF sample_reachable sample_plan sample_stop])

theorem reducer_authority_witness:
  "reduceReceiveLifecycle sample_env (sample_operation 1 (Some sample_started) Intent_frozen)
     (sample_message 1 (Receive_started None)) (sample_ctxt Direct_tree) =
   Inr (Applied (sample_operation 2 (Some sample_started) (Receiving ''lease''))) \<and>
   (\<forall>env ctxt. reduceReceiveLifecycle env (sample_operation 2 (Some sample_started) (Receiving ''lease''))
     (sample_message 1 (Receive_started None)) ctxt =
     Inr (Stale (sample_operation 2 (Some sample_started) (Receiving ''lease''))))"
  using reducer_authority [OF sample_start] sample_start by (auto simp: sample_operation_def)

theorem reducer_refines_steps_witness:
  "reduceReceiveLifecycle sample_env (sample_operation 7 None (Waiting_to_save ''p''))
     (sample_message 7 (Save_requested ''a'')) (sample_ctxt Workspace_then_publish) =
   Inr (Applied (sample_operation 8 None (Publishing_managed ''lease'' ''p'' ''a''))) \<and>
   lifecycle_step Workspace_then_publish ''lease'' (Waiting_to_save ''p'') (Publishing_managed ''lease'' ''p'' ''a'')"
  using reducer_refines_steps [OF sample_save] sample_save by (auto simp: sample_operation_def sample_ctxt_def)


theorem package_and_terminal_states_kept_witness:
  "lifecycle_run Workspace_then_publish (sample_operation 7 None (Waiting_to_save ''p''))
     (sample_operation 8 None (Publishing_managed ''lease'' ''p'' ''a'')) \<and>
   package_digest (Publishing_managed ''lease'' ''p'' ''a'') = Some ''p''"
proof -
  have run: "lifecycle_run Workspace_then_publish (sample_operation 7 None (Waiting_to_save ''p''))
     (sample_operation 8 None (Publishing_managed ''lease'' ''p'' ''a''))"
    by (rule lifecycle_run.further [OF lifecycle_run.here sample_plan sample_save])
  with package_and_terminal_states_kept [OF run] show ?thesis by (auto simp: sample_operation_def)
qed

theorem lifecycle_states_in_range_witness:
  "lifecycle_reachable Direct_tree (sample_operation 4 (Some sample_ready) (Partial_directory Stopped 1 2 ''r'')) \<and>
   receiveElapsedMilliseconds (Some sample_ready) = Some 500 \<and> (0::int) \<le> 500 \<and>
   ls_generation (sample_operation 4 (Some sample_ready) (Partial_directory Stopped 1 2 ''r'')) < 2 ^ 64"
  using lifecycle_states_in_range [OF sample_stopped] sample_stopped
  by (auto simp: sample_reduction receiveElapsedMilliseconds_def)


end
