(* ===== verification/Cbor_Runtime.thy ===== *)
theory Cbor_Runtime
  imports Wire Path_Policy
begin

text \<open>
What every codec over CBOR shares: the runtime functions a codec calls, the errors it throws, the readers of
  \<^verbatim>\<open>web/src/protocol/cbor.ts\<close> lifted to those errors, and the contract of the CBOR package. The package is
  not part of the repository; \<open>cborg_contract\<close> states the behaviour the codecs rely on, against the reference encoding
  \<open>cbor_encode\<close> of theory \<open>Cbor\<close>, and the two lemmas at the end turn it into the round trip of
  \<^verbatim>\<open>encodeCanonicalCbor\<close> and \<^verbatim>\<open>decodeCanonicalCbor\<close>.
\<close>

section \<open>Shared readers\<close>

text \<open>
  The three functions of the runtime that the codecs call: \<^verbatim>\<open>normalize('NFC')\<close> and the two entry points of the
  \<^verbatim>\<open>cborg\<close> package.
\<close>

record cbor_runtime =
  cb_nfc :: "utf16 \<Rightarrow> utf16"
  cb_encode :: "js_value \<Rightarrow> cbor_error + bytes"
  cb_decode :: "bytes \<Rightarrow> cbor_error + js_value"

text \<open>What a message codec throws: its own error, one of the CBOR layer, or one of the classes its helpers use.\<close>

datatype message_error = MessageError | MessageCborError cbor_error | MessageRangeError | MessageTypeError | PlainError

definition of_cbor :: "cbor_error + 'a \<Rightarrow> message_error + 'a" where
  "of_cbor m = (case m of Inl e \<Rightarrow> Inl (MessageCborError e) | Inr a \<Rightarrow> Inr a)"

lemma of_cbor_Inr [res_simps]: "of_cbor m = Inr a \<longleftrightarrow> m = Inr a"
  by (cases m) (simp_all add: of_cbor_def)

definition decode_body :: "cbor_runtime \<Rightarrow> bytes \<Rightarrow> int \<Rightarrow> message_error + js_value" where
  "decode_body rt body maximumBytes =
     of_cbor (decodeCanonicalCbor (cb_nfc rt) (cb_decode rt) body (Integral maximumBytes))"

definition encode_value :: "cbor_runtime \<Rightarrow> js_value \<Rightarrow> message_error + bytes" where
  "encode_value rt v = of_cbor (encodeCanonicalCbor (cb_nfc rt) (cb_encode rt) v)"

abbreviation numeric_map :: "js_value \<Rightarrow> int list \<Rightarrow> message_error + (js_value \<times> js_value) list" where
  "numeric_map v keys \<equiv> of_cbor (requireNumericMap v keys)"

abbreviation array_of :: "js_value \<Rightarrow> nat \<Rightarrow> message_error + js_value list" where
  "array_of v n \<equiv> of_cbor (requireArray v n)"

abbreviation byte_field :: "js_value \<Rightarrow> nat option \<Rightarrow> bool \<Rightarrow> message_error + bytes" where
  "byte_field v n z \<equiv> of_cbor (requireByteField v n z)"

abbreviation unsigned_field :: "js_value \<Rightarrow> message_error + int" where
  "unsigned_field v \<equiv> of_cbor (requireUnsigned v)"

abbreviation text_field :: "cbor_runtime \<Rightarrow> js_value \<Rightarrow> message_error + utf16" where
  "text_field rt v \<equiv> of_cbor (requireText (cb_nfc rt) v)"

abbreviation boolean_field :: "js_value \<Rightarrow> message_error + bool" where
  "boolean_field v \<equiv> of_cbor (requireBoolean v)"

text \<open>\<^verbatim>\<open>array.map(f)\<close> for an \<open>f\<close> that may throw.\<close>

fun mapM :: "('a \<Rightarrow> 'e + 'b) \<Rightarrow> 'a list \<Rightarrow> 'e + 'b list" where
  "mapM f [] = Inr []"
| "mapM f (x # xs) = bindE (f x) (\<lambda>y. bindE (mapM f xs) (\<lambda>ys. Inr (y # ys)))"


lemma mapM_Inr: "mapM f xs = Inr ys \<longleftrightarrow> list_all2 (\<lambda>x y. f x = Inr y) xs ys"
proof (induction xs arbitrary: ys)
  case (Cons x xs)
  then show ?case by (cases ys) (auto simp add: res_simps)
qed (auto)

section \<open>The contract of the CBOR package\<close>

text \<open>
  The protocol value that a runtime value stands for: integers of 64 bits whatever their runtime type, text as its
  UTF-8 form, and the entries of a map in the order of their keys.
\<close>

inductive js_encodes :: "js_value \<Rightarrow> cbor \<Rightarrow> bool" where
  enc_null: "js_encodes JNull CNull"
| enc_bool: "js_encodes (JBool b) (if b then CTrue else CFalse)"
| enc_bytes: "length bs < 256 ^ 8 \<Longrightarrow> js_encodes (JBytes bs) (CBytes bs)"
| enc_number: "n < 256 ^ 8 \<Longrightarrow> js_encodes (JNumber (Integral (int n))) (CUnsigned n)"
| enc_bigint: "n < 256 ^ 8 \<Longrightarrow> js_encodes (JBigint (int n)) (CUnsigned n)"
| enc_negative_number: "n < 256 ^ 8 \<Longrightarrow> js_encodes (JNumber (Integral (- 1 - int n))) (CNegative n)"
| enc_negative_bigint: "n < 256 ^ 8 \<Longrightarrow> js_encodes (JBigint (- 1 - int n)) (CNegative n)"
| enc_string: "length (text_encode s) < 256 ^ 8 \<Longrightarrow> js_encodes (JString s) (CText (text_encode s))"
| enc_array: "list_all2 js_encodes vs cs \<Longrightarrow> js_encodes (JArray vs) (CArray cs)"
| enc_map: "list_all2 (\<lambda>f (k, c). fst f = JNumber (Integral (int k)) \<and> js_encodes (snd f) c) fs ps \<Longrightarrow>
    distinct (map fst ps) \<Longrightarrow> js_encodes (JMap fs) (CMap (sort_key fst ps))"

text \<open>The value that comes back: safe integers as numbers, other integers as bigints, map entries in key order.\<close>

fun key_number :: "js_value \<Rightarrow> int" where
  "key_number (JNumber (Integral i)) = i"
| "key_number _ = -1"

fun js_norm :: "js_value \<Rightarrow> js_value" where
  "js_norm (JBigint i) = (if is_safe_integer (Integral i) then JNumber (Integral i) else JBigint i)"
| "js_norm (JArray vs) = JArray (map js_norm vs)"
| "js_norm (JMap fs) = JMap (sort_key (\<lambda>f. key_number (fst f)) (map (\<lambda>f. (fst f, js_norm (snd f))) fs))"
| "js_norm v = v"

text \<open>
  What the protocol relies on of \<^verbatim>\<open>cborg\<close> with the options of \<^verbatim>\<open>protocol/cbor.ts\<close>: an encoding is the deterministic
  one and decodes to the value again, and a canonical input that decodes is the encoding of what it decodes to.
\<close>

definition cborg_contract :: "cbor_runtime \<Rightarrow> bool" where
  "cborg_contract rt \<longleftrightarrow>
     (\<forall>v b. cb_encode rt v = Inr b \<longrightarrow>
        (\<exists>c. js_encodes v c \<and> b = cbor_encode c) \<and> cb_decode rt b = Inr (js_norm v)) \<and>
     (\<forall>v b. validateCanonicalEncoding b = Inr () \<longrightarrow> cb_decode rt b = Inr v \<longrightarrow>
        js_norm v = v \<and> cb_encode rt v = Inr b)"

lemma js_encodes_ok: "js_encodes v c \<Longrightarrow> js_wf T d v \<Longrightarrow> cbor_ok d c"
proof (induction arbitrary: d rule: js_encodes.induct)
  case (enc_array vs cs)
  then have d: "d \<le> 16" "length vs \<le> 2048" "\<forall>v \<in> set vs. js_wf T (Suc d) v"
    by (auto elim: js_wf.cases)
  have "list_all (cbor_ok (Suc d)) cs"
    using enc_array.IH d(3) by (auto simp add: list_all2_conv_all_nth list_all_length)
  with d enc_array.IH show ?case
    by (simp add: list_all2_lengthD)
next
  case (enc_map fs ps)
  then have d: "d \<le> 16" "length fs \<le> 256" and f: "\<And>f. f \<in> set fs \<Longrightarrow> js_wf T (Suc d) (snd f) \<and>
      (\<exists>i. fst f = JNumber (Integral i) \<and> 0 \<le> i \<and> i \<le> max_safe_integer)"
    by (auto elim: js_wf.cases)
  have "length ps = length fs"
    using enc_map.IH by (simp add: list_all2_lengthD)
  moreover have "int k \<le> max_safe_integer \<and> cbor_ok (Suc d) c" if kc: "(k, c) \<in> set ps" for k c
  proof -
    obtain i where i: "i < length ps" "ps ! i = (k, c)"
      using kc by (auto simp add: in_set_conv_nth)
    then have "fst (fs ! i) = JNumber (Integral (int k))" "js_wf T (Suc d) (snd (fs ! i)) \<longrightarrow> cbor_ok (Suc d) c"
      "fs ! i \<in> set fs"
      using enc_map.IH by (auto simp add: list_all2_conv_all_nth)
    with f show ?thesis by fastforce
  qed
  moreover have "sorted_wrt (<) (map fst (sort_key fst ps))"
    using enc_map.hyps by (simp add: strict_sorted_iff distinct_map)
  ultimately show ?case
    using d by (auto simp add: list_all_iff)
qed (auto elim: js_wf.cases simp add: text_encode_valid)

lemma validate_items_complete:
  "(\<And>v. v \<in> set vs \<Longrightarrow> validateValue tv d v = Inr ()) \<Longrightarrow> validate_items tv d vs = Inr ()"
  by (induction vs) (simp_all del: validateValue.simps)

lemma validate_fields_complete:
  "(\<And>f. f \<in> set fs \<Longrightarrow> schema_key (fst f) \<and> validateValue tv d (snd f) = Inr ()) \<Longrightarrow> validate_fields tv d fs = Inr ()"
  by (induction fs) (simp_all del: validateValue.simps)

lemma validateValue_complete:
  "js_wf T d v \<Longrightarrow> (\<And>s. T s \<Longrightarrow> tv s = Inr ()) \<Longrightarrow> validateValue tv d v = Inr ()"
proof (induction rule: js_wf.induct)
  case (7 d vs)
  then show ?case by (simp add: cbor_limits validate_items_complete del: validateValue.simps add: validateValue.simps [of tv d])
next
  case (8 d fs)
  then show ?case
    by (simp add: cbor_limits validate_fields_complete schema_key_iff del: validateValue.simps add: validateValue.simps [of tv d])
qed (auto simp add: cbor_limits validateNumber_def max_safe_integer_def)

lemma js_norm_wf: "js_wf T d v \<Longrightarrow> js_wf T d (js_norm v)"
proof (induction rule: js_wf.induct)
  case (8 d fs)
  then show ?case by (auto intro!: js_wf.intros)
qed (auto intro!: js_wf.intros simp add: max_safe_integer_def)

lemma validateText_iff: "validateText norm s = Inr () \<longleftrightarrow> isWellFormedUnicode s \<and> norm s = s"
  by (simp add: validateText_def)

lemma validateValue_wf:
  "validateValue (validateText norm) d v = Inr () \<longleftrightarrow> js_wf (\<lambda>s. isWellFormedUnicode s \<and> norm s = s) d v"
  using validateValue_sound(1) [of "validateText norm" d v "()"]
    validateValue_complete [of "\<lambda>s. isWellFormedUnicode s \<and> norm s = s" d v "validateText norm"]
  by (auto simp add: validateText_iff simp del: validateValue.simps)

lemma decodeCbor_parts:
  assumes "decodeCbor dec b (Integral n) tv = Inr v"
  shows "validateCanonicalEncoding b = Inr ()" "dec b = Inr v" "b \<noteq> []" "int (length b) \<le> n" "validateValue tv 0 v = Inr ()"
proof -
  have g: "is_safe_integer (Integral n)" "\<not> n \<le> 0" "length b \<noteq> 0" "\<not> int (length b) > n"
    using assms unfolding decodeCbor_def by (simp_all split: if_splits del: is_safe_integer.simps)
  note step = assms [unfolded decodeCbor_def js_number.case if_not_P [OF g(2)]]
  show "b \<noteq> []" "int (length b) \<le> n" using g by simp_all
  show "validateCanonicalEncoding b = Inr ()"
    using step g by (cases "validateCanonicalEncoding b") (simp_all del: validateValue.simps)
  show "dec b = Inr v" "validateValue tv 0 v = Inr ()"
    using step g by (cases "validateCanonicalEncoding b"; cases "dec b"; simp add: res_simps del: validateValue.simps)+
qed

text \<open>What decodes encodes back to the same octets.\<close>

lemma decode_body_encode:
  assumes "cborg_contract rt" "decode_body rt b n = Inr v"
  shows "encode_value rt v = Inr b \<and> js_norm v = v \<and> 0 < length b \<and> int (length b) \<le> n"
proof -
  have "decodeCanonicalCbor (cb_nfc rt) (cb_decode rt) b (Integral n) = Inr v"
    using assms(2) by (simp add: decode_body_def of_cbor_Inr)
  then have "decodeCbor (cb_decode rt) b (Integral n) (validateText (cb_nfc rt)) = Inr v"
    by (simp only: decodeCanonicalCbor_def)
  note d = decodeCbor_parts [OF this]
  have "js_norm v = v" "cb_encode rt v = Inr b"
    using assms(1) d(1,2) unfolding cborg_contract_def by blast+
  then show ?thesis
    using d by (simp add: encode_value_def encodeCanonicalCbor_def of_cbor_Inr del: validateValue.simps)
qed

text \<open>What encodes within the limit decodes to the same value.\<close>

lemma encode_value_decode:
  assumes "cborg_contract rt" "encode_value rt v = Inr b" "int (length b) \<le> n" "n \<le> max_safe_integer"
  shows "decode_body rt b n = Inr (js_norm v)"
proof -
  have e: "cb_encode rt v = Inr b" "js_wf (\<lambda>s. isWellFormedUnicode s \<and> cb_nfc rt s = s) 0 v"
    using assms(2) by (auto simp add: encode_value_def encodeCanonicalCbor_def res_simps validateValue_wf
        simp del: validateValue.simps split: sum.splits)
  obtain c where c: "js_encodes v c" "b = cbor_encode c" "cb_decode rt b = Inr (js_norm v)"
    using assms(1) e(1) by (auto simp add: cborg_contract_def)
  have ok: "validateCanonicalEncoding b = Inr ()"
    using js_encodes_ok [OF c(1) e(2)] c(2) validate_iff by blast
  have "b \<noteq> []"
    using c(2) encode_major(2) by simp
  moreover have "0 < n"
    using \<open>b \<noteq> []\<close> assms(3) by (cases b) auto
  moreover have "validateValue (validateText (cb_nfc rt)) 0 (js_norm v) = Inr ()"
    using js_norm_wf [OF e(2)] by (simp add: validateValue_wf del: validateValue.simps)
  ultimately show ?thesis
    using ok c(3) assms(3,4)
    by (simp add: decode_body_def decodeCanonicalCbor_def decodeCbor_def of_cbor_def max_safe_integer_def
        del: validateValue.simps)
qed

section \<open>Reading encoded fields back\<close>

lemma decode_of_encoding:
  assumes "cborg_contract rt" "encode_value rt v = Inr b" "decode_body rt b n = Inr w"
  shows "w = js_norm v"
proof -
  have "cb_encode rt v = Inr b"
    using assms(2) by (auto simp add: encode_value_def encodeCanonicalCbor_def res_simps simp del: validateValue.simps split: sum.splits)
  then have "cb_decode rt b = Inr (js_norm v)"
    using assms(1) unfolding cborg_contract_def by blast
  moreover have "decodeCbor (cb_decode rt) b (Integral n) (validateText (cb_nfc rt)) = Inr w"
    using assms(3) by (simp add: decode_body_def of_cbor_Inr decodeCanonicalCbor_def)
  ultimately show ?thesis
    using decodeCbor_parts(2) by fastforce
qed

lemma item_at_simps [simp]:
  "item_at (x # xs) 0 = x" "0 < n \<Longrightarrow> item_at (x # xs) n = item_at xs (n - 1)"
  by (auto simp add: item_at_def)

lemma unsigned_bigint: "unsigned_field (js_norm (JBigint i)) = Inr n \<longleftrightarrow> n = i \<and> 0 \<le> i"
  by (auto simp add: requireUnsigned_def of_cbor_def)

lemma unsigned_number: "unsigned_field (JNumber (Integral i)) = Inr n \<longleftrightarrow> n = i \<and> 0 \<le> i \<and> i \<le> max_safe_integer"
  by (auto simp add: requireUnsigned_def of_cbor_def max_safe_integer_def)

lemma bytes_back: "byte_field (JBytes b) k z = Inr x \<Longrightarrow> x = b"
  by (auto simp add: requireByteField_def of_cbor_def split: if_splits)

lemma text_back: "text_field rt (JString s) = Inr x \<Longrightarrow> x = s"
  by (auto simp add: requireText_def of_cbor_def split: if_splits)

lemma mapM_back:
  assumes "mapM f (map g xs) = Inr ys" "\<And>x y. f (g x) = Inr y \<Longrightarrow> y = x"
  shows "ys = xs"
  using assms(1) by (auto simp add: mapM_Inr list_all2_conv_all_nth intro!: nth_equalityI dest: assms(2))


lemma head_size: "length (cbor_head m n) \<le> 9"
  by (simp add: cbor_head_def)

text \<open>Upper bounds on the encoding of a flat array.\<close>

fun flat_size :: "js_value \<Rightarrow> nat" where
  "flat_size (JBytes b) = 9 + length b"
| "flat_size (JString s) = 9 + length (text_encode s)"
| "flat_size _ = 9"

inductive_cases js_encodes_arrayE: "js_encodes (JArray vs) c"

fun flat :: "js_value \<Rightarrow> bool" where
  "flat (JArray _) = False" | "flat (JMap _) = False" | "flat _ = True"

lemma flat_size: "js_encodes v c \<Longrightarrow> flat v \<Longrightarrow> length (cbor_encode c) \<le> flat_size v"
  by (induction rule: js_encodes.induct) (use head_size in \<open>auto intro: order_trans\<close>)

lemma flat_array_size:
  assumes "js_encodes (JArray vs) c" "list_all flat vs"
  shows "length (cbor_encode c) \<le> 9 + sum_list (map flat_size vs)"
proof -
  obtain cs where c: "c = CArray cs" "list_all2 js_encodes vs cs"
    using assms(1) by (rule js_encodes_arrayE)
  from c(2) assms(2) have "length (concat (map cbor_encode cs)) \<le> sum_list (map flat_size vs)"
    by (induction rule: list_all2_induct) (auto dest: flat_size)
  then show ?thesis
    using head_size [of 4 "length cs"] by (simp add: c(1))
qed

inductive_simps js_encodes_simps:
  "js_encodes JNull c" "js_encodes (JBool b) c" "js_encodes (JBytes bs) c" "js_encodes (JNumber n) c"
  "js_encodes (JBigint i) c" "js_encodes (JString s) c" "js_encodes (JMap fs) c"

lemma list_all2_det:
  "list_all2 P xs ys \<Longrightarrow> list_all2 Q xs zs \<Longrightarrow> (\<And>x y z. P x y \<Longrightarrow> Q x z \<Longrightarrow> y = z) \<Longrightarrow> ys = zs"
  by (induction arbitrary: zs rule: list_all2_induct) (auto simp add: list_all2_Cons1)

lemma encodes_det: "js_encodes v c \<Longrightarrow> js_encodes v c' \<Longrightarrow> c = c'"
proof (induction arbitrary: c' rule: js_encodes.induct)
  case (enc_array vs cs)
  obtain cs' where c': "c' = CArray cs'" "list_all2 js_encodes vs cs'"
    using enc_array.prems by (rule js_encodes_arrayE)
  have "cs = cs'"
    by (rule list_all2_det [OF enc_array.IH c'(2)]) blast
  with c' show ?case by simp
next
  case (enc_map fs ps)
  from enc_map.prems obtain ps' where c': "c' = CMap (sort_key fst ps')"
    "list_all2 (\<lambda>f (k, c). fst f = JNumber (Integral (int k)) \<and> js_encodes (snd f) c) fs ps'"
    unfolding js_encodes_simps by blast
  have "ps = ps'"
    by (rule list_all2_det [OF enc_map.IH c'(2)]) (simp add: case_prod_beta prod_eq_iff)
  with c'(1) show ?case by simp
qed (auto simp add: js_encodes_simps)

lemma encode_value_encodes:
  assumes "cborg_contract rt" "encode_value rt v = Inr b"
  obtains c where "js_encodes v c" "b = cbor_encode c"
proof -
  have "cb_encode rt v = Inr b"
    using assms(2) by (auto simp add: encode_value_def encodeCanonicalCbor_def res_simps simp del: validateValue.simps split: sum.splits)
  then show thesis
    using that assms(1) unfolding cborg_contract_def by blast
qed

section \<open>A sample runtime\<close>

text \<open>
  A runtime that knows finitely many values satisfies the contract, if the values have different encodings: the instance
  on which the properties that assume the contract are evaluated.
\<close>

definition table_runtime :: "(js_value \<times> cbor) list \<Rightarrow> cbor_runtime" where
  "table_runtime t = \<lparr>cb_nfc = (\<lambda>s. s),
     cb_encode = (\<lambda>x. case find (\<lambda>(v, c). x = v \<or> x = js_norm v) t of None \<Rightarrow> Inl CborError | Some (v, c) \<Rightarrow> Inr (cbor_encode c)),
     cb_decode = (\<lambda>b. case find (\<lambda>(v, c). b = cbor_encode c) t of None \<Rightarrow> Inl CborError | Some (v, c) \<Rightarrow> Inr (js_norm v))\<rparr>"

lemma find_Some_in: "find P xs = Some x \<Longrightarrow> x \<in> set xs \<and> P x"
  by (induction xs) (auto split: if_splits)

lemma table_contract:
  assumes entries: "\<And>v c. (v, c) \<in> set t \<Longrightarrow> js_encodes v c \<and> js_encodes (js_norm v) c \<and> js_norm (js_norm v) = js_norm v"
    and unique: "\<And>v c v' c'. (v, c) \<in> set t \<Longrightarrow> (v', c') \<in> set t \<Longrightarrow> cbor_encode c = cbor_encode c' \<longleftrightarrow> js_norm v = js_norm v'"
  shows "cborg_contract (table_runtime t)"
proof -
  have enc: "\<exists>v c. (v, c) \<in> set t \<and> (x = v \<or> x = js_norm v) \<and> b = cbor_encode c" if "cb_encode (table_runtime t) x = Inr b" for x b
    using that by (auto simp add: table_runtime_def split: option.splits dest!: find_Some_in)
  have dec: "\<exists>v c. (v, c) \<in> set t \<and> b = cbor_encode c \<and> x = js_norm v" if "cb_decode (table_runtime t) b = Inr x" for x b
    using that by (auto simp add: table_runtime_def split: option.splits dest!: find_Some_in)
  have enc': "\<exists>b. cb_encode (table_runtime t) x = Inr b" if "(v, c) \<in> set t" "x = v \<or> x = js_norm v" for x v c
    using that by (auto simp add: table_runtime_def find_None_iff split: option.splits)
  have dec': "\<exists>x. cb_decode (table_runtime t) (cbor_encode c) = Inr x" if "(v, c) \<in> set t" for v c
    using that by (auto simp add: table_runtime_def find_None_iff split: option.splits)
  show ?thesis
    unfolding cborg_contract_def
  proof (intro conjI allI impI)
    fix v b assume "cb_encode (table_runtime t) v = Inr b"
    then obtain w c where w: "(w, c) \<in> set t" "v = w \<or> v = js_norm w" "b = cbor_encode c"
      using enc by blast
    then show "\<exists>c. js_encodes v c \<and> b = cbor_encode c"
      using entries by blast
    have "js_norm v = js_norm w"
      using w entries by auto
    then show "cb_decode (table_runtime t) b = Inr (js_norm v)"
      using dec' [OF w(1)] dec unique w by metis
  next
    fix v b assume "cb_decode (table_runtime t) b = Inr v"
    then obtain w c where w: "(w, c) \<in> set t" "b = cbor_encode c" "v = js_norm w"
      using dec by blast
    then show "js_norm v = v"
      using entries by simp
    show "cb_encode (table_runtime t) v = Inr b"
      using enc' [OF w(1), of v] enc unique w entries by metis
  qed
qed

lemma enc_unsigned:
  "i = int n \<Longrightarrow> n < 256 ^ 8 \<Longrightarrow> js_encodes (JNumber (Integral i)) (CUnsigned n)"
  "i = int n \<Longrightarrow> n < 256 ^ 8 \<Longrightarrow> js_encodes (JBigint i) (CUnsigned n)"
  using enc_number enc_bigint by auto

lemmas js_encodes_intros = enc_null enc_bytes enc_string enc_array enc_unsigned

abbreviation JInt :: "int \<Rightarrow> js_value" where "JInt i \<equiv> JNumber (Integral i)"

lemma enc_sorted_map:
  assumes "list_all2 (\<lambda>f (k, c). fst f = JInt (int k) \<and> js_encodes (snd f) c) fs ps" "sorted_wrt (<) (map fst ps)"
  shows "js_encodes (JMap fs) (CMap ps)"
proof -
  have "sort_key fst ps = ps" "distinct (map fst ps)"
    using assms(2) by (auto intro: sort_key_id_if_sorted simp add: strict_sorted_iff)
  then show ?thesis
    using enc_map [OF assms(1)] by simp
qed

lemma table_contract_plain:
  assumes "\<And>v c. (v, c) \<in> set t \<Longrightarrow> js_encodes v c \<and> js_norm v = v"
    and "distinct (map (\<lambda>e. length (cbor_encode (snd e))) t)"
  shows "cborg_contract (table_runtime t)"
proof (rule table_contract)
  show "js_encodes v c \<and> js_encodes (js_norm v) c \<and> js_norm (js_norm v) = js_norm v" if "(v, c) \<in> set t" for v c
    using assms(1) [OF that] by simp
  show "cbor_encode c = cbor_encode c' \<longleftrightarrow> js_norm v = js_norm v'" if e: "(v, c) \<in> set t" "(v', c') \<in> set t" for v c v' c'
  proof
    assume "cbor_encode c = cbor_encode c'"
    then have "(v, c) = (v', c')"
      using assms(2) e by (auto simp add: distinct_map dest!: inj_onD [of _ _ "(v, c)" "(v', c')"])
    then show "js_norm v = js_norm v'" by simp
  next
    assume "js_norm v = js_norm v'"
    then have "v = v'" "js_encodes v c" "js_encodes v' c'"
      using assms(1) [OF e(1)] assms(1) [OF e(2)] by simp_all
    then show "cbor_encode c = cbor_encode c'"
      using encodes_det by blast
  qed
qed

lemma table_encode:
  assumes "cborg_contract (table_runtime t)" "(v, c) \<in> set t" "js_encodes v c"
    and "js_wf (\<lambda>s. isWellFormedUnicode s \<and> s = s) 0 v"
  shows "encode_value (table_runtime t) v = Inr (cbor_encode c)"
proof -
  obtain b where b: "cb_encode (table_runtime t) v = Inr b"
    using assms(2) by (cases "find (\<lambda>(w, c). v = w \<or> v = js_norm w) t") (auto simp add: table_runtime_def find_None_iff)
  then obtain c' where "js_encodes v c'" "b = cbor_encode c'"
    using assms(1) unfolding cborg_contract_def by blast
  then have "b = cbor_encode c"
    using assms(3) encodes_det by blast
  moreover have "validateValue (validateText (cb_nfc (table_runtime t))) 0 v = Inr ()"
    unfolding validateValue_wf using assms(4) by (simp add: table_runtime_def)
  ultimately show ?thesis
    using b by (simp add: encode_value_def encodeCanonicalCbor_def of_cbor_def del: validateValue.simps)
qed

end
