(* ===== verification/Peer_Controls.thy ===== *)
theory Peer_Controls
  imports Cbor_Runtime
begin

text \<open>
The peer and TURN controls of a session, \<^verbatim>\<open>web/src/protocol/peer-path-control.ts\<close> and
  \<^verbatim>\<open>web/src/protocol/turn-control.ts\<close>, each an encoder and a decoder with the validation of every field, and the pool
  of peer negotiation slots, \<^verbatim>\<open>web/src/session/peer-slots/slots.ts\<close>. The lemmas show the round trips under the contract
  of the CBOR package, and that the pool issues no attempt ordinal twice. A control field of the runtime type number is an
  integer here; the encoder refuses every other number.
\<close>

section \<open>Peer slots\<close>

definition PEER_CONTINUATION_SLOTS :: nat where "PEER_CONTINUATION_SLOTS = 4"
definition SLOT_MAXIMUM_SEQUENCE :: int where "SLOT_MAXIMUM_SEQUENCE = 0xffffffffffffffff"

definition requirePeerSlot :: "int \<Rightarrow> message_error + int" where
  "requirePeerSlot v = (if v < 0 \<or> v \<ge> int PEER_CONTINUATION_SLOTS then Inl MessageRangeError else Inr v)"

section \<open>Peer path controls\<close>

definition PATH_demand :: int where "PATH_demand = 1"
definition PATH_revoke :: int where "PATH_revoke = 2"
definition PATH_mappingReady :: int where "PATH_mappingReady = 3"
definition PATH_networkChanged :: int where "PATH_networkChanged = 4"
definition MAXIMUM_PATH_CONTROL_LIFETIME_MS :: int where "MAXIMUM_PATH_CONTROL_LIFETIME_MS = 120000"
definition PATH_SCHEMA_VERSION :: int where "PATH_SCHEMA_VERSION = 2"
definition PATH_FIELD_COUNT :: nat where "PATH_FIELD_COUNT = 8"
definition MAXIMUM_PROVIDER_PROFILE_LENGTH :: nat where "MAXIMUM_PROVIDER_PROFILE_LENGTH = 64"
definition PATH_MAXIMUM_BODY_BYTES :: int where "PATH_MAXIMUM_BODY_BYTES = 256"
definition PATH_MAXIMUM_SEQUENCE :: int where "PATH_MAXIMUM_SEQUENCE = 0xffffffffffffffff"

lemmas path_constants = PATH_demand_def PATH_revoke_def PATH_mappingReady_def PATH_networkChanged_def
  MAXIMUM_PATH_CONTROL_LIFETIME_MS_def PATH_SCHEMA_VERSION_def PATH_FIELD_COUNT_def
  MAXIMUM_PROVIDER_PROFILE_LENGTH_def PATH_MAXIMUM_BODY_BYTES_def PATH_MAXIMUM_SEQUENCE_def

record peer_path_control =
  pc_peerPathId :: bytes
  pc_networkGenerationId :: bytes
  pc_controlSequence :: int
  pc_kind :: js_number
  pc_validForMilliseconds :: js_number
  pc_holdForMilliseconds :: js_number
  pc_providerProfile :: utf16

text \<open>The characters outside \<^verbatim>\<open>[^a-z0-9.-]\<close>.\<close>

definition profile_char :: "16 word \<Rightarrow> bool" where
  "profile_char c \<longleftrightarrow> (0x61 \<le> c \<and> c \<le> 0x7a) \<or> (0x30 \<le> c \<and> c \<le> 0x39) \<or> c = 0x2e \<or> c = 0x2d"

definition validate_path_control :: "peer_path_control \<Rightarrow> message_error + unit" where
  "validate_path_control v =
     (if length (pc_providerProfile v) > MAXIMUM_PROVIDER_PROFILE_LENGTH \<or> \<not> list_all profile_char (pc_providerProfile v)
      then Inl PlainError
      else bindE (byte_field (JBytes (pc_peerPathId v)) (Some 16) True) (\<lambda>_.
      bindE (byte_field (JBytes (pc_networkGenerationId v)) (Some 16) True) (\<lambda>_.
      if pc_controlSequence v \<le> 0 \<or> pc_controlSequence v > PATH_MAXIMUM_SEQUENCE \<or>
         \<not> integer_between PATH_demand PATH_networkChanged (pc_kind v) then Inl PlainError
      else if \<not> integer_between 0 MAXIMUM_PATH_CONTROL_LIFETIME_MS (pc_validForMilliseconds v) \<or>
              \<not> integer_between 0 (js_int (pc_validForMilliseconds v)) (pc_holdForMilliseconds v) \<or>
              ((pc_kind v = Integral PATH_revoke) \<noteq> (pc_validForMilliseconds v = Integral 0)) \<or>
              (pc_kind v \<noteq> Integral PATH_demand \<and> pc_holdForMilliseconds v \<noteq> Integral 0) then Inl PlainError
      else Inr ())))"

definition path_fields :: "peer_path_control \<Rightarrow> js_value" where
  "path_fields v = JArray [JNumber (Integral PATH_SCHEMA_VERSION), JBytes (pc_peerPathId v), JBytes (pc_networkGenerationId v),
     JBigint (pc_controlSequence v), JNumber (pc_kind v), JNumber (pc_validForMilliseconds v),
     JNumber (pc_holdForMilliseconds v), JString (pc_providerProfile v)]"

definition encodePeerPathControl :: "cbor_runtime \<Rightarrow> peer_path_control \<Rightarrow> message_error + bytes" where
  "encodePeerPathControl rt v = bindE (validate_path_control v) (\<lambda>_. encode_value rt (path_fields v))"

text \<open>
  \<^verbatim>\<open>Number(n)\<close> of a bigint: exact up to the safe integers.  Beyond them the double differs from the integer but is
  still far above every limit it is compared with here.
\<close>

definition decodePeerPathControl :: "cbor_runtime \<Rightarrow> bytes \<Rightarrow> message_error + peer_path_control" where
  "decodePeerPathControl rt body =
     bindE (decode_body rt body PATH_MAXIMUM_BODY_BYTES) (\<lambda>decoded.
     bindE (array_of decoded PATH_FIELD_COUNT) (\<lambda>fs.
     if length fs \<noteq> PATH_FIELD_COUNT then Inl PlainError
     else bindE (unsigned_field (item_at fs 0)) (\<lambda>schema.
     if schema \<noteq> PATH_SCHEMA_VERSION then Inl PlainError
     else bindE (byte_field (item_at fs 1) (Some 16) True) (\<lambda>path.
     bindE (byte_field (item_at fs 2) (Some 16) True) (\<lambda>network.
     bindE (unsigned_field (item_at fs 3)) (\<lambda>sequence.
     bindE (unsigned_field (item_at fs 4)) (\<lambda>kind.
     bindE (unsigned_field (item_at fs 5)) (\<lambda>valid.
     bindE (unsigned_field (item_at fs 6)) (\<lambda>hold.
     bindE (text_field rt (item_at fs 7)) (\<lambda>profile.
     let value = \<lparr>pc_peerPathId = path, pc_networkGenerationId = network, pc_controlSequence = sequence,
                  pc_kind = Integral kind, pc_validForMilliseconds = Integral valid,
                  pc_holdForMilliseconds = Integral hold, pc_providerProfile = profile\<rparr> in
     bindE (validate_path_control value) (\<lambda>_. Inr value)))))))))))"

section \<open>TURN controls\<close>

definition TURN_DEMAND_LIFETIME_MS :: int where "TURN_DEMAND_LIFETIME_MS = 120000"
definition TURN_MAX_CREDENTIAL_LIFETIME_MS :: int where "TURN_MAX_CREDENTIAL_LIFETIME_MS = 48 * 60 * 60 * 1000"
definition TURN_SCHEMA :: int where "TURN_SCHEMA = 4"
definition TURN_MAX_BODY_BYTES :: int where "TURN_MAX_BODY_BYTES = 8192"
definition TURN_MAX_URLS :: nat where "TURN_MAX_URLS = 8"
definition TURN_MAX_SECRET_BYTES :: nat where "TURN_MAX_SECRET_BYTES = 1024"
definition TURN_MAX_URL_BYTES :: nat where "TURN_MAX_URL_BYTES = 512"

lemmas turn_constants = TURN_DEMAND_LIFETIME_MS_def TURN_MAX_CREDENTIAL_LIFETIME_MS_def TURN_SCHEMA_def
  TURN_MAX_BODY_BYTES_def TURN_MAX_URLS_def TURN_MAX_SECRET_BYTES_def TURN_MAX_URL_BYTES_def

record turn_header =
  th_sessionId :: bytes
  th_ownerPathId :: bytes
  th_sequence :: int

datatype turn_credentials = Fixed utf16 utf16 | Expiring utf16 utf16 int

record turn_grant =
  tg_pathId :: bytes
  tg_replaces :: bytes
  tg_provider :: utf16
  tg_account :: utf16
  tg_profile :: utf16
  tg_credentials :: turn_credentials
  tg_urls :: "utf16 list"

record turn_quality =
  tq_pathId :: bytes
  tq_laneId :: int
  tq_laneEpoch :: int
  tq_networkGeneration :: bytes
  tq_sampleSequence :: int
  tq_contentBytes :: int
  tq_busyMilliseconds :: int
  tq_pendingBytes :: int

datatype turn_body =
  Turn_demand int
| Turn_grant turn_grant
| Turn_ready bytes int int
| Turn_retire bytes int
| Turn_unavailable utf16 int utf16
| Turn_available "utf16 list"
| Turn_report bytes int
| Turn_recover bytes int
| Turn_quality turn_quality

fun turn_kind :: "turn_body \<Rightarrow> int" where
  "turn_kind (Turn_demand _) = 1"
| "turn_kind (Turn_grant _) = 2"
| "turn_kind (Turn_ready _ _ _) = 3"
| "turn_kind (Turn_retire _ _) = 4"
| "turn_kind (Turn_unavailable _ _ _) = 5"
| "turn_kind (Turn_available _) = 6"
| "turn_kind (Turn_report _ _) = 7"
| "turn_kind (Turn_recover _ _) = 8"
| "turn_kind (Turn_quality _) = 9"

fun turn_body_fields :: "turn_body \<Rightarrow> js_value list" where
  "turn_body_fields (Turn_demand hold) = [JNumber (Integral hold)]"
| "turn_body_fields (Turn_grant g) =
     [JBytes (tg_pathId g), JBytes (tg_replaces g), JString (tg_provider g), JString (tg_account g), JString (tg_profile g)] @
     (case tg_credentials g of
        Fixed username password \<Rightarrow> [JNumber (Integral 1), JString username, JString password, JNumber (Integral 0)]
      | Expiring username password valid \<Rightarrow>
          [JNumber (Integral 2), JString username, JString password, JNumber (Integral valid)]) @
     [JArray (map JString (tg_urls g))]"
| "turn_body_fields (Turn_ready path lane epoch) = [JBytes path, JNumber (Integral lane), JNumber (Integral epoch)]"
| "turn_body_fields (Turn_retire path reason) = [JBytes path, JNumber (Integral reason)]"
| "turn_body_fields (Turn_unavailable profile retry reason) =
     [JString profile, JNumber (Integral retry), JString reason]"
| "turn_body_fields (Turn_available profiles) = [JArray (map JString profiles)]"
| "turn_body_fields (Turn_report path useful) = [JBytes path, JBigint useful]"
| "turn_body_fields (Turn_recover path reason) = [JBytes path, JNumber (Integral reason)]"
| "turn_body_fields (Turn_quality q) =
     [JBytes (tq_pathId q), JNumber (Integral (tq_laneId q)), JNumber (Integral (tq_laneEpoch q)),
      JBytes (tq_networkGeneration q), JBigint (tq_sampleSequence q), JBigint (tq_contentBytes q),
      JBigint (tq_busyMilliseconds q), JBigint (tq_pendingBytes q)]"

definition turn_fields :: "turn_header \<Rightarrow> turn_body \<Rightarrow> js_value" where
  "turn_fields h b = JArray ([JNumber (Integral TURN_SCHEMA), JNumber (Integral (turn_kind b)), JBytes (th_sessionId h),
     JBytes (th_ownerPathId h), JBigint (th_sequence h)] @ turn_body_fields b)"

definition turn_count :: "js_value list \<Rightarrow> nat \<Rightarrow> message_error + unit" where
  "turn_count fs n = (if length fs \<noteq> n then Inl MessageTypeError else Inr ())"

definition turn_duration :: "js_value \<Rightarrow> int \<Rightarrow> message_error + int" where
  "turn_duration v maximum = bindE (unsigned_field v) (\<lambda>n. if n > maximum then Inl MessageRangeError else Inr n)"

definition turn_text :: "cbor_runtime \<Rightarrow> js_value \<Rightarrow> nat \<Rightarrow> message_error + utf16" where
  "turn_text rt v maximum =
     bindE (text_field rt v) (\<lambda>t. if length t = 0 \<or> length (text_encode t) > maximum then Inl MessageTypeError else Inr t)"

text \<open>The characters of \<^verbatim>\<open>[a-zA-Z0-9_.-]\<close>.\<close>

definition identifier_char :: "16 word \<Rightarrow> bool" where
  "identifier_char c \<longleftrightarrow> (0x61 \<le> c \<and> c \<le> 0x7a) \<or> (0x41 \<le> c \<and> c \<le> 0x5a) \<or> (0x30 \<le> c \<and> c \<le> 0x39) \<or>
     c = 0x5f \<or> c = 0x2e \<or> c = 0x2d"

definition turn_identifier :: "cbor_runtime \<Rightarrow> js_value \<Rightarrow> message_error + utf16" where
  "turn_identifier rt v =
     bindE (turn_text rt v 64) (\<lambda>t. if \<not> (t \<noteq> [] \<and> list_all identifier_char t) then Inl MessageTypeError else Inr t)"

definition turn_lane :: "js_value \<Rightarrow> message_error + int" where
  "turn_lane v = bindE (unsigned_field v) (\<lambda>n. if n = 0 \<or> n > 0xffffffff then Inl MessageRangeError else Inr n)"

definition turn_unsigned64 :: "js_value \<Rightarrow> message_error + int" where
  "turn_unsigned64 v = bindE (unsigned_field v) (\<lambda>n. if n > 0xffffffffffffffff then Inl MessageRangeError else Inr n)"

definition decodeGrant :: "cbor_runtime \<Rightarrow> js_value list \<Rightarrow> message_error + turn_grant" where
  "decodeGrant rt fs =
     bindE (turn_count fs 15) (\<lambda>_.
     bindE (unsigned_field (item_at fs 10)) (\<lambda>credentialKind.
     bindE (turn_duration (item_at fs 13) TURN_MAX_CREDENTIAL_LIFETIME_MS) (\<lambda>valid.
     if (credentialKind \<noteq> 1 \<and> credentialKind \<noteq> 2) \<or> ((credentialKind = 1) \<noteq> (valid = 0)) then Inl MessageTypeError
     else bindE (byte_field (item_at fs 5) (Some 16) True) (\<lambda>path.
     bindE (byte_field (item_at fs 6) (Some 16) False) (\<lambda>replaces.
     if path = replaces then Inl MessageTypeError
     else bindE (turn_text rt (item_at fs 11) TURN_MAX_SECRET_BYTES) (\<lambda>username.
     bindE (turn_text rt (item_at fs 12) TURN_MAX_SECRET_BYTES) (\<lambda>password.
     bindE (array_of (item_at fs 14) TURN_MAX_URLS) (\<lambda>raw.
     bindE (mapM (\<lambda>v. turn_text rt v TURN_MAX_URL_BYTES) raw) (\<lambda>urls.
     if urls = [] then Inl MessageRangeError
     else bindE (turn_identifier rt (item_at fs 7)) (\<lambda>provider.
     bindE (turn_identifier rt (item_at fs 8)) (\<lambda>account.
     bindE (turn_identifier rt (item_at fs 9)) (\<lambda>profile.
     Inr \<lparr>tg_pathId = path, tg_replaces = replaces, tg_provider = provider, tg_account = account, tg_profile = profile,
          tg_credentials = (if credentialKind = 1 then Fixed username password else Expiring username password valid),
          tg_urls = urls\<rparr>))))))))))))"

definition decode_turn_body :: "cbor_runtime \<Rightarrow> js_value list \<Rightarrow> int \<Rightarrow> message_error + turn_body" where
  "decode_turn_body rt fs kind =
     (if kind = 1 then
        bindE (turn_count fs 6) (\<lambda>_. bindE (turn_duration (item_at fs 5) TURN_DEMAND_LIFETIME_MS) (\<lambda>hold.
        Inr (Turn_demand hold)))
      else if kind = 2 then bindE (decodeGrant rt fs) (\<lambda>g. Inr (Turn_grant g))
      else if kind = 9 then
        bindE (turn_count fs 13) (\<lambda>_. bindE (turn_unsigned64 (item_at fs 9)) (\<lambda>sample.
        if sample = 0 then Inl MessageRangeError
        else bindE (byte_field (item_at fs 5) (Some 16) True) (\<lambda>path.
        bindE (turn_lane (item_at fs 6)) (\<lambda>lane. bindE (turn_lane (item_at fs 7)) (\<lambda>epoch.
        bindE (byte_field (item_at fs 8) (Some 16) False) (\<lambda>network.
        bindE (turn_unsigned64 (item_at fs 10)) (\<lambda>content. bindE (turn_unsigned64 (item_at fs 11)) (\<lambda>busy.
        bindE (turn_unsigned64 (item_at fs 12)) (\<lambda>pending.
        Inr (Turn_quality \<lparr>tq_pathId = path, tq_laneId = lane, tq_laneEpoch = epoch, tq_networkGeneration = network,
          tq_sampleSequence = sample, tq_contentBytes = content, tq_busyMilliseconds = busy,
          tq_pendingBytes = pending\<rparr>))))))))))
      else if kind = 3 then
        bindE (turn_count fs 8) (\<lambda>_. bindE (byte_field (item_at fs 5) (Some 16) True) (\<lambda>path.
        bindE (turn_lane (item_at fs 6)) (\<lambda>lane. bindE (turn_lane (item_at fs 7)) (\<lambda>epoch.
        Inr (Turn_ready path lane epoch)))))
      else if kind = 7 then
        bindE (turn_count fs 7) (\<lambda>_. bindE (unsigned_field (item_at fs 6)) (\<lambda>useful.
        if useful > 0xffffffffffffffff then Inl MessageRangeError
        else bindE (byte_field (item_at fs 5) (Some 16) True) (\<lambda>path. Inr (Turn_report path useful))))
      else if kind = 8 then
        bindE (turn_count fs 7) (\<lambda>_. bindE (unsigned_field (item_at fs 6)) (\<lambda>reason.
        if reason < 1 \<or> reason > 2 then Inl MessageTypeError
        else bindE (byte_field (item_at fs 5) (Some 16) True) (\<lambda>path. Inr (Turn_recover path reason))))
      else if kind = 4 then
        bindE (turn_count fs 7) (\<lambda>_. bindE (unsigned_field (item_at fs 6)) (\<lambda>reason.
        if reason < 1 \<or> reason > 6 then Inl MessageTypeError
        else bindE (byte_field (item_at fs 5) (Some 16) True) (\<lambda>path. Inr (Turn_retire path reason))))
      else if kind = 5 then
        bindE (turn_count fs 8) (\<lambda>_. bindE (turn_identifier rt (item_at fs 5)) (\<lambda>profile.
        bindE (turn_duration (item_at fs 6) TURN_DEMAND_LIFETIME_MS) (\<lambda>retry.
        bindE (turn_text rt (item_at fs 7) TURN_MAX_SECRET_BYTES) (\<lambda>reason.
        Inr (Turn_unavailable profile retry reason)))))
      else if kind = 6 then
        bindE (turn_count fs 6) (\<lambda>_. bindE (array_of (item_at fs 5) TURN_MAX_URLS) (\<lambda>raw.
        bindE (mapM (turn_identifier rt) raw) (\<lambda>profiles. Inr (Turn_available profiles))))
      else Inl MessageTypeError)"

definition decodeTurnControl :: "cbor_runtime \<Rightarrow> bytes \<Rightarrow> message_error + turn_header \<times> turn_body" where
  "decodeTurnControl rt body =
     bindE (decode_body rt body TURN_MAX_BODY_BYTES) (\<lambda>decoded.
     bindE (array_of decoded 15) (\<lambda>fs.
     if length fs < 6 then Inl MessageTypeError
     else bindE (unsigned_field (item_at fs 0)) (\<lambda>schema.
     if schema \<noteq> TURN_SCHEMA then Inl MessageTypeError
     else bindE (byte_field (item_at fs 2) (Some 16) True) (\<lambda>session.
     bindE (byte_field (item_at fs 3) (Some 16) True) (\<lambda>owner.
     bindE (unsigned_field (item_at fs 4)) (\<lambda>sequence.
     if sequence = 0 \<or> sequence > 0xffffffffffffffff then Inl MessageRangeError
     else bindE (unsigned_field (item_at fs 1)) (\<lambda>kind.
     bindE (decode_turn_body rt fs kind) (\<lambda>b.
     Inr (\<lparr>th_sessionId = session, th_ownerPathId = owner, th_sequence = sequence\<rparr>, b)))))))))"

definition encodeTurnControl :: "cbor_runtime \<Rightarrow> turn_header \<Rightarrow> turn_body \<Rightarrow> message_error + bytes" where
  "encodeTurnControl rt h b =
     bindE (encode_value rt (turn_fields h b)) (\<lambda>body. bindE (decodeTurnControl rt body) (\<lambda>_. Inr body))"



section \<open>Peer negotiation slots\<close>

text \<open>
  \<^verbatim>\<open>PeerSlotPool\<close>: a slot is its watermark and whether a lease holds it, and a lease is the slot it names and its own
  \<^verbatim>\<open>closed\<close> flag. Leases are numbered in the order in which they were handed out.
\<close>

record peer_slot =
  sl_sequence :: int
  sl_occupied :: bool

record peer_lease =
  ls_slot :: nat
  ls_closed :: bool

record peer_pool =
  pp_slots :: "peer_slot list"
  pp_leases :: "peer_lease list"

definition new_pool :: peer_pool where
  "new_pool = \<lparr>pp_slots = replicate PEER_CONTINUATION_SLOTS \<lparr>sl_sequence = 0, sl_occupied = False\<rparr>, pp_leases = []\<rparr>"

text \<open>\<^verbatim>\<open>findIndex\<close>.\<close>

fun findIndex :: "('a \<Rightarrow> bool) \<Rightarrow> 'a list \<Rightarrow> nat option" where
  "findIndex P [] = None"
| "findIndex P (x # xs) = (if P x then Some 0 else map_option Suc (findIndex P xs))"

definition slot_acquire :: "peer_pool \<Rightarrow> message_error + nat \<times> peer_pool" where
  "slot_acquire p =
     (case findIndex (\<lambda>s. \<not> sl_occupied s \<and> sl_sequence s < SLOT_MAXIMUM_SEQUENCE) (pp_slots p) of
        None \<Rightarrow> Inl MessageRangeError
      | Some i \<Rightarrow> Inr (length (pp_leases p),
          p\<lparr>pp_slots := (pp_slots p)[i := (pp_slots p ! i)\<lparr>sl_occupied := True\<rparr>],
            pp_leases := pp_leases p @ [\<lparr>ls_slot = i, ls_closed = False\<rparr>]\<rparr>))"

definition lease_next :: "nat \<Rightarrow> peer_pool \<Rightarrow> message_error + (nat \<times> int) \<times> peer_pool" where
  "lease_next l p =
     (let lease = pp_leases p ! l; slot = pp_slots p ! ls_slot lease in
      if ls_closed lease then Inl PlainError
      else if sl_sequence slot = SLOT_MAXIMUM_SEQUENCE then Inl MessageRangeError
      else Inr ((ls_slot lease, sl_sequence slot + 1),
        p\<lparr>pp_slots := (pp_slots p)[ls_slot lease := slot\<lparr>sl_sequence := sl_sequence slot + 1\<rparr>]\<rparr>))"

definition lease_close :: "nat \<Rightarrow> peer_pool \<Rightarrow> peer_pool" where
  "lease_close l p =
     (let lease = pp_leases p ! l in
      if ls_closed lease then p
      else p\<lparr>pp_slots := (pp_slots p)[ls_slot lease := (pp_slots p ! ls_slot lease)\<lparr>sl_occupied := False\<rparr>],
             pp_leases := (pp_leases p)[l := lease\<lparr>ls_closed := True\<rparr>]\<rparr>)"

text \<open>A history of calls on the pool and its leases, with the ordinals it hands out. A call that throws changes nothing.\<close>

datatype pool_call = Acquire | Next nat | Close nat

fun pool_run :: "pool_call list \<Rightarrow> peer_pool \<Rightarrow> (nat \<times> nat \<times> int) list \<times> peer_pool" where
  "pool_run [] p = ([], p)"
| "pool_run (Acquire # cs) p = (case slot_acquire p of Inl _ \<Rightarrow> pool_run cs p | Inr (_, p') \<Rightarrow> pool_run cs p')"
| "pool_run (Next l # cs) p =
     (if l < length (pp_leases p) then
        (case lease_next l p of
           Inl _ \<Rightarrow> pool_run cs p
         | Inr (ordinal, p') \<Rightarrow> apfst ((#) (l, ordinal)) (pool_run cs p'))
      else pool_run cs p)"
| "pool_run (Close l # cs) p = pool_run cs (if l < length (pp_leases p) then lease_close l p else p)"

subsection \<open>Ordinals are unique\<close>

lemma findIndex_Some: "findIndex P xs = Some i \<Longrightarrow> i < length xs \<and> P (xs ! i)"
  by (induction xs arbitrary: i) (auto split: if_splits)

text \<open>
  A slot is occupied exactly while one open lease names it, and its watermark stays in the range of the sequence.
\<close>

definition pool_inv :: "peer_pool \<Rightarrow> bool" where
  "pool_inv p \<longleftrightarrow> length (pp_slots p) = PEER_CONTINUATION_SLOTS \<and>
     (\<forall>s \<in> set (pp_slots p). 0 \<le> sl_sequence s \<and> sl_sequence s \<le> SLOT_MAXIMUM_SEQUENCE) \<and>
     (\<forall>l < length (pp_leases p). ls_slot (pp_leases p ! l) < PEER_CONTINUATION_SLOTS \<and>
        (\<not> ls_closed (pp_leases p ! l) \<longrightarrow> sl_occupied (pp_slots p ! ls_slot (pp_leases p ! l)))) \<and>
     (\<forall>l < length (pp_leases p). \<forall>m < length (pp_leases p).
        \<not> ls_closed (pp_leases p ! l) \<longrightarrow> \<not> ls_closed (pp_leases p ! m) \<longrightarrow>
        ls_slot (pp_leases p ! l) = ls_slot (pp_leases p ! m) \<longrightarrow> l = m)"

lemma new_pool_inv: "pool_inv new_pool"
  by (simp add: pool_inv_def new_pool_def SLOT_MAXIMUM_SEQUENCE_def)

lemma acquire_inv:
  assumes inv: "pool_inv p" and a: "slot_acquire p = Inr (l, p')"
  shows "pool_inv p'"
proof -
  obtain i where i: "findIndex (\<lambda>s. \<not> sl_occupied s \<and> sl_sequence s < SLOT_MAXIMUM_SEQUENCE) (pp_slots p) = Some i"
    and p': "p' = p\<lparr>pp_slots := (pp_slots p)[i := (pp_slots p ! i)\<lparr>sl_occupied := True\<rparr>],
            pp_leases := pp_leases p @ [\<lparr>ls_slot = i, ls_closed = False\<rparr>]\<rparr>"
    using a by (auto simp add: slot_acquire_def split: option.splits)
  note f = findIndex_Some [OF i]
  have len: "length (pp_slots p) = PEER_CONTINUATION_SLOTS"
    and seqs: "\<forall>s \<in> set (pp_slots p). 0 \<le> sl_sequence s \<and> sl_sequence s \<le> SLOT_MAXIMUM_SEQUENCE"
    and occ: "\<And>m. m < length (pp_leases p) \<Longrightarrow> ls_slot (pp_leases p ! m) < PEER_CONTINUATION_SLOTS \<and>
        (\<not> ls_closed (pp_leases p ! m) \<longrightarrow> sl_occupied (pp_slots p ! ls_slot (pp_leases p ! m)))"
    and uniq: "\<And>l m. l < length (pp_leases p) \<Longrightarrow> m < length (pp_leases p) \<Longrightarrow>
        \<not> ls_closed (pp_leases p ! l) \<Longrightarrow> \<not> ls_closed (pp_leases p ! m) \<Longrightarrow>
        ls_slot (pp_leases p ! l) = ls_slot (pp_leases p ! m) \<Longrightarrow> l = m"
    using inv unfolding pool_inv_def by blast+
  have other: "ls_slot (pp_leases p ! m) \<noteq> i" if "m < length (pp_leases p)" "\<not> ls_closed (pp_leases p ! m)" for m
    using occ [OF that(1)] that(2) f by auto
  show ?thesis
    unfolding pool_inv_def
  proof (intro conjI allI impI ballI)
    fix s assume "s \<in> set (pp_slots p')"
    then consider "s \<in> set (pp_slots p)" | "s = (pp_slots p ! i)\<lparr>sl_occupied := True\<rparr>"
      unfolding p' using set_update_subset_insert by fastforce
    then show "0 \<le> sl_sequence s" "sl_sequence s \<le> SLOT_MAXIMUM_SEQUENCE"
      using seqs f by (cases; force)+
  qed (use len occ uniq other f in \<open>auto simp add: p' nth_append nth_list_update less_Suc_eq\<close>)
qed

lemma next_inv:
  assumes inv: "pool_inv p" and l: "l < length (pp_leases p)" and n: "lease_next l p = Inr (o1, p')"
  shows "pool_inv p'"
proof -
  let ?i = "ls_slot (pp_leases p ! l)"
  have i: "?i < length (pp_slots p)"
    using inv l by (simp add: pool_inv_def)
  then have s: "0 \<le> sl_sequence (pp_slots p ! ?i)" "sl_sequence (pp_slots p ! ?i) \<le> SLOT_MAXIMUM_SEQUENCE"
    using inv by (auto simp add: pool_inv_def)
  have p': "p' = p\<lparr>pp_slots := (pp_slots p)[?i := (pp_slots p ! ?i)\<lparr>sl_sequence := sl_sequence (pp_slots p ! ?i) + 1\<rparr>]\<rparr>"
    and open1: "sl_sequence (pp_slots p ! ?i) \<noteq> SLOT_MAXIMUM_SEQUENCE"
    using n by (auto simp add: lease_next_def Let_def split: if_splits)
  have "\<forall>s \<in> set (pp_slots p'). 0 \<le> sl_sequence s \<and> sl_sequence s \<le> SLOT_MAXIMUM_SEQUENCE"
  proof
    fix x assume "x \<in> set (pp_slots p')"
    then have "x \<in> set (pp_slots p) \<or> x = (pp_slots p ! ?i)\<lparr>sl_sequence := sl_sequence (pp_slots p ! ?i) + 1\<rparr>"
      unfolding p' using set_update_subset_insert by fastforce
    then show "0 \<le> sl_sequence x \<and> sl_sequence x \<le> SLOT_MAXIMUM_SEQUENCE"
      using s open1 inv by (auto simp add: pool_inv_def)
  qed
  moreover have "sl_occupied (pp_slots p' ! k) = sl_occupied (pp_slots p ! k)" for k
    using i by (cases "k = ?i") (simp_all add: p')
  ultimately show ?thesis
    using inv by (simp add: pool_inv_def p')
qed

lemma close_inv:
  assumes inv: "pool_inv p" and l: "l < length (pp_leases p)"
  shows "pool_inv (lease_close l p)"
proof (cases "ls_closed (pp_leases p ! l)")
  case True
  then show ?thesis using inv by (simp add: lease_close_def)
next
  case False
  let ?i = "ls_slot (pp_leases p ! l)"
  define p' where "p' = lease_close l p"
  have p': "p' = p\<lparr>pp_slots := (pp_slots p)[?i := (pp_slots p ! ?i)\<lparr>sl_occupied := False\<rparr>],
             pp_leases := (pp_leases p)[l := (pp_leases p ! l)\<lparr>ls_closed := True\<rparr>]\<rparr>"
    using False by (simp add: p'_def lease_close_def Let_def)
  have i: "?i < length (pp_slots p)"
    using inv l by (simp add: pool_inv_def)
  have uniq: "ls_slot (pp_leases p ! m) \<noteq> ?i" if "m < length (pp_leases p)" "\<not> ls_closed (pp_leases p ! m)" "m \<noteq> l" for m
    using inv that l False unfolding pool_inv_def by metis
  have leases: "length (pp_leases p') = length (pp_leases p)"
    "\<And>m. m < length (pp_leases p) \<Longrightarrow> ls_slot (pp_leases p' ! m) = ls_slot (pp_leases p ! m)"
    "\<And>m. m < length (pp_leases p) \<Longrightarrow> ls_closed (pp_leases p' ! m) \<longleftrightarrow> ls_closed (pp_leases p ! m) \<or> m = l"
    using l by (auto simp add: p' nth_list_update)
  have slots: "length (pp_slots p') = length (pp_slots p)"
    "\<And>k. k \<noteq> ?i \<Longrightarrow> pp_slots p' ! k = pp_slots p ! k"
    by (simp_all add: p')
  have "\<forall>s \<in> set (pp_slots p'). 0 \<le> sl_sequence s \<and> sl_sequence s \<le> SLOT_MAXIMUM_SEQUENCE"
  proof
    fix x assume "x \<in> set (pp_slots p')"
    then have "x \<in> set (pp_slots p) \<or> x = (pp_slots p ! ?i)\<lparr>sl_occupied := False\<rparr>"
      unfolding p' using set_update_subset_insert by fastforce
    moreover have "pp_slots p ! ?i \<in> set (pp_slots p)"
      using i by simp
    ultimately show "0 \<le> sl_sequence x \<and> sl_sequence x \<le> SLOT_MAXIMUM_SEQUENCE"
      using inv by (auto simp add: pool_inv_def)
  qed
  then have "pool_inv p'"
    using inv uniq slots leases unfolding pool_inv_def by metis
  then show ?thesis by (simp add: p'_def)
qed


definition ordinal_order :: "nat \<times> nat \<times> int \<Rightarrow> nat \<times> nat \<times> int \<Rightarrow> bool" where
  "ordinal_order a b \<longleftrightarrow> (fst (snd a) = fst (snd b) \<longrightarrow> snd (snd a) < snd (snd b))"

text \<open>The watermark of every slot, as far as a slot exists.\<close>

definition watermark :: "peer_pool \<Rightarrow> nat \<Rightarrow> int" where
  "watermark p i = sl_sequence (pp_slots p ! i)"

lemma acquire_watermark: "slot_acquire p = Inr (l, p') \<Longrightarrow> watermark p' = watermark p"
  by (rule ext) (auto simp add: slot_acquire_def watermark_def nth_list_update split: option.splits dest!: findIndex_Some)

lemma close_watermark: "pool_inv p \<Longrightarrow> l < length (pp_leases p) \<Longrightarrow> watermark (lease_close l p) = watermark p"
  by (rule ext) (auto simp add: lease_close_def watermark_def nth_list_update Let_def pool_inv_def)

lemma next_watermark:
  assumes "pool_inv p" "l < length (pp_leases p)" "lease_next l p = Inr ((i, n), p')"
  shows "i < PEER_CONTINUATION_SLOTS" "n = watermark p i + 1" "n \<le> SLOT_MAXIMUM_SEQUENCE" "watermark p' = (watermark p)(i := n)"
    "0 \<le> watermark p i" "\<not> ls_closed (pp_leases p ! l)"
proof -
  let ?i = "ls_slot (pp_leases p ! l)"
  have i: "?i < length (pp_slots p)" "?i < PEER_CONTINUATION_SLOTS" "pp_slots p ! ?i \<in> set (pp_slots p)"
    using assms(1,2) by (simp_all add: pool_inv_def)
  then have s: "0 \<le> watermark p ?i" "watermark p ?i \<le> SLOT_MAXIMUM_SEQUENCE"
    using assms(1) by (auto simp add: pool_inv_def watermark_def)
  have n: "i = ?i" "n = watermark p i + 1" "\<not> ls_closed (pp_leases p ! l)" "watermark p ?i \<noteq> SLOT_MAXIMUM_SEQUENCE"
    "p' = p\<lparr>pp_slots := (pp_slots p)[?i := (pp_slots p ! ?i)\<lparr>sl_sequence := sl_sequence (pp_slots p ! ?i) + 1\<rparr>]\<rparr>"
    using assms(3) by (auto simp add: lease_next_def Let_def watermark_def split: if_splits)
  show "i < PEER_CONTINUATION_SLOTS" "n = watermark p i + 1" "0 \<le> watermark p i" "\<not> ls_closed (pp_leases p ! l)"
    "n \<le> SLOT_MAXIMUM_SEQUENCE"
    using i s n by auto
  show "watermark p' = (watermark p)(i := n)"
    by (rule ext) (use i(1) n in \<open>auto simp add: watermark_def nth_list_update\<close>)
qed

lemma pool_run_ordinals:
  "pool_inv p \<Longrightarrow>
   list_all (\<lambda>(l, i, n). i < PEER_CONTINUATION_SLOTS \<and> watermark p i < n \<and> 0 < n \<and> n \<le> SLOT_MAXIMUM_SEQUENCE)
     (fst (pool_run cs p)) \<and>
   sorted_wrt ordinal_order (fst (pool_run cs p)) \<and> pool_inv (snd (pool_run cs p))"
proof (induction cs p rule: pool_run.induct)
  case (2 cs p)
  show ?case
  proof (cases "slot_acquire p")
    case (Inr r)
    obtain l p' where "r = (l, p')" by (cases r)
    with Inr have a: "slot_acquire p = Inr (l, p')" by simp
    from 2(2) [OF a refl acquire_inv [OF 2(3) a]] acquire_watermark [OF a] show ?thesis
      by (simp add: a)
  qed (use 2 in simp)
next
  case (3 l cs p)
  show ?case
  proof (cases "l < length (pp_leases p) \<and> (\<exists>i n p'. lease_next l p = Inr ((i, n), p'))")
    case True
    then obtain i n p' where r: "l < length (pp_leases p)" "lease_next l p = Inr ((i, n), p')" by blast
    note w = next_watermark [OF 3(4) r]
    have "pool_inv p'"
      by (rule next_inv [OF 3(4) r])
    from 3(2) [OF r(1,2) refl this] have tail:
      "list_all (\<lambda>(l, j, m). j < PEER_CONTINUATION_SLOTS \<and> watermark p' j < m \<and> 0 < m \<and> m \<le> SLOT_MAXIMUM_SEQUENCE)
         (fst (pool_run cs p'))"
      "sorted_wrt ordinal_order (fst (pool_run cs p'))" "pool_inv (snd (pool_run cs p'))"
      by simp_all
    have "list_all (\<lambda>(l, j, m). j < PEER_CONTINUATION_SLOTS \<and> watermark p j < m \<and> 0 < m \<and> m \<le> SLOT_MAXIMUM_SEQUENCE)
         (fst (pool_run cs p'))" "list_all (ordinal_order (l, i, n)) (fst (pool_run cs p'))"
      using tail(1) w by (auto simp add: list_all_iff ordinal_order_def split: if_splits)
    then show ?thesis
      using tail w r by (simp add: list_all_iff)
  next
    case False
    then show ?thesis
      using 3 by (cases "lease_next l p") auto
  qed
next
  case (4 l cs p)
  then show ?case
    using close_inv [of p l] close_watermark [of p l] by (cases "l < length (pp_leases p)") simp_all
qed simp

lemma ordinal_order_distinct: "sorted_wrt ordinal_order xs \<Longrightarrow> distinct (map snd xs)"
  by (induction xs) (auto simp add: ordinal_order_def)

text \<open>A closed lease stays closed and gets no further ordinal.\<close>

definition lease_shut :: "nat \<Rightarrow> peer_pool \<Rightarrow> bool" where
  "lease_shut l p \<longleftrightarrow> l < length (pp_leases p) \<and> ls_closed (pp_leases p ! l)"

lemma shut_kept:
  "lease_shut l p \<Longrightarrow> slot_acquire p = Inr (k, p') \<Longrightarrow> lease_shut l p'"
  "lease_shut l p \<Longrightarrow> lease_next k p = Inr (x, p') \<Longrightarrow> lease_shut l p'"
  "lease_shut l p \<Longrightarrow> lease_shut l (lease_close k p)"
  "l < length (pp_leases p) \<Longrightarrow> lease_shut l (lease_close l p)"
  by (auto simp add: lease_shut_def slot_acquire_def lease_next_def lease_close_def Let_def nth_append nth_list_update
      split: option.splits if_splits) (cases "k = l"; simp)

lemma shut_silent: "lease_shut l p \<Longrightarrow> l \<notin> fst ` set (fst (pool_run cs p))"
proof (induction cs p rule: pool_run.induct)
  case (2 cs p)
  then show ?case using shut_kept(1) by (auto split: sum.splits)
next
  case (3 k cs p)
  have "k \<noteq> l" if "lease_next k p = Inr x" for x
    using 3(4) that by (auto simp add: lease_shut_def lease_next_def Let_def)
  with 3 shut_kept(2) show ?case by (auto split: sum.splits)
next
  case (4 k cs p)
  then show ?case using shut_kept(3) by simp
qed simp

lemma pool_run_append:
  "pool_run (cs @ ds) p = (fst (pool_run cs p) @ fst (pool_run ds (snd (pool_run cs p))), snd (pool_run ds (snd (pool_run cs p))))"
  by (induction cs p rule: pool_run.induct) (auto split: sum.splits)




section \<open>Round trips of the controls\<close>

lemma turn_text_back: "turn_text rt (JString s) m = Inr x \<Longrightarrow> x = s"
  by (auto simp add: turn_text_def res_simps split: if_splits dest: text_back [unfolded of_cbor_Inr])

lemma turn_identifier_back: "turn_identifier rt (JString s) = Inr x \<Longrightarrow> x = s"
  by (auto simp add: turn_identifier_def res_simps split: if_splits dest: turn_text_back)

lemma turn_numbers_back:
  "turn_duration (JNumber (Integral i)) m = Inr n \<Longrightarrow> n = i"
  "turn_lane (JNumber (Integral i)) = Inr n \<Longrightarrow> n = i"
  "turn_unsigned64 (js_norm (JBigint i)) = Inr n \<Longrightarrow> n = i"
  using unsigned_number [unfolded of_cbor_Inr] unsigned_bigint [unfolded of_cbor_Inr]
  by (auto simp add: turn_duration_def turn_lane_def turn_unsigned64_def res_simps split: if_splits simp del: js_norm.simps)

lemmas read_back = turn_numbers_back turn_text_back turn_identifier_back bytes_back
  unsigned_number [THEN iffD1, THEN conjunct1] unsigned_bigint [THEN iffD1, THEN conjunct1]

lemma grant_back:
  assumes "decodeGrant rt (h1 # h2 # h3 # h4 # h5 # map js_norm (turn_body_fields (Turn_grant g))) = Inr y"
  shows "y = g"
proof -
  obtain kind user pass valid where f: "turn_body_fields (Turn_grant g) =
      [JBytes (tg_pathId g), JBytes (tg_replaces g), JString (tg_provider g), JString (tg_account g), JString (tg_profile g),
       JNumber (Integral kind), JString user, JString pass, JNumber (Integral valid), JArray (map JString (tg_urls g))]"
    and c: "tg_credentials g = (if kind = 1 then Fixed user pass else Expiring user pass valid)"
    by (cases "tg_credentials g") auto
  have urls: "mapM (\<lambda>v. turn_text rt v TURN_MAX_URL_BYTES) (map (js_norm \<circ> JString) (tg_urls g)) = Inr us \<Longrightarrow> us = tg_urls g" for us
    using mapM_back [of "\<lambda>v. turn_text rt v TURN_MAX_URL_BYTES" "js_norm \<circ> JString"] turn_text_back by fastforce
  show ?thesis
    using assms unfolding f decodeGrant_def
    by (auto simp add: bindE_eq_Inr c requireArray_def of_cbor_def [of "if _ then _ else _"] split: if_splits dest!: urls read_back)
qed


lemma turn_body_back:
  assumes "decode_turn_body rt (h1 # h2 # h3 # h4 # h5 # map js_norm (turn_body_fields b)) (turn_kind b) = Inr y"
  shows "y = b"
proof (cases b)
  case (Turn_grant g)
  with assms show ?thesis
    by (auto simp add: decode_turn_body_def bindE_eq_Inr simp del: turn_body_fields.simps dest!: grant_back)
next
  case (Turn_available profiles)
  have names: "mapM (turn_identifier rt) (map (js_norm \<circ> JString) profiles) = Inr us \<Longrightarrow> us = profiles" for us
    using mapM_back [of "turn_identifier rt" "js_norm \<circ> JString"] turn_identifier_back by fastforce
  from Turn_available assms show ?thesis
    by (auto simp add: decode_turn_body_def bindE_eq_Inr requireArray_def of_cbor_def [of "if _ then _ else _"]
        split: if_splits dest!: names)
qed (use assms in \<open>auto simp add: decode_turn_body_def bindE_eq_Inr simp del: js_norm.simps(1) split: if_splits dest!: read_back\<close>)

text \<open>
  C39. A TURN control that the receiver encodes decodes to the same header and the same body, for each of the nine kinds,
  whatever their field values: nothing is lost, and no control is read back as another one. The package's contract is the
  only assumption.
\<close>

theorem turn_control_round_trip:
  assumes "cborg_contract rt" "encodeTurnControl rt h b = Inr body"
  shows "decodeTurnControl rt body = Inr (h, b)"
proof -
  obtain x where e: "encode_value rt (turn_fields h b) = Inr body" and d: "decodeTurnControl rt body = Inr x"
    using assms(2) by (auto simp add: encodeTurnControl_def bindE_eq_Inr)
  obtain w where w: "decode_body rt body TURN_MAX_BODY_BYTES = Inr w"
    using d by (auto simp add: decodeTurnControl_def bindE_eq_Inr)
  have "w = js_norm (turn_fields h b)"
    by (rule decode_of_encoding [OF assms(1) e w])
  then have w': "decode_body rt body TURN_MAX_BODY_BYTES = Inr (JArray (JNumber (Integral TURN_SCHEMA) #
      JNumber (Integral (turn_kind b)) # JBytes (th_sessionId h) # JBytes (th_ownerPathId h) #
      js_norm (JBigint (th_sequence h)) # map js_norm (turn_body_fields b)))"
    using w by (simp add: turn_fields_def)
  have "x = (h, b)"
    using d unfolding decodeTurnControl_def w'
    by (auto simp add: bindE_eq_Inr requireArray_def of_cbor_def [of "if _ then _ else _"] split: if_splits
        simp del: js_norm.simps dest!: read_back turn_body_back)
  with d show ?thesis by simp
qed


definition sample_turn_header :: turn_header where
  "sample_turn_header = \<lparr>th_sessionId = replicate 16 1, th_ownerPathId = replicate 16 2, th_sequence = 5\<rparr>"

definition sample_turn_cbor :: cbor where
  "sample_turn_cbor = CArray [CUnsigned 4, CUnsigned 4, CBytes (replicate 16 1), CBytes (replicate 16 2), CUnsigned 5,
     CBytes (replicate 16 3), CUnsigned 2]"

definition sample_turn_runtime :: cbor_runtime where
  "sample_turn_runtime = table_runtime [(turn_fields sample_turn_header (Turn_retire (replicate 16 3) 2), sample_turn_cbor)]"

lemma sample_turn_contract: "cborg_contract sample_turn_runtime"
  unfolding sample_turn_runtime_def
  by (rule table_contract)
    (auto simp add: turn_fields_def sample_turn_header_def sample_turn_cbor_def TURN_SCHEMA_def max_safe_integer_def
      intro!: js_encodes_intros)

theorem turn_control_round_trip_witness:
  "decodeTurnControl sample_turn_runtime (cbor_encode sample_turn_cbor) =
     Inr (sample_turn_header, Turn_retire (replicate 16 3) 2)"
  by (rule turn_control_round_trip [OF sample_turn_contract]) code_simp


lemma profile_text: "list_all profile_char s \<Longrightarrow> length (text_encode s) = length s"
proof (induction s rule: code_points.induct)
  case (2 u)
  then have "unat u < 0x80"
    by (auto simp add: profile_char_def word_le_nat_alt)
  then show ?case by (simp add: text_encode_def scalar_value_def utf8_scalar_def)
next
  case (3 u v rest)
  then have u: "unat u < 0x80"
    by (auto simp add: profile_char_def word_le_nat_alt)
  then have "\<not> high_surrogate u"
    by (simp add: high_surrogate_def word_le_nat_alt)
  with 3 u show ?case by (simp add: text_encode_def scalar_value_def utf8_scalar_def)
qed (simp add: text_encode_def)

text \<open>
  Every peer path control that encodes fits the decoder's limit and decodes to itself.
\<close>

lemma path_control_round_trip:
  assumes "cborg_contract rt" "encodePeerPathControl rt v = Inr body"
  shows "decodePeerPathControl rt body = Inr v"
proof -
  have ok: "validate_path_control v = Inr ()" and e: "encode_value rt (path_fields v) = Inr body"
    using assms(2) by (auto simp add: encodePeerPathControl_def bindE_eq_Inr)
  have v: "list_all profile_char (pc_providerProfile v)" "length (pc_providerProfile v) \<le> 64"
      "length (pc_peerPathId v) = 16" "length (pc_networkGenerationId v) = 16"
      "byte_field (JBytes (pc_peerPathId v)) (Some 16) True = Inr (pc_peerPathId v)"
      "byte_field (JBytes (pc_networkGenerationId v)) (Some 16) True = Inr (pc_networkGenerationId v)"
      "0 < pc_controlSequence v"
    using ok by (auto simp add: validate_path_control_def bindE_eq_Inr MAXIMUM_PROVIDER_PROFILE_LENGTH_def
        requireByteField_def of_cbor_def split: if_splits)
  obtain k m h where n: "pc_kind v = Integral k" "pc_validForMilliseconds v = Integral m" "pc_holdForMilliseconds v = Integral h"
      "0 \<le> k" "k \<le> 4" "0 \<le> m" "m \<le> 120000" "0 \<le> h" "h \<le> 120000"
    using ok by (auto simp add: validate_path_control_def bindE_eq_Inr integer_between_iff path_constants split: if_splits)
  obtain c where c: "js_encodes (path_fields v) c" "body = cbor_encode c"
    and wf: "js_wf (\<lambda>s. isWellFormedUnicode s \<and> cb_nfc rt s = s) 0 (path_fields v)"
    using e assms(1) by (auto simp add: encode_value_def encodeCanonicalCbor_def res_simps validateValue_wf cborg_contract_def
        simp del: validateValue.simps split: sum.splits)
  have "length body \<le> 256"
    using flat_array_size [OF c(1) [unfolded path_fields_def]] v by (simp add: c(2) profile_text)
  then have d: "decode_body rt body PATH_MAXIMUM_BODY_BYTES = Inr (js_norm (path_fields v))"
    by (intro encode_value_decode [OF assms(1) e]) (simp_all add: path_constants max_safe_integer_def)
  have t: "text_field rt (JString (pc_providerProfile v)) = Inr (pc_providerProfile v)"
    using wf by (auto simp add: path_fields_def requireText_def of_cbor_def elim!: js_wf.cases)
  have u: "unsigned_field (JNumber (Integral i)) = Inr i" if "0 \<le> i" "i \<le> 120000" for i
    using that by (simp add: unsigned_number max_safe_integer_def)
  have q: "unsigned_field (js_norm (JBigint (pc_controlSequence v))) = Inr (pc_controlSequence v)"
    using v by (simp only: unsigned_bigint) simp
  have fields: "js_norm (path_fields v) = JArray [JNumber (Integral PATH_SCHEMA_VERSION), JBytes (pc_peerPathId v),
      JBytes (pc_networkGenerationId v), js_norm (JBigint (pc_controlSequence v)), JNumber (Integral k), JNumber (Integral m),
      JNumber (Integral h), JString (pc_providerProfile v)]"
    by (simp add: path_fields_def n)
  have a: "array_of (JArray xs) PATH_FIELD_COUNT = Inr xs" "length xs = PATH_FIELD_COUNT" if "length xs = 8" for xs
    using that by (simp_all add: requireArray_def of_cbor_def PATH_FIELD_COUNT_def)
  have "v = \<lparr>pc_peerPathId = pc_peerPathId v, pc_networkGenerationId = pc_networkGenerationId v,
     pc_controlSequence = pc_controlSequence v, pc_kind = Integral k, pc_validForMilliseconds = Integral m,
     pc_holdForMilliseconds = Integral h, pc_providerProfile = pc_providerProfile v\<rparr>"
    using n by simp
  with ok show ?thesis
    unfolding decodePeerPathControl_def d fields
    by (simp add: a u q v(5,6) t n(4-9) order_trans [OF n(5)] PATH_SCHEMA_VERSION_def Let_def del: js_norm.simps)
      (simp add: PATH_FIELD_COUNT_def)
qed

end
