(* ===== verification/Session_Message.thy ===== *)
theory Session_Message
  imports Peer_Controls
begin

text \<open>
The messages of a protocol session, \<^verbatim>\<open>web/src/session/message.ts\<close>: the registry of kinds, the codec of control
  messages, the routing header of data messages, the bodies that a sender may send with their validators, and the check
  of a sender's signature over the place of a control. The CBOR package, SHA-256 and the Ed25519 verifier are parameters.
  The lemmas show that a control is accepted only where its sender signed it for, that control messages have one wire
  form, and that accepted operation errors are closed.
\<close>

section \<open>Session messages\<close>

datatype message_kind =
  List_children | Catalog_result | Open_revisions | Open_results | Renew_lease | Release_lease | Request_blocks
| Block_fragment | Cancel | Operation_error | Session_terminal | Lane_attach | Scan_progress | Operation_complete
| Lease_result | Peer_offer | Peer_answer | Peer_candidate | Peer_path_control | Turn_control

fun MESSAGE_KIND :: "message_kind \<Rightarrow> nat" where
  "MESSAGE_KIND List_children = 1"
| "MESSAGE_KIND Catalog_result = 2"
| "MESSAGE_KIND Open_revisions = 3"
| "MESSAGE_KIND Open_results = 4"
| "MESSAGE_KIND Renew_lease = 5"
| "MESSAGE_KIND Release_lease = 6"
| "MESSAGE_KIND Request_blocks = 7"
| "MESSAGE_KIND Block_fragment = 8"
| "MESSAGE_KIND Cancel = 9"
| "MESSAGE_KIND Operation_error = 10"
| "MESSAGE_KIND Session_terminal = 11"
| "MESSAGE_KIND Lane_attach = 12"
| "MESSAGE_KIND Scan_progress = 13"
| "MESSAGE_KIND Operation_complete = 14"
| "MESSAGE_KIND Lease_result = 15"
| "MESSAGE_KIND Peer_offer = 16"
| "MESSAGE_KIND Peer_answer = 17"
| "MESSAGE_KIND Peer_candidate = 18"
| "MESSAGE_KIND Peer_path_control = 19"
| "MESSAGE_KIND Turn_control = 20"

definition message_kinds :: "message_kind list" where
  "message_kinds =
     [List_children, Catalog_result, Open_revisions, Open_results, Renew_lease, Release_lease, Request_blocks,
      Block_fragment, Cancel, Operation_error, Session_terminal, Lane_attach, Scan_progress, Operation_complete,
      Lease_result, Peer_offer, Peer_answer, Peer_candidate, Peer_path_control, Turn_control]"

text \<open>The kind with a given number, if \<^verbatim>\<open>MESSAGE_KINDS\<close> has it.\<close>

definition kind_of :: "int \<Rightarrow> message_kind option" where
  "kind_of n = find (\<lambda>k. int (MESSAGE_KIND k) = n) message_kinds"

definition MAXIMUM_PLAINTEXT_BYTES :: nat where "MAXIMUM_PLAINTEXT_BYTES = 65536 - 44"
definition SENDER_CONTROL_SCHEMA_VERSION :: int where "SENDER_CONTROL_SCHEMA_VERSION = 1"
definition CONTROL_SCHEMA_KEY :: int where "CONTROL_SCHEMA_KEY = 0"
definition CONTROL_BODY_KEY :: int where "CONTROL_BODY_KEY = 1"
definition CONTROL_SIGNATURE_KEY :: int where "CONTROL_SIGNATURE_KEY = 255"
definition FRAGMENT_ROUTING_HEADER_BYTES :: nat where "FRAGMENT_ROUTING_HEADER_BYTES = 20"
definition MAXIMUM_REMOTE_ERROR_MESSAGE_BYTES :: nat where "MAXIMUM_REMOTE_ERROR_MESSAGE_BYTES = 512"
definition MINIMUM_RETRY_DELAY_MILLISECONDS :: int where "MINIMUM_RETRY_DELAY_MILLISECONDS = 1"
definition MAXIMUM_RETRY_DELAY_MILLISECONDS :: int where "MAXIMUM_RETRY_DELAY_MILLISECONDS = 30000"
definition MESSAGE_MAXIMUM_OPEN_BATCH :: nat where "MESSAGE_MAXIMUM_OPEN_BATCH = 64"
definition MAXIMUM_REVISION_OBJECT_BYTES :: nat where "MAXIMUM_REVISION_OBJECT_BYTES = 16384"
definition MESSAGE_LEASE_TTL :: int where "MESSAGE_LEASE_TTL = 120000"
definition MESSAGE_LEASE_RENEW_AFTER :: int where "MESSAGE_LEASE_RENEW_AFTER = 60000"
definition MAXIMUM_SIGNALING_SDP_BYTES :: nat where "MAXIMUM_SIGNALING_SDP_BYTES = 61440"
definition MAXIMUM_SIGNALING_CANDIDATE_BYTES :: nat where "MAXIMUM_SIGNALING_CANDIDATE_BYTES = 4096"
definition MAXIMUM_SIGNALING_TEXT_BYTES :: nat where "MAXIMUM_SIGNALING_TEXT_BYTES = 256"

lemmas message_limits = MAXIMUM_PLAINTEXT_BYTES_def SENDER_CONTROL_SCHEMA_VERSION_def CONTROL_SCHEMA_KEY_def
  CONTROL_BODY_KEY_def CONTROL_SIGNATURE_KEY_def FRAGMENT_ROUTING_HEADER_BYTES_def MAXIMUM_REMOTE_ERROR_MESSAGE_BYTES_def
  MINIMUM_RETRY_DELAY_MILLISECONDS_def MAXIMUM_RETRY_DELAY_MILLISECONDS_def MESSAGE_MAXIMUM_OPEN_BATCH_def
  MAXIMUM_REVISION_OBJECT_BYTES_def MESSAGE_LEASE_TTL_def MESSAGE_LEASE_RENEW_AFTER_def MAXIMUM_SIGNALING_SDP_BYTES_def
  MAXIMUM_SIGNALING_CANDIDATE_BYTES_def MAXIMUM_SIGNALING_TEXT_BYTES_def

record session_message =
  sm_kind :: message_kind
  sm_operationId :: "bytes option"
  sm_body :: bytes
  sm_plaintext :: bytes
  sm_data :: bool

record control_binding =
  cb_shareInstance :: bytes
  cb_protocolSessionId :: bytes
  cb_laneId :: js_number
  cb_laneEpoch :: js_number
  cb_direction :: nat
  cb_sequence :: int

definition session_kind :: "message_kind \<Rightarrow> bool" where
  "session_kind k \<longleftrightarrow> k = Session_terminal \<or> k = Peer_path_control \<or> k = Turn_control"

definition requireMessageIdentity :: "message_kind \<Rightarrow> bytes option \<Rightarrow> message_error + unit" where
  "requireMessageIdentity kind operationId =
     (if session_kind kind then (if operationId \<noteq> None then Inl MessageError else Inr ())
      else case operationId of
        None \<Rightarrow> Inl MessageError
      | Some oid \<Rightarrow> bindE (byte_field (JBytes oid) (Some 16) True) (\<lambda>_. Inr ()))"

definition message_map :: "message_kind \<Rightarrow> bytes option \<Rightarrow> js_value \<Rightarrow> js_value" where
  "message_map kind operationId body =
     JMap [(JNumber (Integral 0), JNumber (Integral (int (MESSAGE_KIND kind)))),
           (JNumber (Integral 1), case operationId of None \<Rightarrow> JNull | Some oid \<Rightarrow> JBytes oid),
           (JNumber (Integral 2), body)]"

definition encodeMessage ::
  "cbor_runtime \<Rightarrow> message_kind \<Rightarrow> bytes option \<Rightarrow> bytes \<Rightarrow> message_error + session_message" where
  "encodeMessage rt kind operationId canonicalBody =
     bindE (requireMessageIdentity kind operationId) (\<lambda>_.
     bindE (decode_body rt canonicalBody (int MAXIMUM_PLAINTEXT_BYTES)) (\<lambda>bodyValue.
     bindE (encode_value rt (message_map kind operationId bodyValue)) (\<lambda>plaintext.
     if length plaintext > MAXIMUM_PLAINTEXT_BYTES then Inl MessageError
     else Inr \<lparr>sm_kind = kind, sm_operationId = operationId, sm_body = canonicalBody, sm_plaintext = plaintext,
               sm_data = False\<rparr>)))"

definition decodeFragmentMessage :: "bytes \<Rightarrow> message_error + session_message" where
  "decodeFragmentMessage plaintext =
     (if length plaintext < FRAGMENT_ROUTING_HEADER_BYTES \<or>
         (case byte_at plaintext 2 of None \<Rightarrow> False | Some b \<Rightarrow> b > 1) \<or> byte_at plaintext 3 \<noteq> Some 0
      then Inl MessageError
      else bindE (byte_field (JBytes (subarray 4 FRAGMENT_ROUTING_HEADER_BYTES plaintext)) (Some 16) True) (\<lambda>oid.
      Inr \<lparr>sm_kind = Block_fragment, sm_operationId = Some oid, sm_body = plaintext, sm_plaintext = plaintext,
           sm_data = True\<rparr>))"

definition decodeMessage :: "cbor_runtime \<Rightarrow> bytes \<Rightarrow> message_error + session_message" where
  "decodeMessage rt plaintext =
     (if length plaintext = 0 \<or> length plaintext > MAXIMUM_PLAINTEXT_BYTES then Inl MessageError
      else if byte_at plaintext 0 = Some 1 \<and> byte_at plaintext 1 = Some (of_nat (MESSAGE_KIND Block_fragment))
      then decodeFragmentMessage plaintext
      else bindE (decode_body rt plaintext (int MAXIMUM_PLAINTEXT_BYTES)) (\<lambda>decoded.
      bindE (numeric_map decoded [0, 1, 2]) (\<lambda>fs.
      bindE (unsigned_field (map_get fs 0)) (\<lambda>kindValue.
      case kind_of kindValue of
        None \<Rightarrow> Inl MessageError
      | Some kind \<Rightarrow>
          if kind = Block_fragment then Inl MessageError
          else bindE (if map_get fs 1 = JNull then Inr None
                      else bindE (byte_field (map_get fs 1) (Some 16) True) (\<lambda>oid. Inr (Some oid))) (\<lambda>operationId.
          bindE (requireMessageIdentity kind operationId) (\<lambda>_.
          bindE (encode_value rt (map_get fs 2)) (\<lambda>body.
          Inr \<lparr>sm_kind = kind, sm_operationId = operationId, sm_body = body, sm_plaintext = plaintext,
               sm_data = False\<rparr>)))))))"

subsection \<open>Control bodies\<close>

definition message_schema :: "js_value \<Rightarrow> message_error + unit" where
  "message_schema v = bindE (unsigned_field v) (\<lambda>n. if n \<noteq> 1 then Inl MessageError else Inr ())"

definition bounded_message :: "cbor_runtime \<Rightarrow> js_value \<Rightarrow> message_error + utf16" where
  "bounded_message rt v =
     bindE (text_field rt v) (\<lambda>t.
     if length t = 0 \<or> \<not> isWellFormedUnicode t \<or> cb_nfc rt t \<noteq> t \<or>
        length (text_encode t) > MAXIMUM_REMOTE_ERROR_MESSAGE_BYTES then Inl MessageError else Inr t)"

definition message_uint32 :: "js_value \<Rightarrow> bool \<Rightarrow> message_error + int" where
  "message_uint32 v nonzeroRequired =
     bindE (unsigned_field v) (\<lambda>n. if n > 0xffffffff \<or> (nonzeroRequired \<and> n = 0) then Inl MessageError else Inr n)"

definition message_uint16 :: "js_value \<Rightarrow> message_error + int" where
  "message_uint16 v = bindE (unsigned_field v) (\<lambda>n. if n > 0xffff then Inl MessageError else Inr n)"

definition normalized_text :: "cbor_runtime \<Rightarrow> js_value \<Rightarrow> nat \<Rightarrow> bool \<Rightarrow> message_error + utf16" where
  "normalized_text rt v maximumBytes allowEmpty =
     bindE (text_field rt v) (\<lambda>t.
     if \<not> isWellFormedUnicode t \<or> cb_nfc rt t \<noteq> t \<or> (\<not> allowEmpty \<and> length t = 0) \<or>
        length (text_encode t) > maximumBytes then Inl MessageError else Inr t)"

definition optional_text :: "cbor_runtime \<Rightarrow> js_value \<Rightarrow> nat \<Rightarrow> message_error + unit" where
  "optional_text rt v maximumBytes =
     (if v = JNull then Inr () else bindE (normalized_text rt v maximumBytes True) (\<lambda>_. Inr ()))"

datatype error_scope = Scope_directory | Scope_revision | Scope_block | Scope_peer

record peer_attempt_binding =
  pa_peerSlot :: int
  pa_peerPathId :: bytes
  pa_attemptId :: bytes
  pa_attemptSequence :: int

record operation_error_control =
  oc_peerAttempt :: "peer_attempt_binding option"
  oc_scope :: error_scope
  oc_code :: int
  oc_retryable :: bool
  oc_retryAfterMilliseconds :: "int option"
  oc_message :: utf16

definition operationErrorScope :: "int \<Rightarrow> message_error + error_scope" where
  "operationErrorScope v =
     (if v = 2 then Inr Scope_directory else if v = 3 then Inr Scope_revision
      else if v = 4 then Inr Scope_block else if v = 5 then Inr Scope_peer else Inl MessageError)"

fun operationErrorCodeRange :: "error_scope \<Rightarrow> int \<times> int" where
  "operationErrorCodeRange Scope_directory = (0x2001, 0x2008)"
| "operationErrorCodeRange Scope_revision = (0x3001, 0x3008)"
| "operationErrorCodeRange Scope_block = (0x4001, 0x4006)"
| "operationErrorCodeRange Scope_peer = (0x5000, 0x5fff)"

definition operationRetryDelay :: "bool \<Rightarrow> js_value \<Rightarrow> message_error + int option" where
  "operationRetryDelay retryable v =
     (if \<not> retryable then (if v \<noteq> JNull then Inl MessageError else Inr None)
      else bindE (unsigned_field v) (\<lambda>delay.
      if delay < MINIMUM_RETRY_DELAY_MILLISECONDS \<or> delay > MAXIMUM_RETRY_DELAY_MILLISECONDS then Inl MessageError
      else Inr (Some delay)))"

definition decodeErrorPeerAttempt :: "js_value \<Rightarrow> message_error + peer_attempt_binding" where
  "decodeErrorPeerAttempt v =
     bindE (array_of v 4) (\<lambda>fs.
     if length fs \<noteq> 4 then Inl MessageError
     else bindE (unsigned_field (item_at fs 2)) (\<lambda>sequence.
     if sequence = 0 \<or> sequence > 0xffffffffffffffff then Inl MessageError
     else bindE (byte_field (item_at fs 0) (Some 16) True) (\<lambda>path.
     bindE (byte_field (item_at fs 1) (Some 16) True) (\<lambda>attempt.
     bindE (unsigned_field (item_at fs 3)) (\<lambda>rawSlot.
     bindE (requirePeerSlot rawSlot) (\<lambda>slot.
     Inr \<lparr>pa_peerSlot = slot, pa_peerPathId = path, pa_attemptId = attempt, pa_attemptSequence = sequence\<rparr>))))))"

definition decodeOperationErrorControl :: "cbor_runtime \<Rightarrow> bytes \<Rightarrow> message_error + operation_error_control" where
  "decodeOperationErrorControl rt body =
     bindE (decode_body rt body (int MAXIMUM_PLAINTEXT_BYTES)) (\<lambda>decoded.
     bindE (case decoded of
              JMap fs \<Rightarrow> bindE (unsigned_field (map_get fs 1)) (\<lambda>scope. Inr (scope = 5))
            | _ \<Rightarrow> Inr False) (\<lambda>peer.
     bindE (numeric_map decoded (if peer then [0, 1, 2, 3, 4, 5, 6] else [0, 1, 2, 3, 4, 5])) (\<lambda>fs.
     bindE (if peer then bindE (unsigned_field (map_get fs 0)) (\<lambda>n. if n \<noteq> 3 then Inl MessageError else Inr ())
            else message_schema (map_get fs 0)) (\<lambda>_.
     bindE (unsigned_field (map_get fs 1)) (\<lambda>scopeValue.
     bindE (operationErrorScope scopeValue) (\<lambda>scope.
     bindE (unsigned_field (map_get fs 2)) (\<lambda>code.
     if code < fst (operationErrorCodeRange scope) \<or> code > snd (operationErrorCodeRange scope) then Inl MessageError
     else bindE (boolean_field (map_get fs 3)) (\<lambda>retryable.
     if scope = Scope_peer \<and> retryable then Inl MessageError
     else bindE (operationRetryDelay retryable (map_get fs 4)) (\<lambda>delay.
     bindE (bounded_message rt (map_get fs 5)) (\<lambda>message.
     bindE (if peer then bindE (decodeErrorPeerAttempt (map_get fs 6)) (\<lambda>a. Inr (Some a)) else Inr None) (\<lambda>attempt.
     Inr \<lparr>oc_peerAttempt = attempt, oc_scope = scope, oc_code = code, oc_retryable = retryable,
          oc_retryAfterMilliseconds = delay, oc_message = message\<rparr>)))))))))))"

definition decodeScanProgress :: "cbor_runtime \<Rightarrow> bytes \<Rightarrow> message_error + bytes \<times> int" where
  "decodeScanProgress rt body =
     bindE (decode_body rt body (int MAXIMUM_PLAINTEXT_BYTES)) (\<lambda>decoded.
     bindE (numeric_map decoded [0, 1, 2]) (\<lambda>fs.
     bindE (message_schema (map_get fs 0)) (\<lambda>_.
     bindE (unsigned_field (map_get fs 2)) (\<lambda>discovered.
     if discovered > 0xffffffffffffffff then Inl MessageError
     else bindE (byte_field (map_get fs 1) (Some 16) True) (\<lambda>attempt. Inr (attempt, discovered))))))"

definition validateCatalogResult :: "cbor_runtime \<Rightarrow> bytes \<Rightarrow> message_error + unit" where
  "validateCatalogResult rt body =
     bindE (decode_body rt body (int MAXIMUM_PLAINTEXT_BYTES)) (\<lambda>decoded.
     bindE (numeric_map decoded [0, 1]) (\<lambda>fs.
     bindE (message_schema (map_get fs 0)) (\<lambda>_.
     bindE (byte_field (map_get fs 1) None True) (\<lambda>_. Inr ()))))"

definition validateLeaseTiming :: "js_value \<Rightarrow> js_value \<Rightarrow> message_error + unit" where
  "validateLeaseTiming ttl renew =
     bindE (unsigned_field ttl) (\<lambda>t.
     if t \<noteq> MESSAGE_LEASE_TTL then Inl MessageError
     else bindE (unsigned_field renew) (\<lambda>r. if r \<noteq> MESSAGE_LEASE_RENEW_AFTER then Inl MessageError else Inr ()))"

definition validateOpenResult :: "js_value \<Rightarrow> message_error + unit" where
  "validateOpenResult v =
     bindE (array_of v 6) (\<lambda>item.
     bindE (byte_field (item_at item 0) (Some 16) True) (\<lambda>_.
     bindE (unsigned_field (item_at item 1)) (\<lambda>status.
     if status = 0 \<and> length item = 6 then
       bindE (byte_field (item_at item 2) None True) (\<lambda>revision.
       if length revision > MAXIMUM_REVISION_OBJECT_BYTES then Inl MessageError
       else bindE (byte_field (item_at item 3) (Some 16) True) (\<lambda>_.
       validateLeaseTiming (item_at item 4) (item_at item 5)))
     else if status \<noteq> 1 \<or> length item \<noteq> 5 then Inl MessageError
     else bindE (unsigned_field (item_at item 2)) (\<lambda>code.
     if code < 0x3001 \<or> code > 0x3008 then Inl MessageError
     else bindE (boolean_field (item_at item 3)) (\<lambda>retryable.
     if retryable then
       bindE (unsigned_field (item_at item 4)) (\<lambda>delay.
       if delay < MINIMUM_RETRY_DELAY_MILLISECONDS \<or> delay > MAXIMUM_RETRY_DELAY_MILLISECONDS then Inl MessageError
       else Inr ())
     else if item_at item 4 \<noteq> JNull then Inl MessageError else Inr ())))))"

definition validateOpenResults :: "cbor_runtime \<Rightarrow> bytes \<Rightarrow> message_error + unit" where
  "validateOpenResults rt body =
     bindE (decode_body rt body (int MAXIMUM_PLAINTEXT_BYTES)) (\<lambda>decoded.
     bindE (numeric_map decoded [0, 1]) (\<lambda>fs.
     bindE (message_schema (map_get fs 0)) (\<lambda>_.
     bindE (array_of (map_get fs 1) MESSAGE_MAXIMUM_OPEN_BATCH) (\<lambda>results.
     if length results = 0 then Inl MessageError
     else bindE (mapM validateOpenResult results) (\<lambda>_. Inr ())))))"

definition validateLaneGrant :: "cbor_runtime \<Rightarrow> bytes \<Rightarrow> message_error + unit" where
  "validateLaneGrant rt body =
     bindE (decode_body rt body 1024) (\<lambda>decoded.
     bindE (numeric_map decoded [0, 1, 2, 3, 4]) (\<lambda>fs.
     bindE (message_schema (map_get fs 0)) (\<lambda>_.
     bindE (unsigned_field (map_get fs 1)) (\<lambda>disposition.
     if disposition \<noteq> 1 then Inl MessageError
     else bindE (message_uint32 (map_get fs 2) True) (\<lambda>_.
     bindE (message_uint32 (map_get fs 3) True) (\<lambda>_.
     bindE (byte_field (map_get fs 4) (Some 16) True) (\<lambda>_. Inr ())))))))"

definition validateOperationComplete :: "cbor_runtime \<Rightarrow> bytes \<Rightarrow> message_error + unit" where
  "validateOperationComplete rt body =
     bindE (decode_body rt body (int MAXIMUM_PLAINTEXT_BYTES)) (\<lambda>decoded.
     bindE (numeric_map decoded [0, 1]) (\<lambda>fs.
     bindE (message_schema (map_get fs 0)) (\<lambda>_.
     bindE (message_uint32 (map_get fs 1) False) (\<lambda>_. Inr ()))))"

definition validateLeaseResult :: "cbor_runtime \<Rightarrow> bytes \<Rightarrow> message_error + unit" where
  "validateLeaseResult rt body =
     bindE (decode_body rt body (int MAXIMUM_PLAINTEXT_BYTES)) (\<lambda>decoded.
     bindE (numeric_map decoded [0, 1, 2, 3]) (\<lambda>fs.
     bindE (message_schema (map_get fs 0)) (\<lambda>_.
     bindE (byte_field (map_get fs 1) (Some 16) True) (\<lambda>_.
     validateLeaseTiming (map_get fs 2) (map_get fs 3)))))"

definition exact_array :: "cbor_runtime \<Rightarrow> bytes \<Rightarrow> nat \<Rightarrow> message_error + js_value list" where
  "exact_array rt body len =
     bindE (decode_body rt body (int MAXIMUM_PLAINTEXT_BYTES)) (\<lambda>decoded.
     bindE (array_of decoded len) (\<lambda>fs. if length fs \<noteq> len then Inl MessageError else Inr fs))"

definition validatePeerBinding :: "js_value list \<Rightarrow> message_error + unit" where
  "validatePeerBinding fs =
     bindE (unsigned_field (item_at fs 0)) (\<lambda>schema.
     if schema \<noteq> 4 then Inl MessageError
     else bindE (unsigned_field (item_at fs 3)) (\<lambda>sequence.
     if sequence = 0 \<or> sequence > 0xffffffffffffffff then Inl MessageError
     else bindE (byte_field (item_at fs 1) (Some 16) True) (\<lambda>_.
     bindE (byte_field (item_at fs 2) (Some 16) True) (\<lambda>_.
     bindE (unsigned_field (item_at fs 4)) (\<lambda>slot.
     bindE (requirePeerSlot slot) (\<lambda>_.
     bindE (unsigned_field (item_at fs 5)) (\<lambda>purpose. if purpose > 2 then Inl MessageError else Inr ())))))))"

definition validatePeerAnswer :: "cbor_runtime \<Rightarrow> bytes \<Rightarrow> message_error + unit" where
  "validatePeerAnswer rt body =
     bindE (exact_array rt body 7) (\<lambda>fs.
     bindE (validatePeerBinding fs) (\<lambda>_.
     bindE (normalized_text rt (item_at fs 6) MAXIMUM_SIGNALING_SDP_BYTES False) (\<lambda>_. Inr ())))"

definition validatePeerCandidate :: "cbor_runtime \<Rightarrow> bytes \<Rightarrow> message_error + unit" where
  "validatePeerCandidate rt body =
     bindE (exact_array rt body 10) (\<lambda>fs.
     bindE (validatePeerBinding fs) (\<lambda>_.
     bindE (normalized_text rt (item_at fs 6) MAXIMUM_SIGNALING_CANDIDATE_BYTES False) (\<lambda>_.
     bindE (optional_text rt (item_at fs 7) MAXIMUM_SIGNALING_TEXT_BYTES) (\<lambda>_.
     bindE (if item_at fs 8 = JNull then Inr () else bindE (message_uint16 (item_at fs 8)) (\<lambda>_. Inr ())) (\<lambda>_.
     optional_text rt (item_at fs 9) MAXIMUM_SIGNALING_TEXT_BYTES)))))"

definition validateSessionTerminal :: "cbor_runtime \<Rightarrow> bytes \<Rightarrow> message_error + unit" where
  "validateSessionTerminal rt body =
     bindE (decode_body rt body (int MAXIMUM_PLAINTEXT_BYTES)) (\<lambda>decoded.
     bindE (numeric_map decoded [0, 1, 2]) (\<lambda>fs.
     bindE (message_schema (map_get fs 0)) (\<lambda>_.
     bindE (unsigned_field (map_get fs 1)) (\<lambda>code.
     if code < 0x1001 \<or> code > 0x1008 then Inl MessageError
     else bindE (bounded_message rt (map_get fs 2)) (\<lambda>_. Inr ())))))"

fun validateSenderControlBody :: "cbor_runtime \<Rightarrow> message_kind \<Rightarrow> bytes \<Rightarrow> message_error + unit" where
  "validateSenderControlBody rt Catalog_result body = validateCatalogResult rt body"
| "validateSenderControlBody rt Open_results body = validateOpenResults rt body"
| "validateSenderControlBody rt Operation_error body = bindE (decodeOperationErrorControl rt body) (\<lambda>_. Inr ())"
| "validateSenderControlBody rt Peer_path_control body = bindE (decodePeerPathControl rt body) (\<lambda>_. Inr ())"
| "validateSenderControlBody rt Turn_control body = bindE (decodeTurnControl rt body) (\<lambda>_. Inr ())"
| "validateSenderControlBody rt Session_terminal body = validateSessionTerminal rt body"
| "validateSenderControlBody rt Lane_attach body = validateLaneGrant rt body"
| "validateSenderControlBody rt Scan_progress body = bindE (decodeScanProgress rt body) (\<lambda>_. Inr ())"
| "validateSenderControlBody rt Operation_complete body = validateOperationComplete rt body"
| "validateSenderControlBody rt Lease_result body = validateLeaseResult rt body"
| "validateSenderControlBody rt Peer_answer body = validatePeerAnswer rt body"
| "validateSenderControlBody rt Peer_candidate body = validatePeerCandidate rt body"
| "validateSenderControlBody rt _ body = Inl MessageError"

subsection \<open>Signed controls\<close>

definition DOMAIN_operation :: string where "DOMAIN_operation = ''windshare/v2 control/operation''"
definition DOMAIN_terminal :: string where "DOMAIN_terminal = ''windshare/v2 control/session-terminal''"
definition DOMAIN_lane :: string where "DOMAIN_lane = ''windshare/v2 control/lane-attach''"
definition DOMAIN_peerPath :: string where "DOMAIN_peerPath = ''windshare/v2 control/peer-path''"
definition DOMAIN_turn :: string where "DOMAIN_turn = ''windshare/v2 control/turn''"

fun controlDomain :: "message_kind \<Rightarrow> message_error + string" where
  "controlDomain Peer_path_control = Inr DOMAIN_peerPath"
| "controlDomain Turn_control = Inr DOMAIN_turn"
| "controlDomain Session_terminal = Inr DOMAIN_terminal"
| "controlDomain Lane_attach = Inr DOMAIN_lane"
| "controlDomain Catalog_result = Inr DOMAIN_operation"
| "controlDomain Open_results = Inr DOMAIN_operation"
| "controlDomain Operation_error = Inr DOMAIN_operation"
| "controlDomain Scan_progress = Inr DOMAIN_operation"
| "controlDomain Operation_complete = Inr DOMAIN_operation"
| "controlDomain Lease_result = Inr DOMAIN_operation"
| "controlDomain Peer_answer = Inr DOMAIN_operation"
| "controlDomain Peer_candidate = Inr DOMAIN_operation"
| "controlDomain _ = Inl MessageError"

definition controlPreimage ::
  "(bytes \<Rightarrow> bytes) \<Rightarrow> session_message \<Rightarrow> control_binding \<Rightarrow> string \<Rightarrow> bytes \<Rightarrow> message_error + bytes" where
  "controlPreimage sha message binding domain unsignedWrapper =
     bindE (byte_field (JBytes (cb_shareInstance binding)) (Some 16) True) (\<lambda>share.
     bindE (byte_field (JBytes (cb_protocolSessionId binding)) (Some 16) True) (\<lambda>session.
     if \<not> integer_between 1 0xffffffff (cb_laneId binding) \<or> \<not> integer_between 0 0xffffffff (cb_laneEpoch binding) \<or>
        cb_direction binding \<noteq> 1 \<or> cb_sequence binding < 0 \<or> cb_sequence binding > 0xffffffffffffffff
     then Inl MessageError
     else Inr (concatBytes
       [ascii domain, [0], share, session,
        be_bytes 4 (nat (js_int (cb_laneId binding))) @ be_bytes 4 (nat (js_int (cb_laneEpoch binding))),
        [of_nat (cb_direction binding)], be_bytes 8 (nat (cb_sequence binding)),
        [of_nat (MESSAGE_KIND (sm_kind message))],
        (case sm_operationId message of None \<Rightarrow> replicate 16 0 | Some oid \<Rightarrow> oid), sha unsignedWrapper])))"

text \<open>\<open>verify\<close> is the sender's Ed25519 verifier, \<open>None\<close> when it rejects.\<close>

definition message_verifyEd25519 :: "(bytes \<Rightarrow> bytes \<Rightarrow> bool option) \<Rightarrow> bytes \<Rightarrow> bytes \<Rightarrow> message_error + bool" where
  "message_verifyEd25519 verify preimage signature =
     (case verify preimage signature of None \<Rightarrow> Inl MessageError | Some b \<Rightarrow> Inr b)"

definition verifySenderControl ::
  "cbor_runtime \<Rightarrow> (bytes \<Rightarrow> bytes) \<Rightarrow> (bytes \<Rightarrow> bytes \<Rightarrow> bool option) \<Rightarrow> session_message \<Rightarrow> control_binding \<Rightarrow>
   message_error + bytes" where
  "verifySenderControl rt sha verify message binding =
     (if sm_data message then Inr (sm_body message)
      else bindE (controlDomain (sm_kind message)) (\<lambda>domain.
      bindE (decode_body rt (sm_body message) (int MAXIMUM_PLAINTEXT_BYTES)) (\<lambda>decoded.
      bindE (numeric_map decoded [CONTROL_SCHEMA_KEY, CONTROL_BODY_KEY, CONTROL_SIGNATURE_KEY]) (\<lambda>signed.
      bindE (unsigned_field (map_get signed CONTROL_SCHEMA_KEY)) (\<lambda>schema.
      if schema \<noteq> SENDER_CONTROL_SCHEMA_VERSION then Inl MessageError
      else bindE (byte_field (map_get signed CONTROL_SIGNATURE_KEY) (Some 64) False) (\<lambda>signature.
      let semanticValue = map_get signed CONTROL_BODY_KEY in
      bindE (encode_value rt semanticValue) (\<lambda>semanticBody.
      bindE (encode_value rt (JMap [(JNumber (Integral CONTROL_SCHEMA_KEY), JNumber (Integral SENDER_CONTROL_SCHEMA_VERSION)),
        (JNumber (Integral CONTROL_BODY_KEY), semanticValue)])) (\<lambda>unsignedWrapper.
      bindE (controlPreimage sha message binding domain unsignedWrapper) (\<lambda>preimage.
      bindE (message_verifyEd25519 verify preimage signature) (\<lambda>valid.
      if \<not> valid then Inl MessageError
      else bindE (validateSenderControlBody rt (sm_kind message) semanticBody) (\<lambda>_. Inr semanticBody)))))))))))"

definition sameOperationId :: "bytes option \<Rightarrow> bytes \<Rightarrow> bool" where
  "sameOperationId left right = (case left of None \<Rightarrow> False | Some l \<Rightarrow> equalBytes l right)"

datatype peer_failure_scope = Attempt_transient | Resource_deferred | Path_terminal | Session_terminal_scope

definition peerFailureScope :: "int \<Rightarrow> peer_failure_scope" where
  "peerFailureScope code =
     (if code = 0x500c then Resource_deferred
      else if code \<in> set [0x5001, 0x5002, 0x5005, 0x5006, 0x5007, 0x5008] then Attempt_transient
      else if code = 0x500a \<or> code = 0x500b then Session_terminal_scope
      else Path_terminal)"


section \<open>Sender controls are bound to their delivery\<close>

lemma message_kind_bound: "1 \<le> MESSAGE_KIND k" "MESSAGE_KIND k \<le> 20"
  by (cases k; simp)+

lemma message_kind_inj: "MESSAGE_KIND k = MESSAGE_KIND k' \<Longrightarrow> k = k'"
  by (cases k; cases k'; simp)

lemma kind_of_iff: "kind_of n = Some k \<longleftrightarrow> n = int (MESSAGE_KIND k)"
proof
  assume "kind_of n = Some k"
  then show "n = int (MESSAGE_KIND k)"
    unfolding kind_of_def by (auto dest!: find_Some_in)
next
  assume "n = int (MESSAGE_KIND k)"
  then show "kind_of n = Some k"
    by (cases k) (simp_all add: kind_of_def message_kinds_def)
qed

lemma message_kind_byte: "(of_nat (MESSAGE_KIND k) :: byte) = of_nat (MESSAGE_KIND k') \<Longrightarrow> k = k'"
  by (cases k; cases k'; simp)

text \<open>The operation field of a preimage: sixteen zero octets stand for no operation.\<close>

definition operation_field :: "session_message \<Rightarrow> bytes" where
  "operation_field m = (case sm_operationId m of None \<Rightarrow> replicate 16 0 | Some oid \<Rightarrow> oid)"

lemma controlPreimage_Inr:
  assumes "controlPreimage sha m b domain w = Inr p"
  obtains l e where "cb_laneId b = Integral l" "cb_laneEpoch b = Integral e" "1 \<le> l" "l < 2 ^ 32" "0 \<le> e" "e < 2 ^ 32"
    "length (cb_shareInstance b) = 16" "length (cb_protocolSessionId b) = 16" "cb_direction b = 1"
    "0 \<le> cb_sequence b" "cb_sequence b < 2 ^ 64"
    "p = ascii domain @ [0] @ cb_shareInstance b @ cb_protocolSessionId b @ be_bytes 4 (nat l) @ be_bytes 4 (nat e) @ [1] @
       be_bytes 8 (nat (cb_sequence b)) @ [of_nat (MESSAGE_KIND (sm_kind m))] @ operation_field m @ sha w"
proof -
  show thesis
    using assms that
    by (auto simp add: controlPreimage_def bindE_eq_Inr of_cbor_Inr requireByteField_def integer_between_iff concatBytes_def
        operation_field_def split: if_splits)
qed


lemma identity_operation:
  assumes "requireMessageIdentity k x = Inr ()"
  shows "x = None \<and> session_kind k \<or> (\<exists>oid. x = Some oid \<and> \<not> session_kind k \<and> length oid = 16 \<and> nonzero oid)"
  using assms by (auto simp add: requireMessageIdentity_def bindE_eq_Inr of_cbor_Inr requireByteField_def
      split: if_splits option.splits)

lemma identity_field:
  assumes "requireMessageIdentity k (sm_operationId m) = Inr ()"
  shows "length (operation_field m) = 16"
  using identity_operation [OF assms] by (auto simp add: operation_field_def)

lemma identity_field_inj:
  assumes "requireMessageIdentity k (sm_operationId m) = Inr ()" "requireMessageIdentity k (sm_operationId n) = Inr ()"
    and "operation_field m = operation_field n"
  shows "sm_operationId m = sm_operationId n"
  using identity_operation [OF assms(1)] identity_operation [OF assms(2)] assms(3) by (auto simp add: operation_field_def)

lemma preimage_inj:
  assumes p: "controlPreimage sha m b d w = Inr p" "controlPreimage sha m' b' d' w' = Inr p"
    and sha: "\<And>x. length (sha x) = 32"
    and op: "requireMessageIdentity (sm_kind m) (sm_operationId m) = Inr ()"
      "requireMessageIdentity (sm_kind m') (sm_operationId m') = Inr ()"
  shows "sm_kind m = sm_kind m' \<and> sm_operationId m = sm_operationId m' \<and> b = b' \<and> sha w = sha w'"
proof -
  obtain l e where b: "cb_laneId b = Integral l" "cb_laneEpoch b = Integral e" "1 \<le> l" "l < 2 ^ 32" "0 \<le> e" "e < 2 ^ 32"
    "length (cb_shareInstance b) = 16" "length (cb_protocolSessionId b) = 16" "cb_direction b = 1"
    "0 \<le> cb_sequence b" "cb_sequence b < 2 ^ 64"
    and pb: "p = ascii d @ [0] @ cb_shareInstance b @ cb_protocolSessionId b @ be_bytes 4 (nat l) @ be_bytes 4 (nat e) @ [1] @
       be_bytes 8 (nat (cb_sequence b)) @ [of_nat (MESSAGE_KIND (sm_kind m))] @ operation_field m @ sha w"
    using p(1) by (rule controlPreimage_Inr)
  obtain l' e' where b': "cb_laneId b' = Integral l'" "cb_laneEpoch b' = Integral e'" "1 \<le> l'" "l' < 2 ^ 32" "0 \<le> e'" "e' < 2 ^ 32"
    "length (cb_shareInstance b') = 16" "length (cb_protocolSessionId b') = 16" "cb_direction b' = 1"
    "0 \<le> cb_sequence b'" "cb_sequence b' < 2 ^ 64"
    and pb': "p = ascii d' @ [0] @ cb_shareInstance b' @ cb_protocolSessionId b' @ be_bytes 4 (nat l') @ be_bytes 4 (nat e') @ [1] @
       be_bytes 8 (nat (cb_sequence b')) @ [of_nat (MESSAGE_KIND (sm_kind m'))] @ operation_field m' @ sha w'"
    using p(2) by (rule controlPreimage_Inr)
  note len = identity_field [OF op(1)] identity_field [OF op(2)]
  have "length (ascii d) = length (ascii d')"
    using arg_cong [OF trans [OF pb [symmetric] pb'], of length] b b' sha len by simp
  then have eq: "cb_shareInstance b = cb_shareInstance b'" "cb_protocolSessionId b = cb_protocolSessionId b'"
    "be_bytes 4 (nat l) = be_bytes 4 (nat l')" "be_bytes 4 (nat e) = be_bytes 4 (nat e')"
    "be_bytes 8 (nat (cb_sequence b)) = be_bytes 8 (nat (cb_sequence b'))"
    "(of_nat (MESSAGE_KIND (sm_kind m)) :: byte) = of_nat (MESSAGE_KIND (sm_kind m'))"
    "operation_field m = operation_field m'" "sha w = sha w'"
    using pb pb' b(7,8) b'(7,8) len by (simp_all del: be_bytes.simps)
  have "nat l = nat l'" "nat e = nat e'" "nat (cb_sequence b) = nat (cb_sequence b')"
    by (rule be_bytes_inj [OF _ _ eq(3)] be_bytes_inj [OF _ _ eq(4)] be_bytes_inj [OF _ _ eq(5)]; use b b' in simp)+
  then have "l = l'" "e = e'" "cb_sequence b = cb_sequence b'"
    using b b' by (simp_all add: nat_eq_iff)
  then have "b = b'"
    using eq(1,2) b b' by (simp add: control_binding.equality)
  moreover have k: "sm_kind m = sm_kind m'"
    by (rule message_kind_byte [OF eq(6)])
  moreover have "sm_operationId m = sm_operationId m'"
    using identity_field_inj op eq(7) k by metis
  ultimately show ?thesis using eq(8) by simp
qed

text \<open>
  The sender signs only preimages of its own controls: \<open>controls\<close> holds, for each, the message, its place and its wrapper
  without the signature.
\<close>

definition signs_only ::
  "(bytes \<Rightarrow> bytes) \<Rightarrow> (bytes \<Rightarrow> bytes \<Rightarrow> bool option) \<Rightarrow> (session_message \<times> control_binding \<times> bytes) set \<Rightarrow> bool" where
  "signs_only sha verify controls \<longleftrightarrow>
     (\<forall>p s. verify p s = Some True \<longrightarrow> (\<exists>(m, b, w) \<in> controls. \<exists>d. controlPreimage sha m b d w = Inr p \<and>
        requireMessageIdentity (sm_kind m) (sm_operationId m) = Inr ()))"

definition unsigned_wrapper :: "js_value \<Rightarrow> js_value" where
  "unsigned_wrapper v = JMap [(JNumber (Integral CONTROL_SCHEMA_KEY), JNumber (Integral SENDER_CONTROL_SCHEMA_VERSION)),
     (JNumber (Integral CONTROL_BODY_KEY), v)]"

text \<open>What an accepted control message is made of.\<close>

definition operation_value :: "js_value \<Rightarrow> message_error + bytes option" where
  "operation_value v = (if v = JNull then Inr None else bindE (byte_field v (Some 16) True) (\<lambda>oid. Inr (Some oid)))"

lemma decodeMessage_Inr:
  assumes "decodeMessage rt p = Inr m" "\<not> sm_data m"
  obtains fs where "decode_body rt p (int MAXIMUM_PLAINTEXT_BYTES) = Inr (JMap fs)" "length fs = 3"
    "list_all (\<lambda>f. numeric_key [0, 1, 2] (fst f)) fs"
    "unsigned_field (map_get fs 0) = Inr (int (MESSAGE_KIND (sm_kind m)))" "sm_kind m \<noteq> Block_fragment"
    "operation_value (map_get fs 1) = Inr (sm_operationId m)"
    "requireMessageIdentity (sm_kind m) (sm_operationId m) = Inr ()"
    "encode_value rt (map_get fs 2) = Inr (sm_body m)" "sm_plaintext m = p" "length p \<le> MAXIMUM_PLAINTEXT_BYTES"
proof -
  have data: "decodeFragmentMessage p \<noteq> Inr m"
    using assms(2) by (auto simp add: decodeFragmentMessage_def bindE_eq_Inr split: if_splits)
  have g: "\<not> (length p = 0 \<or> length p > MAXIMUM_PLAINTEXT_BYTES)"
  proof
    assume "length p = 0 \<or> length p > MAXIMUM_PLAINTEXT_BYTES"
    from assms(1) [unfolded decodeMessage_def if_P [OF this]] show False by simp
  qed
  have h: "\<not> (byte_at p 0 = Some 1 \<and> byte_at p 1 = Some (of_nat (MESSAGE_KIND Block_fragment)))"
  proof
    assume "byte_at p 0 = Some 1 \<and> byte_at p 1 = Some (of_nat (MESSAGE_KIND Block_fragment))"
    from assms(1) [unfolded decodeMessage_def if_not_P [OF g] if_P [OF this]] data show False by simp
  qed
  note step = assms(1) [unfolded decodeMessage_def if_not_P [OF g] if_not_P [OF h] operation_value_def [symmetric]]
  obtain decoded where 1: "decode_body rt p (int MAXIMUM_PLAINTEXT_BYTES) = Inr decoded"
    using step by (auto simp only: bindE_eq_Inr)
  note step = step [unfolded 1 bindE_Inr]
  obtain fs where 2: "numeric_map decoded [0, 1, 2] = Inr fs"
    using step by (auto simp only: bindE_eq_Inr)
  note step = step [unfolded 2 bindE_Inr]
  obtain n where 3: "unsigned_field (map_get fs 0) = Inr n"
    using step by (auto simp only: bindE_eq_Inr)
  note step = step [unfolded 3 bindE_Inr]
  obtain k where k: "n = int (MESSAGE_KIND k)" "kind_of n = Some k"
    using step by (cases "kind_of n") (simp_all add: kind_of_iff)
  have "decoded = JMap fs" "length fs = 3" "list_all (\<lambda>f. numeric_key [0, 1, 2] (fst f)) fs"
    using 2 by (auto simp add: of_cbor_Inr requireNumericMap_def split: js_value.splits if_splits)
  moreover obtain oid body where "k \<noteq> Block_fragment" "operation_value (map_get fs 1) = Inr oid"
      "requireMessageIdentity k oid = Inr ()" "encode_value rt (map_get fs 2) = Inr body"
      "m = \<lparr>sm_kind = k, sm_operationId = oid, sm_body = body, sm_plaintext = p, sm_data = False\<rparr>"
    using step unfolding k(2) option.case
    by (cases "k = Block_fragment") (simp_all only: bindE_eq_Inr if_True if_False, auto)
  ultimately show thesis
    using that [of fs] 1 3 k g by simp
qed

text \<open>
  C4. A sender control that the receiver accepts is one that the sender signed for exactly this delivery: the same share,
  protocol session, lane, lane epoch, sequence number, message kind and operation, and the same digest of the wrapper
  that carries the accepted body. A control cannot be replayed in another place or as another kind. The body has passed
  the closed validator of its kind.
\<close>

theorem sender_controls_bound:
  assumes "decodeMessage rt p = Inr m" "\<not> sm_data m" "verifySenderControl rt sha verify m b = Inr body"
    and "signs_only sha verify controls" "\<And>x. length (sha x) = 32"
  shows "validateSenderControlBody rt (sm_kind m) body = Inr () \<and>
    (\<exists>v w n w'. encode_value rt v = Inr body \<and> encode_value rt (unsigned_wrapper v) = Inr w \<and>
       (n, b, w') \<in> controls \<and> sm_kind n = sm_kind m \<and> sm_operationId n = sm_operationId m \<and> sha w = sha w')"
proof -
  obtain d v w q s where v: "encode_value rt v = Inr body" "encode_value rt (unsigned_wrapper v) = Inr w"
    "controlPreimage sha m b d w = Inr q" "verify q s = Some True" "validateSenderControlBody rt (sm_kind m) body = Inr ()"
    using assms(2,3) by (auto simp add: verifySenderControl_def bindE_eq_Inr message_verifyEd25519_def unsigned_wrapper_def
        Let_def split: if_splits option.splits)
  obtain n b' w' d' where n: "(n, b', w') \<in> controls" "controlPreimage sha n b' d' w' = Inr q"
    "requireMessageIdentity (sm_kind n) (sm_operationId n) = Inr ()"
    using assms(4) v(4) unfolding signs_only_def by blast
  have m: "requireMessageIdentity (sm_kind m) (sm_operationId m) = Inr ()"
    using assms(1,2) by (rule decodeMessage_Inr)
  have "sm_kind m = sm_kind n \<and> sm_operationId m = sm_operationId n \<and> b = b' \<and> sha w = sha w'"
    by (rule preimage_inj [OF v(3) n(2) assms(5) m n(3)])
  with v n show ?thesis by metis
qed


section \<open>Messages round trip\<close>

text \<open>The three fields of a message in the order of a decoded map.\<close>

lemma three_fields:
  assumes "js_norm (JMap fs) = JMap fs" "js_encodes (JMap fs) c" "length fs = 3"
    and "list_all (\<lambda>f. numeric_key [0, 1, 2] (fst f)) fs"
  shows "fs = [(JNumber (Integral 0), map_get fs 0), (JNumber (Integral 1), map_get fs 1), (JNumber (Integral 2), map_get fs 2)]"
proof -
  obtain f0 f1 f2 where fs: "fs = [f0, f1, f2]"
    using assms(3) by (metis (no_types) length_0_conv length_Suc_conv numeral_3_eq_3)
  from assms(2) obtain ps where ps: "list_all2 (\<lambda>f (k, c). fst f = JNumber (Integral (int k)) \<and> js_encodes (snd f) c) fs ps"
      "distinct (map fst ps)"
    by (cases rule: js_encodes.cases) auto
  then obtain k0 k1 k2 where k: "fst f0 = JNumber (Integral (int k0))" "fst f1 = JNumber (Integral (int k1))"
      "fst f2 = JNumber (Integral (int k2))" "k0 \<noteq> k1" "k0 \<noteq> k2" "k1 \<noteq> k2"
    unfolding fs by (auto simp add: list_all2_Cons1)
  have small: "k0 \<le> 2" "k1 \<le> 2" "k2 \<le> 2"
    using assms(4) k unfolding fs by auto
  have "sorted (map (\<lambda>f. key_number (fst f)) fs)"
    using assms(1) by (metis (no_types, lifting) js_norm.simps(3) js_value.inject(7) sorted_sort_key)
  then have "k0 \<le> k1" "k1 \<le> k2"
    using k unfolding fs by simp_all
  with k(4-6) small have "k0 = 0" "k1 = 1" "k2 = 2" by linarith+
  with k show ?thesis unfolding fs by (auto simp add: prod_eq_iff)
qed


lemma map_first_byte:
  assumes "js_encodes (JMap fs) c" "length fs = 3"
  shows "byte_at (cbor_encode c) 0 = Some 0xa3"
proof -
  obtain ps where c: "c = CMap (sort_key fst ps)" "length ps = 3"
    using assms unfolding js_encodes_simps by (auto dest: list_all2_lengthD)
  then show ?thesis
    by (simp add: cbor_head_def byte_at_def octet_def)
qed

lemma message_map_norm: "js_norm v = v \<Longrightarrow> js_norm (message_map k x v) = message_map k x v"
  by (cases x) (simp_all add: message_map_def)

lemma message_map_get:
  "map_get fs 0 = a" "map_get fs 1 = b" "map_get fs 2 = c"
  if "fs = [(JNumber (Integral 0), a), (JNumber (Integral 1), b), (JNumber (Integral 2), c)]"
  using that by simp_all

lemma plaintext_limit: "int MAXIMUM_PLAINTEXT_BYTES \<le> max_safe_integer"
  by (simp add: MAXIMUM_PLAINTEXT_BYTES_def max_safe_integer_def)

lemma encoded_message_decodes:
  assumes c: "cborg_contract rt" and e: "encodeMessage rt k x body = Inr m" and k: "k \<noteq> Block_fragment"
  shows "decodeMessage rt (sm_plaintext m) = Inr m"
proof -
  obtain v pl where id: "requireMessageIdentity k x = Inr ()" and v: "decode_body rt body (int MAXIMUM_PLAINTEXT_BYTES) = Inr v"
    and pl: "encode_value rt (message_map k x v) = Inr pl" "length pl \<le> MAXIMUM_PLAINTEXT_BYTES"
    and m: "m = \<lparr>sm_kind = k, sm_operationId = x, sm_body = body, sm_plaintext = pl, sm_data = False\<rparr>"
    using e by (auto simp add: encodeMessage_def bindE_eq_Inr split: if_splits)
  note b = decode_body_encode [OF c v]
  have d: "decode_body rt pl (int MAXIMUM_PLAINTEXT_BYTES) = Inr (message_map k x v)"
    using encode_value_decode [OF c pl(1), of "int MAXIMUM_PLAINTEXT_BYTES"] pl(2) plaintext_limit b
    by (simp add: message_map_norm)
  obtain t where t: "js_encodes (message_map k x v) t" "pl = cbor_encode t"
    using c pl(1) by (rule encode_value_encodes)
  have first: "byte_at pl 0 = Some 0xa3"
    unfolding t(2) by (rule map_first_byte [OF t(1) [unfolded message_map_def]]) simp
  then have "pl \<noteq> []"
    by (auto simp add: byte_at_def)
  define fs where "fs = [(JNumber (Integral 0), JNumber (Integral (int (MESSAGE_KIND k)))),
    (JNumber (Integral 1), case x of None \<Rightarrow> JNull | Some oid \<Rightarrow> JBytes oid), (JNumber (Integral 2), v)]"
  have n: "numeric_map (message_map k x v) [0, 1, 2] = Inr fs"
    by (simp add: message_map_def requireNumericMap_def of_cbor_def fs_def max_safe_integer_def)
  note get = message_map_get [OF fs_def]
  have u: "unsigned_field (map_get fs 0) = Inr (int (MESSAGE_KIND k))"
    unfolding get unsigned_number using message_kind_bound [of k] by (simp add: max_safe_integer_def)
  have o1: "operation_value (map_get fs 1) = Inr x"
    unfolding get using identity_operation [OF id]
    by (auto simp add: operation_value_def requireByteField_def of_cbor_def)
  show ?thesis
    unfolding m session_message.simps decodeMessage_def
    using \<open>pl \<noteq> []\<close> pl(2) first d n u k o1 id b
    by (simp add: kind_of_iff [THEN iffD2] operation_value_def [symmetric] get(3))
qed


lemma kind_value:
  assumes "unsigned_field v = Inr (int (MESSAGE_KIND k))" "js_norm v = v"
  shows "v = JNumber (Integral (int (MESSAGE_KIND k)))"
proof -
  have "integerValue v = Some (int (MESSAGE_KIND k))"
    using assms(1) by (auto simp add: of_cbor_Inr requireUnsigned_def split: option.splits if_splits)
  then show ?thesis
    using assms(2) message_kind_bound [of k]
    by (cases v rule: integerValue.cases) (auto simp add: max_safe_integer_def split: if_splits)
qed

lemma operation_value_back:
  "operation_value v = Inr x \<Longrightarrow> v = (case x of None \<Rightarrow> JNull | Some oid \<Rightarrow> JBytes oid)"
  by (auto simp add: operation_value_def bindE_eq_Inr of_cbor_Inr requireByteField_def split: if_splits js_value.splits)

lemma field_shorter:
  assumes "js_encodes (message_map k x v) c" "js_encodes v t"
  shows "length (cbor_encode t) \<le> length (cbor_encode c)"
proof -
  obtain ps where c: "c = CMap (sort_key fst ps)"
    and ps: "list_all2 (\<lambda>f (k, c). fst f = JNumber (Integral (int k)) \<and> js_encodes (snd f) c)
      [(JNumber (Integral 0), JNumber (Integral (int (MESSAGE_KIND k)))),
       (JNumber (Integral 1), case x of None \<Rightarrow> JNull | Some oid \<Rightarrow> JBytes oid), (JNumber (Integral 2), v)] ps"
    using assms(1) unfolding message_map_def js_encodes_simps by blast
  then obtain t' where "(2, t') \<in> set ps" "js_encodes v t'"
    by (auto simp add: list_all2_Cons1)
  moreover from this have "t' = t"
    using assms(2) encodes_det by blast
  ultimately have "(2, t) \<in> set (sort_key fst ps)" by simp
  then have "length (cbor_head 0 2 @ cbor_encode t) \<le> 
      sum_list (map (\<lambda>f. length (cbor_head 0 (fst f) @ cbor_encode (snd f))) (sort_key fst ps))"
    by (intro member_le_sum_list) (auto simp add: image_iff intro!: bexI [of _ "(2, t)"])
  then show ?thesis
    by (simp add: c length_concat comp_def case_prod_beta)
qed

lemma decoded_message_encodes:
  assumes c: "cborg_contract rt" and d: "decodeMessage rt p = Inr m" "\<not> sm_data m"
  shows "encodeMessage rt (sm_kind m) (sm_operationId m) (sm_body m) = Inr m \<and> sm_kind m \<noteq> Block_fragment \<and> sm_plaintext m = p"
proof -
  obtain fs where fs: "decode_body rt p (int MAXIMUM_PLAINTEXT_BYTES) = Inr (JMap fs)" "length fs = 3"
    "list_all (\<lambda>f. numeric_key [0, 1, 2] (fst f)) fs"
    "unsigned_field (map_get fs 0) = Inr (int (MESSAGE_KIND (sm_kind m)))" "sm_kind m \<noteq> Block_fragment"
    "operation_value (map_get fs 1) = Inr (sm_operationId m)"
    "requireMessageIdentity (sm_kind m) (sm_operationId m) = Inr ()"
    "encode_value rt (map_get fs 2) = Inr (sm_body m)" "sm_plaintext m = p" "length p \<le> MAXIMUM_PLAINTEXT_BYTES"
    using d by (rule decodeMessage_Inr)
  note p = decode_body_encode [OF c fs(1)]
  obtain t where t: "js_encodes (JMap fs) t" "p = cbor_encode t"
    using c p [THEN conjunct1] by (rule encode_value_encodes)
  have three: "fs = [(JNumber (Integral 0), map_get fs 0), (JNumber (Integral 1), map_get fs 1), (JNumber (Integral 2), map_get fs 2)]"
    by (rule three_fields) (use p t fs in simp_all)
  have norms: "js_norm (map_get fs 0) = map_get fs 0" "js_norm (map_get fs 2) = map_get fs 2"
  proof -
    have "js_norm (JMap [(JNumber (Integral 0), map_get fs 0), (JNumber (Integral 1), map_get fs 1), (JNumber (Integral 2), map_get fs 2)]) =
       JMap [(JNumber (Integral 0), map_get fs 0), (JNumber (Integral 1), map_get fs 1), (JNumber (Integral 2), map_get fs 2)]"
      using p by (simp only: three [symmetric])
    then show "js_norm (map_get fs 0) = map_get fs 0" "js_norm (map_get fs 2) = map_get fs 2" by simp_all
  qed
  have map1: "JMap fs = message_map (sm_kind m) (sm_operationId m) (map_get fs 2)"
    using kind_value [OF fs(4) norms(1)] operation_value_back [OF fs(6)] three by (simp add: message_map_def)
  obtain u where u: "js_encodes (map_get fs 2) u" "sm_body m = cbor_encode u"
    using c fs(8) by (rule encode_value_encodes)
  have "length (sm_body m) \<le> MAXIMUM_PLAINTEXT_BYTES"
    using field_shorter [OF t(1) [unfolded map1] u(1)] t(2) u(2) fs(10) by simp
  then have "decode_body rt (sm_body m) (int MAXIMUM_PLAINTEXT_BYTES) = Inr (map_get fs 2)"
    using encode_value_decode [OF c fs(8), of "int MAXIMUM_PLAINTEXT_BYTES"] plaintext_limit norms by simp
  then show ?thesis
    using fs p d(2) by (simp add: encodeMessage_def map1)
qed

text \<open>
  C36. Control messages have exactly one wire form. Under the contract of the CBOR package, a message that encodes decodes
  to the same kind, operation, body and plaintext, unless it carries the kind of a block fragment, which has its own
  codec; and the plaintext of every control message that decodes is the one that its decoded fields encode to.
\<close>

theorem message_round_trip:
  assumes "cborg_contract rt"
  shows "(encodeMessage rt k x body = Inr m \<and> k \<noteq> Block_fragment) \<longleftrightarrow>
    (decodeMessage rt (sm_plaintext m) = Inr m \<and> \<not> sm_data m \<and> sm_kind m = k \<and> sm_operationId m = x \<and> sm_body m = body)"
proof
  assume e: "encodeMessage rt k x body = Inr m \<and> k \<noteq> Block_fragment"
  then have "sm_kind m = k" "sm_operationId m = x" "sm_body m = body" "\<not> sm_data m"
    by (auto simp add: encodeMessage_def bindE_eq_Inr split: if_splits)
  with e encoded_message_decodes [OF assms] show "decodeMessage rt (sm_plaintext m) = Inr m \<and> \<not> sm_data m \<and> sm_kind m = k \<and>
      sm_operationId m = x \<and> sm_body m = body"
    by blast
next
  assume "decodeMessage rt (sm_plaintext m) = Inr m \<and> \<not> sm_data m \<and> sm_kind m = k \<and> sm_operationId m = x \<and> sm_body m = body"
  with decoded_message_encodes [OF assms, of "sm_plaintext m" m] show "encodeMessage rt k x body = Inr m \<and> k \<noteq> Block_fragment"
    by blast
qed


definition sample_message_id :: bytes where "sample_message_id = replicate 16 7"

definition sample_message_cbor :: cbor where
  "sample_message_cbor = CMap [(0, CUnsigned 9), (1, CBytes sample_message_id), (2, CNull)]"

definition sample_message_runtime :: cbor_runtime where
  "sample_message_runtime = table_runtime [(JNull, CNull), (message_map Cancel (Some sample_message_id) JNull, sample_message_cbor)]"

lemma sample_message_encodes: "js_encodes (message_map Cancel (Some sample_message_id) JNull) sample_message_cbor"
proof -
  let ?ps = "[(0, CUnsigned 9), (1, CBytes sample_message_id), (2, CNull)] :: (nat \<times> cbor) list"
  have "js_encodes (message_map Cancel (Some sample_message_id) JNull) (CMap (sort_key fst ?ps))"
    unfolding message_map_def by (rule enc_map) (auto intro!: js_encodes_intros simp add: sample_message_id_def)
  moreover have "sort_key fst ?ps = ?ps" by simp
  ultimately show ?thesis by (simp add: sample_message_cbor_def)
qed

lemma sample_message_norm: "js_norm (message_map Cancel (Some sample_message_id) JNull) = message_map Cancel (Some sample_message_id) JNull"
  by (rule message_map_norm) simp

lemma sample_message_contract: "cborg_contract sample_message_runtime"
  unfolding sample_message_runtime_def
  by (rule table_contract_plain)
    (use sample_message_encodes sample_message_norm enc_null in \<open>auto simp add: sample_message_cbor_def cbor_head_def\<close>)

definition sample_message :: session_message where
  "sample_message = \<lparr>sm_kind = Cancel, sm_operationId = Some sample_message_id, sm_body = [0xf6],
     sm_plaintext = cbor_encode sample_message_cbor, sm_data = False\<rparr>"

lemma sample_null:
  "decode_body sample_message_runtime [0xf6] (int MAXIMUM_PLAINTEXT_BYTES) = Inr JNull"
proof -
  have "canonical_item [0xf6] 0 0 = Inr 1"
    by (simp add: canonical_item.simps next_byte_def cbor_limits)
  then show ?thesis
    by (simp add: decode_body_def decodeCanonicalCbor_def decodeCbor_def validateCanonicalEncoding_def cbor_limits of_cbor_def
        max_safe_integer_def message_limits sample_message_runtime_def table_runtime_def)
qed

lemma sample_message_value:
  "encode_value sample_message_runtime (message_map Cancel (Some sample_message_id) JNull) = Inr (cbor_encode sample_message_cbor)"
proof -
  have "js_wf (\<lambda>s. isWellFormedUnicode s \<and> cb_nfc sample_message_runtime s = s) 0 (message_map Cancel (Some sample_message_id) JNull)"
    by (auto simp add: message_map_def max_safe_integer_def intro!: js_wf.intros)
  then show ?thesis
    by (simp add: encode_value_def encodeCanonicalCbor_def validateValue_wf [symmetric] del: validateValue.simps)
      (simp add: sample_message_runtime_def table_runtime_def of_cbor_def message_map_def)
qed

lemma sample_message_encode: "encodeMessage sample_message_runtime Cancel (Some sample_message_id) [0xf6] = Inr sample_message"
proof -
  have "requireMessageIdentity Cancel (Some sample_message_id) = Inr ()"
    by (simp add: requireMessageIdentity_def session_kind_def sample_message_id_def requireByteField_def of_cbor_def nonzero_replicate)
  moreover have "length (cbor_encode sample_message_cbor) \<le> MAXIMUM_PLAINTEXT_BYTES"
    by (simp add: sample_message_cbor_def sample_message_id_def cbor_head_def message_limits)
  ultimately show ?thesis
    by (simp add: encodeMessage_def sample_null sample_message_value sample_message_def)
qed

theorem message_round_trip_witness:
  "decodeMessage sample_message_runtime (sm_plaintext sample_message) = Inr sample_message"
  using message_round_trip [OF sample_message_contract, of Cancel "Some sample_message_id" "[0xf6]" sample_message]
    sample_message_encode by blast


section \<open>A sample control\<close>

definition control_body :: js_value where "control_body = JMap [(JInt 0, JInt 1), (JInt 1, JInt 3)]"

definition control_wrapper :: js_value where
  "control_wrapper = JMap [(JInt 0, JInt 1), (JInt 1, control_body), (JInt 255, JBytes (replicate 64 5))]"

definition control_cbor :: cbor where "control_cbor = CMap [(0, CUnsigned 1), (1, CUnsigned 3)]"

definition wrapper_cbor :: cbor where
  "wrapper_cbor = CMap [(0, CUnsigned 1), (1, control_cbor), (255, CBytes (replicate 64 5))]"

definition unsigned_cbor :: cbor where "unsigned_cbor = CMap [(0, CUnsigned 1), (1, control_cbor)]"

definition control_message_cbor :: cbor where
  "control_message_cbor = CMap [(0, CUnsigned 14), (1, CBytes sample_message_id), (2, wrapper_cbor)]"

definition control_table :: "(js_value \<times> cbor) list" where
  "control_table = [(control_body, control_cbor), (unsigned_wrapper control_body, unsigned_cbor),
     (control_wrapper, wrapper_cbor), (message_map Operation_complete (Some sample_message_id) control_wrapper, control_message_cbor)]"

lemma control_encodes:
  "js_encodes control_body control_cbor"
  "js_encodes (unsigned_wrapper control_body) unsigned_cbor"
  "js_encodes control_wrapper wrapper_cbor"
  "js_encodes (message_map Operation_complete (Some sample_message_id) control_wrapper) control_message_cbor"
proof -
  show 1: "js_encodes control_body control_cbor"
    unfolding control_body_def control_cbor_def by (rule enc_sorted_map) (auto intro!: enc_unsigned)
  show "js_encodes (unsigned_wrapper control_body) unsigned_cbor"
    unfolding unsigned_wrapper_def unsigned_cbor_def message_limits by (rule enc_sorted_map) (auto intro!: enc_unsigned 1)
  show 2: "js_encodes control_wrapper wrapper_cbor"
    unfolding control_wrapper_def wrapper_cbor_def by (rule enc_sorted_map) (auto intro!: enc_unsigned 1 enc_bytes)
  show "js_encodes (message_map Operation_complete (Some sample_message_id) control_wrapper) control_message_cbor"
    unfolding message_map_def control_message_cbor_def
    by (rule enc_sorted_map) (auto intro!: enc_unsigned 2 enc_bytes simp add: sample_message_id_def)
qed

lemma control_norms:
  "js_norm control_body = control_body" "js_norm (unsigned_wrapper control_body) = unsigned_wrapper control_body"
  "js_norm control_wrapper = control_wrapper"
  "js_norm (message_map Operation_complete (Some sample_message_id) control_wrapper) =
     message_map Operation_complete (Some sample_message_id) control_wrapper"
  by (simp_all add: control_body_def control_wrapper_def unsigned_wrapper_def message_map_def message_limits)


lemma control_sizes:
  "length (cbor_encode control_cbor) = 5" "length (cbor_encode unsigned_cbor) = 9" "length (cbor_encode wrapper_cbor) = 77"
  "length (cbor_encode control_message_cbor) = 99"
  by (simp_all add: control_cbor_def unsigned_cbor_def wrapper_cbor_def control_message_cbor_def sample_message_id_def cbor_head_def)

lemma control_contract: "cborg_contract (table_runtime control_table)"
  by (rule table_contract_plain) (auto simp add: control_table_def control_encodes control_norms control_sizes)

lemma control_wf:
  "js_wf T 0 control_body" "js_wf T 0 (unsigned_wrapper control_body)" "js_wf T 0 control_wrapper"
  "js_wf T 0 (message_map Operation_complete (Some sample_message_id) control_wrapper)"
  by (auto simp add: control_body_def control_wrapper_def unsigned_wrapper_def message_map_def message_limits max_safe_integer_def
      intro!: js_wf.intros)

lemma control_values:
  "encode_value (table_runtime control_table) control_body = Inr (cbor_encode control_cbor)"
  "encode_value (table_runtime control_table) (unsigned_wrapper control_body) = Inr (cbor_encode unsigned_cbor)"
  "encode_value (table_runtime control_table) control_wrapper = Inr (cbor_encode wrapper_cbor)"
  "encode_value (table_runtime control_table) (message_map Operation_complete (Some sample_message_id) control_wrapper) =
     Inr (cbor_encode control_message_cbor)"
  by (rule table_encode [OF control_contract _ _ control_wf(1)] table_encode [OF control_contract _ _ control_wf(2)]
      table_encode [OF control_contract _ _ control_wf(3)] table_encode [OF control_contract _ _ control_wf(4)];
      simp add: control_table_def control_encodes)+

lemma control_bodies:
  "decode_body (table_runtime control_table) (cbor_encode control_cbor) (int MAXIMUM_PLAINTEXT_BYTES) = Inr control_body"
  "decode_body (table_runtime control_table) (cbor_encode wrapper_cbor) (int MAXIMUM_PLAINTEXT_BYTES) = Inr control_wrapper"
  using encode_value_decode [OF control_contract control_values(1), of "int MAXIMUM_PLAINTEXT_BYTES"]
    encode_value_decode [OF control_contract control_values(3), of "int MAXIMUM_PLAINTEXT_BYTES"]
  by (simp_all add: control_sizes control_norms plaintext_limit) (simp_all add: message_limits)

definition control_message :: session_message where
  "control_message = \<lparr>sm_kind = Operation_complete, sm_operationId = Some sample_message_id,
     sm_body = cbor_encode wrapper_cbor, sm_plaintext = cbor_encode control_message_cbor, sm_data = False\<rparr>"

definition sample_control_binding :: control_binding where
  "sample_control_binding = \<lparr>cb_shareInstance = replicate 16 1, cb_protocolSessionId = replicate 16 2, cb_laneId = Integral 1,
     cb_laneEpoch = Integral 0, cb_direction = 1, cb_sequence = 4\<rparr>"

definition sample_sha :: "bytes \<Rightarrow> bytes" where "sample_sha b = replicate 32 (of_nat (length b))"

definition sample_verify :: "bytes \<Rightarrow> bytes \<Rightarrow> bool option" where
  "sample_verify p s = Some (controlPreimage sample_sha control_message sample_control_binding DOMAIN_operation
     (cbor_encode unsigned_cbor) = Inr p \<and> s = replicate 64 5)"

lemma control_identity: "requireMessageIdentity Operation_complete (Some sample_message_id) = Inr ()"
  by (simp add: requireMessageIdentity_def session_kind_def sample_message_id_def requireByteField_def of_cbor_def nonzero_replicate)

lemma control_message_decodes:
  "decodeMessage (table_runtime control_table) (cbor_encode control_message_cbor) = Inr control_message"
proof -
  have "encodeMessage (table_runtime control_table) Operation_complete (Some sample_message_id) (cbor_encode wrapper_cbor) =
     Inr control_message"
    using control_identity by (simp add: encodeMessage_def control_bodies control_values control_sizes control_message_def)
      (simp add: message_limits)
  from encoded_message_decodes [OF control_contract this] show ?thesis
    by (simp add: control_message_def)
qed


lemma control_preimage_ok: "\<exists>p. controlPreimage sample_sha control_message sample_control_binding DOMAIN_operation
    (cbor_encode unsigned_cbor) = Inr p"
  by (simp add: controlPreimage_def sample_control_binding_def requireByteField_def of_cbor_def nonzero_replicate integer_between_iff)

lemma control_body_valid:
  "validateSenderControlBody (table_runtime control_table) Operation_complete (cbor_encode control_cbor) = Inr ()"
proof -
  have "numeric_map control_body [0, 1] = Inr [(JInt 0, JInt 1), (JInt 1, JInt 3)]"
    by (simp add: control_body_def requireNumericMap_def of_cbor_def max_safe_integer_def)
  then show ?thesis
    by (simp add: validateOperationComplete_def control_bodies message_schema_def message_uint32_def requireUnsigned_def of_cbor_def
        max_safe_integer_def)
qed

lemma control_accepted:
  "verifySenderControl (table_runtime control_table) sample_sha sample_verify control_message sample_control_binding =
     Inr (cbor_encode control_cbor)"
proof -
  have w: "numeric_map control_wrapper [0, 1, 255] = Inr [(JInt 0, JInt 1), (JInt 1, control_body), (JInt 255, JBytes (replicate 64 5))]"
    by (simp add: control_wrapper_def requireNumericMap_def of_cbor_def max_safe_integer_def)
  obtain p where p: "controlPreimage sample_sha control_message sample_control_binding DOMAIN_operation
      (cbor_encode unsigned_cbor) = Inr p"
    using control_preimage_ok by blast
  have v: "message_verifyEd25519 sample_verify p (replicate 64 5) = Inr True"
    by (simp add: message_verifyEd25519_def sample_verify_def p)
  have u: "unsigned_field (JInt 1) = Inr 1" "byte_field (JBytes (replicate 64 5)) (Some 64) False = Inr (replicate 64 5)"
    by (simp_all add: requireUnsigned_def requireByteField_def of_cbor_def max_safe_integer_def)
  have k: "sm_data control_message = False" "sm_kind control_message = Operation_complete"
    "sm_body control_message = cbor_encode wrapper_cbor"
    by (simp_all add: control_message_def)
  have keys: "CONTROL_SCHEMA_KEY = 0" "CONTROL_BODY_KEY = 1" "CONTROL_SIGNATURE_KEY = 255" "SENDER_CONTROL_SCHEMA_VERSION = 1"
    by (simp_all add: message_limits)
  show ?thesis
    unfolding verifySenderControl_def k control_bodies(2) keys
    by (simp add: w u control_values control_values(2) [unfolded unsigned_wrapper_def keys] p v control_body_valid [unfolded validateSenderControlBody.simps])
qed

lemma control_signs:
  "signs_only sample_sha sample_verify {(control_message, sample_control_binding, cbor_encode unsigned_cbor)}"
  using control_identity by (auto simp add: signs_only_def sample_verify_def control_message_def)

theorem sender_controls_bound_witness:
  "validateSenderControlBody (table_runtime control_table) (sm_kind control_message) (cbor_encode control_cbor) = Inr ()"
proof -
  have "\<not> sm_data control_message" "\<And>x. length (sample_sha x) = 32"
    by (simp_all add: control_message_def sample_sha_def)
  from sender_controls_bound [OF control_message_decodes this(1) control_accepted control_signs this(2)] show ?thesis
    by blast
qed

section \<open>Operation errors\<close>

lemma retry_delay:
  "operationRetryDelay r v = Inr d \<Longrightarrow>
   (case d of None \<Rightarrow> \<not> r | Some n \<Rightarrow> r \<and> 1 \<le> n \<and> n \<le> 30000)"
  by (auto simp add: operationRetryDelay_def bindE_eq_Inr message_limits split: if_splits)

lemma bounded_message_Inr:
  "bounded_message rt v = Inr t \<Longrightarrow>
   0 < length t \<and> length (text_encode t) \<le> 512 \<and> isWellFormedUnicode t \<and> cb_nfc rt t = t"
  by (auto simp add: bounded_message_def bindE_eq_Inr message_limits split: if_splits)

lemma error_attempt:
  assumes "decodeErrorPeerAttempt v = Inr a"
  shows "length (pa_peerPathId a) = 16 \<and> length (pa_attemptId a) = 16 \<and>
    1 \<le> pa_attemptSequence a \<and> pa_attemptSequence a < 2 ^ 64 \<and> 0 \<le> pa_peerSlot a \<and> pa_peerSlot a < 4"
proof -
  have "0 \<le> n" if "requireUnsigned x = Inr n" for x n
    using that by (auto simp add: requireUnsigned_def split: option.splits if_splits)
  moreover have "length b = 16" if "requireByteField x (Some 16) z = Inr b" for x z b
    using that by (auto simp add: requireByteField_def split: js_value.splits if_splits)
  moreover have "0 \<le> s \<and> s < 4" if "requirePeerSlot x = Inr s" for x s
    using that by (auto simp add: requirePeerSlot_def PEER_CONTINUATION_SLOTS_def split: if_splits)
  ultimately show ?thesis
    using assms by (fastforce simp add: decodeErrorPeerAttempt_def bindE_eq_Inr of_cbor_Inr split: if_splits)
qed

lemma error_scope_peer: "operationErrorScope n = Inr s \<Longrightarrow> s = Scope_peer \<longleftrightarrow> n = 5"
  by (auto simp add: operationErrorScope_def split: if_splits)

text \<open>
  C37. Every operation error that the receiver accepts is closed: its code belongs to the registry range of its scope, it
  names a retry delay exactly when it is retryable, and the delay is between one millisecond and thirty seconds; a peer
  error is permanent, and it is the only one that carries a peer attempt, with two sixteen-octet identities, a positive
  64-bit sequence and one of the four slots; the message is nonempty normalised text of at most 512 octets.
\<close>

theorem operation_errors_closed:
  assumes "decodeOperationErrorControl rt body = Inr e"
  shows "fst (operationErrorCodeRange (oc_scope e)) \<le> oc_code e \<and> oc_code e \<le> snd (operationErrorCodeRange (oc_scope e)) \<and>
    (case oc_retryAfterMilliseconds e of None \<Rightarrow> \<not> oc_retryable e | Some d \<Rightarrow> oc_retryable e \<and> 1 \<le> d \<and> d \<le> 30000) \<and>
    (case oc_peerAttempt e of
       None \<Rightarrow> oc_scope e \<noteq> Scope_peer
     | Some a \<Rightarrow> oc_scope e = Scope_peer \<and> \<not> oc_retryable e \<and> length (pa_peerPathId a) = 16 \<and> length (pa_attemptId a) = 16 \<and>
         1 \<le> pa_attemptSequence a \<and> pa_attemptSequence a < 2 ^ 64 \<and> 0 \<le> pa_peerSlot a \<and> pa_peerSlot a < 4) \<and>
    0 < length (oc_message e) \<and> length (text_encode (oc_message e)) \<le> 512 \<and> isWellFormedUnicode (oc_message e) \<and>
    cb_nfc rt (oc_message e) = oc_message e"
proof -
  obtain decoded where 1: "decode_body rt body (int MAXIMUM_PLAINTEXT_BYTES) = Inr decoded"
    using assms by (auto simp only: decodeOperationErrorControl_def bindE_eq_Inr)
  note step = assms [unfolded decodeOperationErrorControl_def 1 bindE_Inr]
  obtain peer where 2: "(case decoded of JMap fs \<Rightarrow> bindE (unsigned_field (map_get fs 1)) (\<lambda>scope. Inr (scope = 5)) | _ \<Rightarrow> Inr False) =
      Inr peer"
    using step by (auto simp only: bindE_eq_Inr)
  note step = step [unfolded 2 bindE_Inr]
  obtain fs where 3: "numeric_map decoded (if peer then [0, 1, 2, 3, 4, 5, 6] else [0, 1, 2, 3, 4, 5]) = Inr fs"
    using step by (auto simp only: bindE_eq_Inr)
  note step = step [unfolded 3 bindE_Inr]
  have fs: "decoded = JMap fs"
    using 3 by (auto simp add: of_cbor_Inr requireNumericMap_def split: js_value.splits if_splits)
  obtain n scope where n: "unsigned_field (map_get fs 1) = Inr n" "operationErrorScope n = Inr scope" "peer = (n = 5)"
    using step 2 unfolding fs by (auto simp only: bindE_eq_Inr js_value.case sum.inject)
  note step = step [unfolded n(1,2) bindE_Inr]
  have "peer \<longleftrightarrow> scope = Scope_peer"
    using n error_scope_peer by blast
  with step show ?thesis
    by (auto simp add: bindE_eq_Inr split: if_splits option.splits dest!: retry_delay bounded_message_Inr error_attempt)
qed


text \<open>A revision error that may be retried after five milliseconds, with the message \<^verbatim>\<open>a\<close>.\<close>

definition error_value :: js_value where
  "error_value = JMap [(JInt 0, JInt 1), (JInt 1, JInt 3), (JInt 2, JInt 0x3001), (JInt 3, JBool True), (JInt 4, JInt 5),
     (JInt 5, JString [0x61])]"

definition error_cbor :: cbor where
  "error_cbor = CMap [(0, CUnsigned 1), (1, CUnsigned 3), (2, CUnsigned 0x3001), (3, CTrue), (4, CUnsigned 5), (5, CText [0x61])]"

lemma error_text: "text_encode [0x61] = [0x61]"
  by (simp add: text_encode_def scalar_value_def utf8_scalar_def octet_def)

lemma error_encodes: "js_encodes error_value error_cbor"
  unfolding error_value_def error_cbor_def
  by (rule enc_sorted_map) (auto intro!: enc_unsigned enc_bool [of True, simplified] enc_string [of "[0x61]", unfolded error_text, simplified])

definition sample_error :: operation_error_control where
  "sample_error = \<lparr>oc_peerAttempt = None, oc_scope = Scope_revision, oc_code = 0x3001, oc_retryable = True,
     oc_retryAfterMilliseconds = Some 5, oc_message = [0x61]\<rparr>"

lemma sample_error_decodes:
  "decodeOperationErrorControl (table_runtime [(error_value, error_cbor)]) (cbor_encode error_cbor) = Inr sample_error"
proof -
  have norm: "js_norm error_value = error_value"
    by (simp add: error_value_def)
  have c: "cborg_contract (table_runtime [(error_value, error_cbor)])"
    by (rule table_contract_plain) (simp_all add: error_encodes norm)
  have wf: "js_wf (\<lambda>s. isWellFormedUnicode s \<and> s = s) 0 error_value"
    by (auto simp add: error_value_def max_safe_integer_def intro!: js_wf.intros)
  have e: "encode_value (table_runtime [(error_value, error_cbor)]) error_value = Inr (cbor_encode error_cbor)"
    by (rule table_encode [OF c _ error_encodes wf]) simp
  have "length (cbor_encode error_cbor) \<le> MAXIMUM_PLAINTEXT_BYTES"
    by (simp add: error_cbor_def cbor_head_def message_limits)
  then have d: "decode_body (table_runtime [(error_value, error_cbor)]) (cbor_encode error_cbor) (int MAXIMUM_PLAINTEXT_BYTES) =
      Inr error_value"
    using encode_value_decode [OF c e, of "int MAXIMUM_PLAINTEXT_BYTES"] plaintext_limit norm by simp
  have u: "unsigned_field (JInt i) = Inr i" if "0 \<le> i" "i \<le> 65535" for i
    using that by (simp add: unsigned_number max_safe_integer_def)
  have n: "numeric_map error_value [0, 1, 2, 3, 4, 5] = Inr [(JInt 0, JInt 1), (JInt 1, JInt 3), (JInt 2, JInt 0x3001),
      (JInt 3, JBool True), (JInt 4, JInt 5), (JInt 5, JString [0x61])]"
    by (simp add: error_value_def requireNumericMap_def of_cbor_def max_safe_integer_def)
  have p: "(case error_value of JMap fs \<Rightarrow> bindE (unsigned_field (map_get fs 1)) (\<lambda>scope. Inr (scope = 5)) | _ \<Rightarrow> Inr False) = Inr False"
    by (simp add: error_value_def u)
  have t: "bounded_message (table_runtime [(error_value, error_cbor)]) (JString [0x61]) = Inr [0x61]"
    by (simp add: bounded_message_def requireText_def of_cbor_def error_text message_limits table_runtime_def)
  have b: "boolean_field (JBool True) = Inr True"
    by (simp add: requireBoolean_def of_cbor_def)
  show ?thesis
    unfolding decodeOperationErrorControl_def d bindE_Inr p
    by (simp add: n u t b message_schema_def operationErrorScope_def operationRetryDelay_def message_limits sample_error_def)
qed

theorem operation_errors_closed_witness:
  "fst (operationErrorCodeRange (oc_scope sample_error)) \<le> oc_code sample_error"
  using operation_errors_closed [OF sample_error_decodes] by blast

end
