(* ===== verification/Session_Envelope.thy ===== *)
theory Session_Envelope
  imports Wire "HOL-Library.Sublist"
begin

text \<open>
The authenticated envelopes of a session lane, \<^verbatim>\<open>web/src/session/envelope.ts\<close>: the sealer and the opener with
  their sequence counters, the frame header and the additional data that binds a ciphertext to its share, session,
  lane, direction and place.  AES-GCM is computed by the browser and is a parameter, as is the nonce of a call;
  \<open>authentic\<close> and \<open>aead_correct\<close> name what the code relies on of it.  A call of \<^verbatim>\<open>seal\<close> or \<^verbatim>\<open>open\<close> is one
  step: the writer and the receive loop of a lane, its only callers, await each call before the next.
\<close>

section \<open>Constants and data\<close>

datatype envelope_error = EnvelopeError

definition ENVELOPE_HEADER_BYTES :: nat where "ENVELOPE_HEADER_BYTES = 28"
definition ENVELOPE_TAG_BYTES :: nat where "ENVELOPE_TAG_BYTES = 16"
definition ENVELOPE_MAXIMUM_BYTES :: nat where "ENVELOPE_MAXIMUM_BYTES = 65536"
definition ENVELOPE_MAXIMUM_PLAINTEXT_BYTES :: nat where
  "ENVELOPE_MAXIMUM_PLAINTEXT_BYTES = ENVELOPE_MAXIMUM_BYTES - ENVELOPE_HEADER_BYTES - ENVELOPE_TAG_BYTES"
definition ENVELOPE_DOMAIN :: bytes where "ENVELOPE_DOMAIN = ascii ''windshare/v2 operation-envelope'' @ [0]"
definition ENVELOPE_MAXIMUM_SEQUENCE :: int where "ENVELOPE_MAXIMUM_SEQUENCE = 0xffffffffffffffff"

lemmas envelope_constants = ENVELOPE_HEADER_BYTES_def ENVELOPE_TAG_BYTES_def ENVELOPE_MAXIMUM_BYTES_def
  ENVELOPE_MAXIMUM_PLAINTEXT_BYTES_def ENVELOPE_MAXIMUM_SEQUENCE_def

record envelope_binding =
  eb_shareInstance :: bytes
  eb_protocolSessionId :: bytes
  eb_laneId :: js_number
  eb_laneEpoch :: js_number
  eb_direction :: nat

record opened_envelope =
  oe_sequence :: int
  oe_plaintext :: bytes

record parsed_header =
  ph_sequence :: int
  ph_ciphertextLength :: nat
  ph_nonce :: bytes

text \<open>The mutable fields of \<^verbatim>\<open>EnvelopeSealer\<close> and of \<^verbatim>\<open>EnvelopeOpener\<close>, which are the same.\<close>

record envelope_end =
  ee_binding :: envelope_binding
  ee_key :: bytes
  ee_sequence :: int
  ee_exhausted :: bool

text \<open>
  AES-GCM of the browser: key, nonce, additional data and text to the result, \<open>None\<close> for a rejected promise.
\<close>

type_synonym aead = "bytes \<Rightarrow> bytes \<Rightarrow> bytes \<Rightarrow> bytes \<Rightarrow> bytes option"

section \<open>Operations\<close>

definition advanceEnvelopeSequence :: "int \<Rightarrow> int \<times> bool" where
  "advanceEnvelopeSequence sequence =
     (if sequence = ENVELOPE_MAXIMUM_SEQUENCE then (sequence, True) else (sequence + 1, False))"

definition parseHeader :: "bytes \<Rightarrow> nat \<Rightarrow> envelope_error + parsed_header" where
  "parseHeader frame direction =
     (if length frame < ENVELOPE_HEADER_BYTES + ENVELOPE_TAG_BYTES \<or> length frame > ENVELOPE_MAXIMUM_BYTES \<or>
         byte_at frame 0 \<noteq> Some 2 \<or> byte_at frame 1 \<noteq> Some (of_nat direction) \<or>
         byte_at frame 2 \<noteq> Some 0 \<or> byte_at frame 3 \<noteq> Some 0 then Inl EnvelopeError
      else let ciphertextLength = get_uint 4 12 frame in
      if ciphertextLength < ENVELOPE_TAG_BYTES \<or> ENVELOPE_HEADER_BYTES + ciphertextLength \<noteq> length frame
      then Inl EnvelopeError
      else Inr \<lparr>ph_sequence = int (get_uint 8 4 frame), ph_ciphertextLength = ciphertextLength,
                ph_nonce = subarray 16 ENVELOPE_HEADER_BYTES frame\<rparr>)"

definition snapshotBinding :: "envelope_binding \<Rightarrow> envelope_error + envelope_binding" where
  "snapshotBinding b =
     (if length (eb_shareInstance b) \<noteq> 16 \<or> length (eb_protocolSessionId b) \<noteq> 16 \<or>
         \<not> nonzero (eb_shareInstance b) \<or> \<not> nonzero (eb_protocolSessionId b) \<or>
         \<not> integer_between 1 0xffffffff (eb_laneId b) \<or> \<not> integer_between 0 0xffffffff (eb_laneEpoch b) \<or>
         (eb_direction b \<noteq> 0 \<and> eb_direction b \<noteq> 1)
      then Inl EnvelopeError else Inr b)"

definition envelopeAuthenticationData :: "envelope_binding \<Rightarrow> int \<Rightarrow> nat \<Rightarrow> bytes" where
  "envelopeAuthenticationData b sequence ciphertextLength =
     concatBytes
      [ENVELOPE_DOMAIN, [2, of_nat (eb_direction b)], eb_shareInstance b, eb_protocolSessionId b,
       be_bytes 4 (nat (js_int (eb_laneId b))) @ be_bytes 4 (nat (js_int (eb_laneEpoch b))) @ be_bytes 8 (nat sequence),
       be_bytes 4 ciphertextLength]"

definition importAesKey :: "bytes \<Rightarrow> envelope_error + bytes" where
  "importAesKey keyBytes = (if length keyBytes \<noteq> 32 then Inl EnvelopeError else Inr keyBytes)"

text \<open>The constructor of the sealer and of the opener.\<close>

definition new_end :: "bytes \<Rightarrow> envelope_binding \<Rightarrow> envelope_error + envelope_end" where
  "new_end keyBytes binding =
     bindE (snapshotBinding binding) (\<lambda>b.
     bindE (importAesKey keyBytes) (\<lambda>key.
     Inr \<lparr>ee_binding = b, ee_key = key, ee_sequence = 0, ee_exhausted = False\<rparr>))"

definition nextSequence :: "envelope_end \<Rightarrow> envelope_error + int" where
  "nextSequence e = (if ee_exhausted e then Inl EnvelopeError else Inr (ee_sequence e))"

definition advance_end :: "envelope_end \<Rightarrow> envelope_end" where
  "advance_end e =
     (let (sequence, exhausted) = advanceEnvelopeSequence (ee_sequence e) in
      e\<lparr>ee_sequence := sequence, ee_exhausted := exhausted\<rparr>)"

definition envelope_header :: "envelope_binding \<Rightarrow> int \<Rightarrow> nat \<Rightarrow> bytes \<Rightarrow> bytes" where
  "envelope_header b sequence ciphertextLength nonce =
     [2, of_nat (eb_direction b), 0, 0] @ be_bytes 8 (nat sequence) @ be_bytes 4 ciphertextLength @ nonce"

text \<open>\<open>nonce\<close> is what \<^verbatim>\<open>randomBytes(12)\<close> returns in this call.\<close>

definition seal :: "aead \<Rightarrow> bytes \<Rightarrow> envelope_end \<Rightarrow> bytes \<Rightarrow> envelope_end \<times> (envelope_error + bytes)" where
  "seal encrypt nonce e plaintext =
     (if length plaintext > ENVELOPE_MAXIMUM_PLAINTEXT_BYTES then (e, Inl EnvelopeError)
      else case nextSequence e of
        Inl err \<Rightarrow> (e, Inl err)
      | Inr sequence \<Rightarrow>
          if length nonce \<noteq> 12 then (e, Inl EnvelopeError)
          else let ciphertextLength = length plaintext + ENVELOPE_TAG_BYTES;
                   header = envelope_header (ee_binding e) sequence ciphertextLength nonce in
          case encrypt (ee_key e) nonce (envelopeAuthenticationData (ee_binding e) sequence ciphertextLength) plaintext of
            None \<Rightarrow> (e, Inl EnvelopeError)
          | Some ciphertext \<Rightarrow> (advance_end e, Inr (concatBytes [header, ciphertext])))"

definition open_envelope :: "aead \<Rightarrow> envelope_end \<Rightarrow> bytes \<Rightarrow> envelope_end \<times> (envelope_error + opened_envelope)" where
  "open_envelope decrypt e frame =
     (if ee_exhausted e then (e, Inl EnvelopeError)
      else case parseHeader frame (eb_direction (ee_binding e)) of
        Inl err \<Rightarrow> (e, Inl err)
      | Inr h \<Rightarrow>
          if ph_sequence h \<noteq> ee_sequence e then (e, Inl EnvelopeError)
          else case decrypt (ee_key e) (ph_nonce h)
              (envelopeAuthenticationData (ee_binding e) (ph_sequence h) (ph_ciphertextLength h))
              (drop ENVELOPE_HEADER_BYTES frame) of
            None \<Rightarrow> (e, Inl EnvelopeError)
          | Some plaintext \<Rightarrow>
              (advance_end e, Inr \<lparr>oe_sequence = ph_sequence h, oe_plaintext = plaintext\<rparr>))"

section \<open>The additional data determines the envelope\<close>

definition binding_ok :: "envelope_binding \<Rightarrow> bool" where
  "binding_ok b \<longleftrightarrow> snapshotBinding b = Inr b"

lemma binding_okD:
  assumes "binding_ok b"
  shows "length (eb_shareInstance b) = 16" "length (eb_protocolSessionId b) = 16"
    "\<exists>i. eb_laneId b = Integral i \<and> 1 \<le> i \<and> i \<le> 0xffffffff" "\<exists>i. eb_laneEpoch b = Integral i \<and> 0 \<le> i \<and> i \<le> 0xffffffff"
    "eb_direction b = 0 \<or> eb_direction b = 1"
  using assms by (auto simp add: binding_ok_def snapshotBinding_def integer_between_iff split: if_splits)

lemma new_end_Inr:
  "new_end k b = Inr e \<longleftrightarrow> binding_ok b \<and> length k = 32 \<and>
     e = \<lparr>ee_binding = b, ee_key = k, ee_sequence = 0, ee_exhausted = False\<rparr>"
  by (auto simp add: new_end_def binding_ok_def snapshotBinding_def importAesKey_def res_simps)

lemma lane_number_inj:
  assumes "a = Integral i" "b = Integral j" "0 \<le> i" "i \<le> 0xffffffff" "0 \<le> j" "j \<le> 0xffffffff"
    "be_bytes 4 (nat (js_int a)) = be_bytes 4 (nat (js_int b))"
  shows "a = b"
proof -
  have "nat i = nat j"
    by (rule be_bytes_inj [of _ 4]) (use assms in \<open>simp_all add: nat_less_iff\<close>)
  with assms show ?thesis by simp
qed

lemma authentication_data_inj:
  assumes b: "binding_ok b" "binding_ok c" and s: "0 \<le> s" "s \<le> ENVELOPE_MAXIMUM_SEQUENCE" "0 \<le> t" "t \<le> ENVELOPE_MAXIMUM_SEQUENCE"
    and l: "l \<le> ENVELOPE_MAXIMUM_BYTES" "m \<le> ENVELOPE_MAXIMUM_BYTES"
    and eq: "envelopeAuthenticationData b s l = envelopeAuthenticationData c t m"
  shows "b = c \<and> s = t \<and> l = m"
proof -
  from eq binding_okD(1,2) [OF b(1)] binding_okD(1,2) [OF b(2)]
  have parts: "(of_nat (eb_direction b) :: byte) = of_nat (eb_direction c)" "eb_shareInstance b = eb_shareInstance c"
    "eb_protocolSessionId b = eb_protocolSessionId c"
    "be_bytes 4 (nat (js_int (eb_laneId b))) = be_bytes 4 (nat (js_int (eb_laneId c)))"
    "be_bytes 4 (nat (js_int (eb_laneEpoch b))) = be_bytes 4 (nat (js_int (eb_laneEpoch c)))"
    "be_bytes 8 (nat s) = be_bytes 8 (nat t)" "be_bytes 4 l = be_bytes 4 m"
    by (simp_all add: envelopeAuthenticationData_def)
  have "eb_direction b = eb_direction c"
    using parts(1) binding_okD(5) [OF b(1)] binding_okD(5) [OF b(2)] by auto
  moreover obtain i j i' j' where lanes: "eb_laneId b = Integral i" "1 \<le> i" "i \<le> 0xffffffff"
      "eb_laneId c = Integral j" "1 \<le> j" "j \<le> 0xffffffff" "eb_laneEpoch b = Integral i'" "0 \<le> i'" "i' \<le> 0xffffffff"
      "eb_laneEpoch c = Integral j'" "0 \<le> j'" "j' \<le> 0xffffffff"
    using binding_okD(3,4) [OF b(1)] binding_okD(3,4) [OF b(2)] by blast
  moreover have "eb_laneId b = eb_laneId c"
    by (rule lane_number_inj [OF lanes(1,4) _ lanes(3) _ lanes(6) parts(4)]) (use lanes in simp_all)
  moreover have "eb_laneEpoch b = eb_laneEpoch c"
    by (rule lane_number_inj [OF lanes(7,10) _ lanes(9) _ lanes(12) parts(5)]) (use lanes in simp_all)
  moreover have "nat s = nat t"
    by (rule be_bytes_inj [of _ 8]) (use s parts(6) in \<open>simp_all add: envelope_constants nat_less_iff\<close>)
  moreover have "l = m"
    by (rule be_bytes_inj [of _ 4]) (use l parts(7) in \<open>simp_all add: envelope_constants\<close>)
  ultimately show ?thesis
    using s parts(2,3) by simp
qed


section \<open>Runs of the two ends\<close>

text \<open>
  A run of the sealer is the list of its calls, each with the nonce it draws; it yields what was sent, the
  plaintext and the frame of every call that succeeds, and the encryptions it made.
\<close>

fun seal_run :: "aead \<Rightarrow> envelope_end \<Rightarrow> (bytes \<times> bytes) list \<Rightarrow> (bytes \<times> bytes) list" where
  "seal_run encrypt e [] = []"
| "seal_run encrypt e ((nonce, plaintext) # calls) =
     (case seal encrypt nonce e plaintext of
        (e', Inl _) \<Rightarrow> seal_run encrypt e' calls
      | (e', Inr frame) \<Rightarrow> (plaintext, frame) # seal_run encrypt e' calls)"

fun encryptions :: "aead \<Rightarrow> envelope_end \<Rightarrow> (bytes \<times> bytes) list \<Rightarrow> (bytes \<times> bytes \<times> bytes \<times> bytes) list" where
  "encryptions encrypt e [] = []"
| "encryptions encrypt e ((nonce, plaintext) # calls) =
     (case seal encrypt nonce e plaintext of
        (e', Inl _) \<Rightarrow> encryptions encrypt e' calls
      | (e', Inr frame) \<Rightarrow>
          (nonce, envelopeAuthenticationData (ee_binding e) (ee_sequence e) (length plaintext + ENVELOPE_TAG_BYTES),
           drop ENVELOPE_HEADER_BYTES frame, plaintext) # encryptions encrypt e' calls)"

fun open_run :: "aead \<Rightarrow> envelope_end \<Rightarrow> bytes list \<Rightarrow> opened_envelope list" where
  "open_run decrypt e [] = []"
| "open_run decrypt e (frame # frames) =
     (case open_envelope decrypt e frame of
        (e', Inl _) \<Rightarrow> open_run decrypt e' frames
      | (e', Inr m) \<Rightarrow> m # open_run decrypt e' frames)"

definition end_ok :: "envelope_end \<Rightarrow> bool" where
  "end_ok e \<longleftrightarrow> binding_ok (ee_binding e) \<and> length (ee_key e) = 32 \<and> 0 \<le> ee_sequence e \<and>
     ee_sequence e \<le> ENVELOPE_MAXIMUM_SEQUENCE \<and> (ee_exhausted e \<longrightarrow> ee_sequence e = ENVELOPE_MAXIMUM_SEQUENCE)"

text \<open>The number of envelopes an end has passed.\<close>

definition passed :: "envelope_end \<Rightarrow> int" where
  "passed e = (if ee_exhausted e then ENVELOPE_MAXIMUM_SEQUENCE + 1 else ee_sequence e)"

lemma new_end_ok: "new_end k b = Inr e \<Longrightarrow> end_ok e \<and> passed e = 0 \<and> ee_binding e = b \<and> ee_key e = k"
  by (auto simp add: new_end_Inr end_ok_def passed_def envelope_constants)

lemma advance_end_ok:
  assumes "end_ok e" "\<not> ee_exhausted e"
  shows "end_ok (advance_end e)" "passed (advance_end e) = passed e + 1"
    "ee_binding (advance_end e) = ee_binding e" "ee_key (advance_end e) = ee_key e"
  using assms by (auto simp add: advance_end_def advanceEnvelopeSequence_def end_ok_def passed_def envelope_constants Let_def)

lemma seal_cases:
  assumes "seal encrypt nonce e p = (e', r)"
  obtains (refused) err where "r = Inl err" "e' = e"
  | (sealed) ct where "r = Inr (envelope_header (ee_binding e) (ee_sequence e) (length p + ENVELOPE_TAG_BYTES) nonce @ ct)"
      "e' = advance_end e" "\<not> ee_exhausted e" "length nonce = 12" "length p \<le> ENVELOPE_MAXIMUM_PLAINTEXT_BYTES"
      "encrypt (ee_key e) nonce
         (envelopeAuthenticationData (ee_binding e) (ee_sequence e) (length p + ENVELOPE_TAG_BYTES)) p = Some ct"
  using assms by (auto simp add: seal_def nextSequence_def Let_def split: if_splits option.splits sum.splits)

lemma length_envelope_header: "length nonce = 12 \<Longrightarrow> length (envelope_header b s l nonce) = ENVELOPE_HEADER_BYTES"
  by (simp add: envelope_header_def envelope_constants)

lemma open_cases:
  assumes "open_envelope decrypt e frame = (e', r)"
  obtains (refused) err where "r = Inl err" "e' = e"
  | (opened) h p where "r = Inr \<lparr>oe_sequence = ee_sequence e, oe_plaintext = p\<rparr>" "e' = advance_end e" "\<not> ee_exhausted e"
      "parseHeader frame (eb_direction (ee_binding e)) = Inr h" "ph_sequence h = ee_sequence e"
      "decrypt (ee_key e) (ph_nonce h)
         (envelopeAuthenticationData (ee_binding e) (ee_sequence e) (ph_ciphertextLength h))
         (drop ENVELOPE_HEADER_BYTES frame) = Some p"
proof (cases "ee_exhausted e")
  case True
  with assms have "r = Inl EnvelopeError" "e' = e" by (simp_all add: open_envelope_def)
  then show ?thesis by (rule refused)
next
  case False
  show ?thesis
  proof (cases "parseHeader frame (eb_direction (ee_binding e))")
    case (Inl err)
    with False assms have "r = Inl err" "e' = e" by (simp_all add: open_envelope_def)
    then show ?thesis by (rule refused)
  next
    case (Inr h)
    show ?thesis
    proof (cases "ph_sequence h = ee_sequence e")
      case seq: True
      show ?thesis
      proof (cases "decrypt (ee_key e) (ph_nonce h) (envelopeAuthenticationData (ee_binding e) (ee_sequence e)
          (ph_ciphertextLength h)) (drop ENVELOPE_HEADER_BYTES frame)")
        case None
        with False Inr seq assms have "r = Inl EnvelopeError" "e' = e" by (simp_all add: open_envelope_def)
        then show ?thesis by (rule refused)
      next
        case (Some p)
        with False Inr seq assms
        have "r = Inr \<lparr>oe_sequence = ee_sequence e, oe_plaintext = p\<rparr>" "e' = advance_end e"
          by (simp_all add: open_envelope_def)
        from opened [OF this False Inr seq Some] show ?thesis .
      qed
    next
      case other: False
      with False Inr assms have "r = Inl EnvelopeError" "e' = e" by (simp_all add: open_envelope_def)
      then show ?thesis by (rule refused)
    qed
  qed
qed

lemma encryptions_nth:
  assumes "end_ok e" "i < length (encryptions encrypt e calls)"
  shows "\<exists>nonce ct p. encryptions encrypt e calls ! i =
      (nonce, envelopeAuthenticationData (ee_binding e) (passed e + int i) (length p + ENVELOPE_TAG_BYTES), ct, p) \<and>
    passed e + int i \<le> ENVELOPE_MAXIMUM_SEQUENCE \<and> length p + ENVELOPE_TAG_BYTES \<le> ENVELOPE_MAXIMUM_BYTES"
  using assms
proof (induction encrypt e calls arbitrary: i rule: encryptions.induct)
  case (1 encrypt e)
  then show ?case by simp
next
  case (2 encrypt e nonce plaintext calls)
  obtain e' r where se: "seal encrypt nonce e plaintext = (e', r)" by fastforce
  then show ?case
  proof (cases rule: seal_cases)
    case refused
    with 2 se show ?thesis by simp
  next
    case (sealed ct)
    note adv = advance_end_ok [OF 2(3) sealed(3)]
    show ?thesis
    proof (cases i)
      case 0
      with se sealed 2(3) show ?thesis
        by (auto simp add: passed_def end_ok_def envelope_constants)
    next
      case (Suc j)
      with 2(4) se sealed have "j < length (encryptions encrypt (advance_end e) calls)" by simp
      from 2(2) [OF se [symmetric, unfolded sealed(2)] sealed(1) adv(1)] this
      have "\<exists>nonce ct p. encryptions encrypt (advance_end e) calls ! j =
        (nonce, envelopeAuthenticationData (ee_binding e) (passed e + 1 + int j) (length p + ENVELOPE_TAG_BYTES), ct, p) \<and>
        passed e + 1 + int j \<le> ENVELOPE_MAXIMUM_SEQUENCE \<and> length p + ENVELOPE_TAG_BYTES \<le> ENVELOPE_MAXIMUM_BYTES"
        by (simp add: adv sealed(2))
      with Suc se sealed show ?thesis by (simp add: add.assoc)
    qed
  qed
qed

lemma encryptions_seal_run:
  "map (\<lambda>(_, _, _, p). p) (encryptions encrypt e calls) = map fst (seal_run encrypt e calls)"
  by (induction encrypt e calls rule: encryptions.induct) (auto split: prod.splits sum.splits)


section \<open>Authenticity and order\<close>

text \<open>
  What the envelopes rely on of AES-GCM.  \<open>authentic\<close>: under a key, only ciphertexts that a sealer with this key
  produced decrypt, with their nonce, additional data and plaintext.  \<open>senders\<close> is every sealer that was created with
  the key, one per binding, with its calls.
\<close>

definition authentic :: "aead \<Rightarrow> aead \<Rightarrow> bytes \<Rightarrow> (envelope_end \<times> (bytes \<times> bytes) list) set \<Rightarrow> bool" where
  "authentic encrypt decrypt k senders \<longleftrightarrow>
     (\<forall>iv aad ct p. decrypt k iv aad ct = Some p \<longrightarrow>
        (\<exists>(e, calls) \<in> senders. (iv, aad, ct, p) \<in> set (encryptions encrypt e calls)))"

definition lane_senders :: "bytes \<Rightarrow> (envelope_end \<times> (bytes \<times> bytes) list) set \<Rightarrow> bool" where
  "lane_senders k senders \<longleftrightarrow>
     (\<forall>(e, calls) \<in> senders. new_end k (ee_binding e) = Inr e \<and> (\<forall>calls'. (e, calls') \<in> senders \<longrightarrow> calls' = calls))"

lemma parseHeader_length:
  "parseHeader frame d = Inr h \<Longrightarrow> ph_ciphertextLength h \<le> ENVELOPE_MAXIMUM_BYTES"
  by (auto simp add: parseHeader_def Let_def envelope_constants split: if_splits)

text \<open>Whatever opens is the plaintext its lane sealed under the sequence number the opener expects.\<close>

lemma opened_was_sealed:
  assumes auth: "authentic encrypt decrypt k senders" and lanes: "lane_senders k senders"
    and start: "new_end k b = Inr start" and e: "end_ok e" "ee_binding e = b" "ee_key e = k"
    and op: "open_envelope decrypt e frame = (e', Inr m)"
  shows "\<exists>calls. (start, calls) \<in> senders \<and> nat (passed e) < length (seal_run encrypt start calls) \<and>
    oe_plaintext m = fst (seal_run encrypt start calls ! nat (passed e)) \<and> e' = advance_end e \<and> \<not> ee_exhausted e"
  using op
proof (cases rule: open_cases)
  case (opened h p)
  obtain se calls i where s: "(se, calls) \<in> senders" and i: "i < length (encryptions encrypt se calls)"
    "encryptions encrypt se calls ! i = (ph_nonce h, envelopeAuthenticationData b (ee_sequence e) (ph_ciphertextLength h),
       drop ENVELOPE_HEADER_BYTES frame, p)"
    using auth [unfolded authentic_def] opened(6) e(2,3) by (fastforce simp add: in_set_conv_nth)
  from s lanes have ne: "new_end k (ee_binding se) = Inr se" by (auto simp add: lane_senders_def)
  note so = new_end_ok [OF ne]
  from encryptions_nth [OF conjunct1 [OF so] i(1)] i(2) so
  have aad: "envelopeAuthenticationData b (ee_sequence e) (ph_ciphertextLength h) =
      envelopeAuthenticationData (ee_binding se) (int i) (length p + ENVELOPE_TAG_BYTES)"
    and lim: "int i \<le> ENVELOPE_MAXIMUM_SEQUENCE" "length p + ENVELOPE_TAG_BYTES \<le> ENVELOPE_MAXIMUM_BYTES"
    by auto
  have "b = ee_binding se \<and> ee_sequence e = int i \<and> ph_ciphertextLength h = length p + ENVELOPE_TAG_BYTES"
    by (rule authentication_data_inj [OF _ _ _ _ _ lim(1) parseHeader_length [OF opened(4)] lim(2) aad])
      (use so e(1,2) in \<open>auto simp add: end_ok_def\<close>)
  then have b: "ee_binding se = b" and i': "i = nat (passed e)"
    using opened(3) by (auto simp add: passed_def)
  from ne start b have "se = start" by simp
  moreover have "fst (seal_run encrypt se calls ! i) = p" "i < length (seal_run encrypt se calls)"
    using encryptions_seal_run [of encrypt se calls] i by (metis (mono_tags, lifting) length_map nth_map case_prod_conv)+
  ultimately show ?thesis
    using s i' opened(1-3) by auto
qed simp

lemma open_run_prefix:
  assumes auth: "authentic encrypt decrypt k senders" "lane_senders k senders" "new_end k b = Inr start"
    and "end_ok e" "ee_binding e = b" "ee_key e = k" "(start, calls) \<in> senders"
  shows "prefix (map oe_plaintext (open_run decrypt e frames)) (drop (nat (passed e)) (map fst (seal_run encrypt start calls)))"
  using assms(4-6)
proof (induction frames arbitrary: e)
  case Nil
  then show ?case by simp
next
  case (Cons frame frames)
  obtain e' r where op: "open_envelope decrypt e frame = (e', r)" by fastforce
  show ?case
  proof (cases r)
    case (Inl err)
    with op have "e' = e" by (auto elim: open_cases)
    with op Inl Cons show ?thesis by simp
  next
    case (Inr m)
    from opened_was_sealed [OF auth Cons.prems op [unfolded Inr]] obtain calls' where
      c: "(start, calls') \<in> senders" "nat (passed e) < length (seal_run encrypt start calls')"
        "oe_plaintext m = fst (seal_run encrypt start calls' ! nat (passed e))" "e' = advance_end e" "\<not> ee_exhausted e"
      by blast
    from c(1) assms(7) auth(2) have cc: "calls' = calls" by (auto simp add: lane_senders_def)
    note adv = advance_end_ok [OF Cons.prems(1) c(5)]
    have "0 \<le> passed e" using Cons.prems(1) c(5) by (simp add: passed_def end_ok_def)
    then have p: "nat (passed (advance_end e)) = Suc (nat (passed e))" by (simp add: adv(2) nat_add_distrib)
    have "prefix (map oe_plaintext (open_run decrypt (advance_end e) frames))
        (drop (nat (passed (advance_end e))) (map fst (seal_run encrypt start calls)))"
      by (rule Cons.IH) (simp_all add: adv Cons.prems)
    moreover have "drop (nat (passed e)) (map fst (seal_run encrypt start calls)) =
        oe_plaintext m # drop (Suc (nat (passed e))) (map fst (seal_run encrypt start calls))"
      using c(2,3) cc by (subst Cons_nth_drop_Suc [symmetric]) simp_all
    ultimately show ?thesis using op Inr c(4) p by simp
  qed
qed

lemma open_run_unsent:
  assumes auth: "authentic encrypt decrypt k senders" "lane_senders k senders" "new_end k b = Inr start"
    and none: "\<forall>calls. (start, calls) \<notin> senders"
  shows "open_run decrypt start frames = []"
proof (induction frames)
  case Nil
  then show ?case by simp
next
  case (Cons frame frames)
  obtain e' r where op: "open_envelope decrypt start frame = (e', r)" by fastforce
  note so = new_end_ok [OF auth(3)]
  show ?case
  proof (cases r)
    case (Inl err)
    with op have "e' = start" by (auto elim: open_cases)
    with op Inl Cons show ?thesis by simp
  next
    case (Inr m)
    from opened_was_sealed [OF auth _ _ _ op [unfolded Inr]] so none show ?thesis by blast
  qed
qed

text \<open>
  C3. Whatever frames reach an opener, replayed, reordered, dropped, forged, or taken from another lane, session,
  share or direction of the same key: the plaintexts it hands out are, in order, the first ones the sealer of its own
  binding sealed, without gaps and repetitions, and nothing if there is no such sealer.  This rests on the
  authenticity of AES-GCM and on one sealer per binding.
\<close>

theorem envelopes_open_in_order:
  assumes "authentic encrypt decrypt k senders" "lane_senders k senders" "new_end k b = Inr start"
  shows "(\<forall>calls. (start, calls) \<in> senders \<longrightarrow>
      prefix (map oe_plaintext (open_run decrypt start frames)) (map fst (seal_run encrypt start calls))) \<and>
    ((\<forall>calls. (start, calls) \<notin> senders) \<longrightarrow> open_run decrypt start frames = [])"
  using open_run_prefix [OF assms, of start _ frames] open_run_unsent [OF assms, of frames] new_end_ok [OF assms(3)]
  by simp

section \<open>Delivery\<close>

lemma prefix_length_eqI: "prefix xs ys \<Longrightarrow> length xs = length ys \<Longrightarrow> xs = ys"
  by (auto simp add: prefix_def)

text \<open>What a sealer's caller relies on: GCM appends 16 octets and decrypts its own output.\<close>

definition aead_correct :: "aead \<Rightarrow> aead \<Rightarrow> bool" where
  "aead_correct encrypt decrypt \<longleftrightarrow>
     (\<forall>k iv aad p ct. encrypt k iv aad p = Some ct \<longrightarrow> length ct = length p + 16 \<and> decrypt k iv aad ct = Some p)"

lemma parse_sealed_header:
  assumes "binding_ok b" "0 \<le> s" "s \<le> ENVELOPE_MAXIMUM_SEQUENCE" "length nonce = 12" "length ct = l"
    "ENVELOPE_TAG_BYTES \<le> l" "l + ENVELOPE_HEADER_BYTES \<le> ENVELOPE_MAXIMUM_BYTES"
  shows "parseHeader (envelope_header b s l nonce @ ct) (eb_direction b) =
    Inr \<lparr>ph_sequence = s, ph_ciphertextLength = l, ph_nonce = nonce\<rparr>"
proof -
  let ?f = "envelope_header b s l nonce @ ct"
  have hd: "?f = [2, of_nat (eb_direction b), 0, 0] @ be_bytes 8 (nat s) @ (be_bytes 4 l @ nonce @ ct)"
    by (simp add: envelope_header_def)
  have "get_uint 8 4 ?f = nat s"
    unfolding hd by (rule get_uint_append) (use assms in \<open>simp_all add: envelope_constants nat_less_iff\<close>)
  moreover have "get_uint 4 12 ?f = l"
  proof -
    have "?f = ([2, of_nat (eb_direction b), 0, 0] @ be_bytes 8 (nat s)) @ be_bytes 4 l @ (nonce @ ct)"
      by (simp add: envelope_header_def)
    moreover have "get_uint 4 12 (([2, of_nat (eb_direction b), 0, 0] @ be_bytes 8 (nat s)) @ be_bytes 4 l @ (nonce @ ct)) = l"
      by (rule get_uint_append) (use assms in \<open>simp_all add: envelope_constants\<close>)
    ultimately show ?thesis by simp
  qed
  moreover have "subarray 16 28 ?f = nonce"
    using assms(4) by (simp add: envelope_header_def subarray_def)
  moreover have "length ?f = 28 + l"
    using assms(4,5) by (simp add: envelope_header_def)
  moreover have "byte_at ?f 0 = Some 2" "byte_at ?f 1 = Some (of_nat (eb_direction b))" "byte_at ?f 2 = Some 0"
    "byte_at ?f 3 = Some 0"
    by (simp_all add: envelope_header_def byte_at_def)
  ultimately show ?thesis
    using assms by (simp add: parseHeader_def envelope_constants)
qed

lemma open_sealed:
  assumes "aead_correct encrypt decrypt" "end_ok e" "seal encrypt nonce e p = (e', Inr frame)"
  shows "open_envelope decrypt e frame = (advance_end e, Inr \<lparr>oe_sequence = ee_sequence e, oe_plaintext = p\<rparr>)
    \<and> e' = advance_end e \<and> \<not> ee_exhausted e"
  using assms(3)
proof (cases rule: seal_cases)
  case (sealed ct)
  from sealed(6) assms(1) have ct: "length ct = length p + ENVELOPE_TAG_BYTES"
    "decrypt (ee_key e) nonce (envelopeAuthenticationData (ee_binding e) (ee_sequence e) (length p + ENVELOPE_TAG_BYTES)) ct = Some p"
    by (auto simp add: aead_correct_def envelope_constants)
  from sealed(1) have f: "frame = envelope_header (ee_binding e) (ee_sequence e) (length p + ENVELOPE_TAG_BYTES) nonce @ ct" by simp
  have "parseHeader frame (eb_direction (ee_binding e)) =
      Inr \<lparr>ph_sequence = ee_sequence e, ph_ciphertextLength = length p + ENVELOPE_TAG_BYTES, ph_nonce = nonce\<rparr>"
    unfolding f by (rule parse_sealed_header) (use assms(2) sealed(4,5) ct(1) in \<open>simp_all add: end_ok_def envelope_constants\<close>)
  moreover have "drop ENVELOPE_HEADER_BYTES frame = ct"
    unfolding f by (simp add: length_envelope_header [OF sealed(4)])
  ultimately show ?thesis
    using ct(2) sealed(2,3) by (simp add: open_envelope_def)
qed simp


lemma seal_run_Cons:
  "seal_run encrypt e calls = (p, frame) # rest \<Longrightarrow>
   \<exists>nonce calls'. seal encrypt nonce e p = (advance_end e, Inr frame) \<and> rest = seal_run encrypt (advance_end e) calls'"
proof (induction encrypt e calls rule: seal_run.induct)
  case (1 encrypt e)
  then show ?case by simp
next
  case (2 encrypt e nonce plaintext calls)
  obtain e' r where se: "seal encrypt nonce e plaintext = (e', r)" by fastforce
  then show ?case
  proof (cases rule: seal_cases)
    case refused
    with 2 se show ?thesis by simp
  next
    case (sealed ct)
    with 2(3) se have "p = plaintext" "r = Inr frame" "rest = seal_run encrypt (advance_end e) calls" by auto
    with se sealed(2) show ?thesis by blast
  qed
qed

lemma open_run_length:
  assumes "aead_correct encrypt decrypt" "end_ok e" "subseq (map snd (seal_run encrypt e calls)) frames"
  shows "length (seal_run encrypt e calls) \<le> length (open_run decrypt e frames)"
  using assms(2,3)
proof (induction frames arbitrary: e calls)
  case Nil
  then show ?case by (cases "seal_run encrypt e calls") auto
next
  case (Cons frame frames)
  show ?case
  proof (cases "seal_run encrypt e calls")
    case (Cons x rest)
    obtain p f where x: "x = (p, f)" by fastforce
    from seal_run_Cons [OF Cons [unfolded x]] obtain nonce calls' where
      s: "seal encrypt nonce e p = (advance_end e, Inr f)" and rest: "rest = seal_run encrypt (advance_end e) calls'" by blast
    from open_sealed [OF assms(1) Cons.prems(1) s] have o: "\<exists>m. open_envelope decrypt e f = (advance_end e, Inr m)"
      and ok: "end_ok (advance_end e)"
      using advance_end_ok [OF Cons.prems(1)] by auto
    obtain e' r where op: "open_envelope decrypt e frame = (e', r)" by fastforce
    from op show ?thesis
    proof (cases rule: open_cases)
      case refused
      with o op have "f \<noteq> frame" by auto
      with Cons.prems(2) Cons x have "subseq (map snd (seal_run encrypt e calls)) frames" by simp
      from Cons.IH [OF Cons.prems(1) this] op refused show ?thesis by simp
    next
      case (opened h p')
      have "subseq (map snd rest) frames"
        using Cons.prems(2) Cons x by (cases "f = frame") (auto dest: subseq_Cons')
      then have "length rest \<le> length (open_run decrypt (advance_end e) frames)"
        unfolding rest by (rule Cons.IH [OF ok])
      with op opened Cons show ?thesis by simp
    qed
  qed simp
qed

text \<open>
  C13. Delivery.  If every frame a lane sealed arrives in its order, then no matter what else arrives in between, the
  opener hands out every plaintext the lane sealed, all of them, in order and once: a forged, damaged or replayed frame
  never costs the legitimate sender its sequence number.
\<close>

theorem envelopes_delivered:
  assumes "authentic encrypt decrypt k senders" "lane_senders k senders" "aead_correct encrypt decrypt"
    and "new_end k b = Inr start" "(start, calls) \<in> senders"
    and "subseq (map snd (seal_run encrypt start calls)) frames"
  shows "map oe_plaintext (open_run decrypt start frames) = map fst (seal_run encrypt start calls)"
proof -
  note ok = new_end_ok [OF assms(4)]
  have "prefix (map oe_plaintext (open_run decrypt start frames)) (map fst (seal_run encrypt start calls))"
    using open_run_prefix [OF assms(1,2,4), of start calls frames] ok assms(5) by simp
  moreover have "length (seal_run encrypt start calls) \<le> length (open_run decrypt start frames)"
    by (rule open_run_length [OF assms(3) _ assms(6)]) (simp add: ok)
  ultimately show ?thesis
    using prefix_length_eqI by (metis length_map le_antisym prefix_length_le)
qed

section \<open>A sample lane\<close>

definition sample_binding :: envelope_binding where
  "sample_binding = \<lparr>eb_shareInstance = replicate 16 1, eb_protocolSessionId = replicate 16 2,
     eb_laneId = Integral 1, eb_laneEpoch = Integral 0, eb_direction = 0\<rparr>"

definition sample_key :: bytes where "sample_key = replicate 32 3"

definition sample_end :: envelope_end where
  "sample_end = \<lparr>ee_binding = sample_binding, ee_key = sample_key, ee_sequence = 0, ee_exhausted = False\<rparr>"

definition sample_calls :: "(bytes \<times> bytes) list" where
  "sample_calls = [(replicate 12 4, [5])]"

definition sample_aad :: bytes where "sample_aad = envelopeAuthenticationData sample_binding 0 17"

text \<open>A cipher that seals one message.\<close>

definition sample_encrypt :: aead where
  "sample_encrypt k iv aad p =
     (if k = sample_key \<and> iv = replicate 12 4 \<and> aad = sample_aad \<and> p = [5] then Some (replicate 17 6) else None)"

definition sample_decrypt :: aead where
  "sample_decrypt k iv aad ct =
     (if k = sample_key \<and> iv = replicate 12 4 \<and> aad = sample_aad \<and> ct = replicate 17 6 then Some [5] else None)"

lemma sample_new: "new_end sample_key sample_binding = Inr sample_end"
  by (simp add: new_end_Inr binding_ok_def snapshotBinding_def sample_binding_def sample_key_def sample_end_def
      nonzero_replicate)

definition sample_frame :: bytes where
  "sample_frame = envelope_header sample_binding 0 17 (replicate 12 4) @ replicate 17 6"

lemma sample_seal: "seal sample_encrypt (replicate 12 4) sample_end [5] = (advance_end sample_end, Inr sample_frame)"
  by (simp add: seal_def nextSequence_def sample_end_def sample_encrypt_def sample_aad_def sample_frame_def envelope_constants)

lemma sample_ciphertext: "drop ENVELOPE_HEADER_BYTES sample_frame = replicate 17 6"
  by (simp add: sample_frame_def length_envelope_header)

lemma sample_runs:
  "seal_run sample_encrypt sample_end sample_calls = [([5], sample_frame)]"
  "encryptions sample_encrypt sample_end sample_calls = [(replicate 12 4, sample_aad, replicate 17 6, [5])]"
  by (simp_all add: sample_calls_def sample_seal sample_ciphertext)
    (simp add: sample_aad_def sample_end_def ENVELOPE_TAG_BYTES_def)

lemma sample_authentic: "authentic sample_encrypt sample_decrypt sample_key {(sample_end, sample_calls)}"
  by (simp add: authentic_def sample_runs) (simp add: sample_decrypt_def)

lemma sample_lane: "lane_senders sample_key {(sample_end, sample_calls)}"
  using sample_new by (simp add: lane_senders_def sample_end_def)

lemma sample_correct: "aead_correct sample_encrypt sample_decrypt"
  by (simp add: aead_correct_def sample_encrypt_def sample_decrypt_def)

theorem envelopes_open_in_order_witness:
  "prefix (map oe_plaintext (open_run sample_decrypt sample_end [sample_frame, sample_frame])) [[5]]"
  using envelopes_open_in_order [OF sample_authentic sample_lane sample_new, of "[sample_frame, sample_frame]"]
  by (simp add: sample_runs)

theorem envelopes_delivered_witness:
  "map oe_plaintext (open_run sample_decrypt sample_end [[0], sample_frame, sample_frame]) = [[5]]"
  using envelopes_delivered [OF sample_authentic sample_lane sample_correct sample_new, of sample_calls
    "[[0], sample_frame, sample_frame]"]
  by (simp add: sample_runs)

end
