(* ===== verification/Session_Writer.thy ===== *)
theory Session_Writer
  imports Session_Message Session_Envelope
begin

text \<open>
The writer of a session lane, \<^verbatim>\<open>web/src/session/writer.ts\<close>: two bounded queues drained by one asynchronous loop that
  seals each message and hands the frame to the channel, with cancellation, a delivery deadline and failure. Every
  \<^verbatim>\<open>await\<close> of the loop is a point where other events come in between; each event is a function on the state. The
  invariant at the end says which items the queues hold, where the loop stands, and what was sealed and sent. Observer
  callbacks and failure diagnostics are left out; the code keeps them from changing the state.
\<close>

section \<open>State\<close>

definition SESSION_CONTROL_QUEUE :: nat where "SESSION_CONTROL_QUEUE = 256"
definition SESSION_DATA_QUEUE :: nat where "SESSION_DATA_QUEUE = 32"

datatype outbound_priority = Priority_control | Priority_data | Priority_terminal
datatype outbound_phase = Queued | Sealing | Sending | Sent | Withdrawn | Failed

text \<open>
  Reasons are those of the code that the writer makes itself, and tokens for what a caller, the sealer or the channel
  hands over.
\<close>

datatype writer_reason = Reason nat | Seal_failed envelope_error | Delivery_failed | Send_timed_out

text \<open>A promise settles once: a later \<^verbatim>\<open>resolve\<close> or \<^verbatim>\<open>reject\<close> has no effect.\<close>

datatype promise_state = Pending | Resolved | Rejected writer_reason

definition settle :: "promise_state \<Rightarrow> promise_state \<Rightarrow> promise_state" where
  "settle new old = (if old = Pending then new else old)"

record outbound_item =
  oi_message :: session_message
  oi_priority :: outbound_priority
  oi_phase :: outbound_phase
  oi_abandoned :: bool
  oi_completion :: promise_state

text \<open>
  Where the loop of \<^verbatim>\<open>#drain\<close> stands: not started, at one of its two \<^verbatim>\<open>await\<close>s, or returned with the
  \<^verbatim>\<open>finally\<close> callback of \<^verbatim>\<open>#run\<close> still to come.
\<close>

datatype drain_point = Not_draining | Await_seal | Await_send | Returned

text \<open>
  The writer. Items are numbered in the order in which they were enqueued, and the queues hold their numbers. The last
  three fields record what the writer did to its surroundings: the calls of \<^verbatim>\<open>seal\<close> that settled, the frames handed to
  the channel, and the calls of \<^verbatim>\<open>onFailure\<close>.
\<close>

record session_writer =
  sw_items :: "outbound_item list"
  sw_control :: "nat list"
  sw_data :: "nat list"
  sw_aborted :: "writer_reason option"
  sw_active :: "nat option"
  sw_timer :: bool
  sw_running :: bool
  sw_terminal :: bool
  sw_drain :: drain_point
  sw_sealer :: envelope_end
  sw_calls :: "(nat \<times> bytes \<times> bytes) list"
  sw_frames :: "(nat \<times> bytes) list"
  sw_failures :: "writer_reason list"

definition new_writer :: "envelope_end \<Rightarrow> session_writer" where
  "new_writer sealer = \<lparr>sw_items = [], sw_control = [], sw_data = [], sw_aborted = None, sw_active = None, sw_timer = False,
     sw_running = False, sw_terminal = False, sw_drain = Not_draining, sw_sealer = sealer, sw_calls = [], sw_frames = [],
     sw_failures = []\<rparr>"

definition update_item :: "nat \<Rightarrow> (outbound_item \<Rightarrow> outbound_item) \<Rightarrow> session_writer \<Rightarrow> session_writer" where
  "update_item i f w = w\<lparr>sw_items := (sw_items w)[i := f (sw_items w ! i)]\<rparr>"

section \<open>Operations\<close>

definition fail_item :: "writer_reason \<Rightarrow> outbound_item \<Rightarrow> outbound_item" where
  "fail_item reason x = x\<lparr>oi_phase := Failed, oi_completion := settle (Rejected reason) (oi_completion x)\<rparr>"

definition active_items :: "session_writer \<Rightarrow> nat list" where
  "active_items w = (case sw_active w of None \<Rightarrow> [] | Some i \<Rightarrow> [i])"

definition writer_fail :: "writer_reason \<Rightarrow> session_writer \<Rightarrow> session_writer" where
  "writer_fail reason w =
     (if sw_aborted w \<noteq> None then w
      else fold (\<lambda>i. update_item i (fail_item reason)) (active_items w @ sw_control w @ sw_data w)
        (w\<lparr>sw_aborted := Some reason, sw_timer := False, sw_control := [], sw_data := []\<rparr>))"

definition writer_retire :: "writer_reason \<Rightarrow> session_writer \<Rightarrow> session_writer" where
  "writer_retire reason w =
     (if sw_aborted w \<noteq> None then w
      else (writer_fail reason w)\<lparr>sw_failures := sw_failures w @ [reason]\<rparr>)"

text \<open>\<^verbatim>\<open>queue.splice(queue.indexOf(item), 1)\<close>: an absent item would remove the last one.\<close>

definition splice_item :: "nat \<Rightarrow> nat list \<Rightarrow> nat list" where
  "splice_item i q = (if i \<in> set q then remove1 i q else butlast q)"

datatype cancel_result = Cancel_withdrawn | Cancel_committed

definition writer_cancel :: "nat \<Rightarrow> writer_reason \<Rightarrow> session_writer \<Rightarrow> cancel_result \<times> session_writer" where
  "writer_cancel i reason w =
     (let x = sw_items w ! i in
      if oi_phase x = Withdrawn then (Cancel_withdrawn, w)
      else if oi_phase x = Queued then
        (Cancel_withdrawn,
         update_item i (\<lambda>x. x\<lparr>oi_phase := Withdrawn, oi_completion := settle (Rejected reason) (oi_completion x)\<rparr>)
           (w\<lparr>sw_control := (if oi_priority x = Priority_data then sw_control w else splice_item i (sw_control w)),
              sw_data := (if oi_priority x = Priority_data then splice_item i (sw_data w) else sw_data w),
              sw_terminal := (if oi_priority x = Priority_terminal then False else sw_terminal w)\<rparr>))
      else if \<not> oi_abandoned x \<and> oi_phase x \<noteq> Sent \<and> oi_phase x \<noteq> Failed then
        (Cancel_committed,
         update_item i (\<lambda>x. x\<lparr>oi_abandoned := True, oi_completion := settle (Rejected reason) (oi_completion x)\<rparr>) w)
      else (Cancel_committed, w))"

text \<open>The head of the loop, up to the \<^verbatim>\<open>await\<close> of \<^verbatim>\<open>seal\<close>.\<close>

definition writer_drain :: "session_writer \<Rightarrow> session_writer" where
  "writer_drain w =
     (if sw_aborted w \<noteq> None then w\<lparr>sw_drain := Returned\<rparr>
      else
        let (item, w) =
          (case sw_control w of
             i # q \<Rightarrow> (Some i, w\<lparr>sw_control := q\<rparr>)
           | [] \<Rightarrow> (case sw_data w of i # q \<Rightarrow> (Some i, w\<lparr>sw_data := q\<rparr>) | [] \<Rightarrow> (None, w))) in
        case item of
          None \<Rightarrow> w\<lparr>sw_drain := Returned\<rparr>
        | Some i \<Rightarrow> update_item i (\<lambda>x. x\<lparr>oi_phase := Sealing\<rparr>)
            (w\<lparr>sw_active := Some i, sw_timer := True, sw_drain := Await_seal\<rparr>))"

definition writer_run :: "session_writer \<Rightarrow> session_writer" where
  "writer_run w = (if sw_running w then w else writer_drain (w\<lparr>sw_running := True\<rparr>))"

datatype writer_error = Writer_aborted writer_reason | Writer_terminal | Writer_queue_full

text \<open>An item joins its queue.\<close>

definition pushed :: "session_message \<Rightarrow> outbound_priority \<Rightarrow> session_writer \<Rightarrow> session_writer" where
  "pushed m p w = w\<lparr>sw_terminal := (p = Priority_terminal \<or> sw_terminal w),
     sw_items := sw_items w @ [\<lparr>oi_message = m, oi_priority = p, oi_phase = Queued, oi_abandoned = False, oi_completion = Pending\<rparr>],
     sw_control := (if p = Priority_data then sw_control w else sw_control w @ [length (sw_items w)]),
     sw_data := (if p = Priority_data then sw_data w @ [length (sw_items w)] else sw_data w)\<rparr>"

definition writer_enqueue ::
  "session_message \<Rightarrow> outbound_priority \<Rightarrow> session_writer \<Rightarrow> writer_error + nat \<times> session_writer" where
  "writer_enqueue message priority w =
     (case sw_aborted w of
        Some reason \<Rightarrow> Inl (Writer_aborted reason)
      | None \<Rightarrow>
          if sw_terminal w then Inl Writer_terminal
          else if (if priority = Priority_data then length (sw_data w) \<ge> SESSION_DATA_QUEUE
                   else length (sw_control w) \<ge> SESSION_CONTROL_QUEUE) then Inl Writer_queue_full
          else Inr (length (sw_items w), writer_run (pushed message priority w)))"

text \<open>\<open>before\<close> and \<open>after\<close>: whether the caller's signal is aborted on entry and after the item was queued.\<close>

definition writer_send ::
  "(writer_reason option) \<Rightarrow> (writer_reason option) \<Rightarrow> session_message \<Rightarrow> outbound_priority \<Rightarrow> session_writer \<Rightarrow>
   writer_error + nat \<times> session_writer" where
  "writer_send before after message priority w =
     (case before of
        Some reason \<Rightarrow> Inl (Writer_aborted reason)
      | None \<Rightarrow> bindE (writer_enqueue message priority w) (\<lambda>(i, w).
          Inr (i, case after of None \<Rightarrow> w | Some reason \<Rightarrow> snd (writer_cancel i reason w))))"

definition cancelPendingMessages :: "bytes \<Rightarrow> writer_reason \<Rightarrow> session_writer \<Rightarrow> session_writer" where
  "cancelPendingMessages operationId reason w =
     fold (\<lambda>i w. if sm_kind (oi_message (sw_items w ! i)) \<noteq> Cancel \<and> sameOperationId (sm_operationId (oi_message (sw_items w ! i))) operationId
                  then snd (writer_cancel i reason w) else w)
       (active_items w @ sw_control w @ sw_data w) w"

text \<open>The \<^verbatim>\<open>finally\<close> block of an iteration.\<close>

definition end_iteration :: "session_writer \<Rightarrow> session_writer" where
  "end_iteration w = w\<lparr>sw_timer := False, sw_active := None\<rparr>"

text \<open>The promise of \<^verbatim>\<open>seal\<close> settles; \<open>nonce\<close> is the one it drew.\<close>

definition seal_settles :: "aead \<Rightarrow> bytes \<Rightarrow> session_writer \<Rightarrow> session_writer" where
  "seal_settles encrypt nonce w =
     (case (sw_drain w, sw_active w) of
        (Await_seal, Some i) \<Rightarrow>
          let plaintext = sm_plaintext (oi_message (sw_items w ! i));
              (sealer, result) = seal encrypt nonce (sw_sealer w) plaintext;
              w = w\<lparr>sw_sealer := sealer, sw_calls := sw_calls w @ [(i, nonce, plaintext)]\<rparr> in
          (case result of
             Inl e \<Rightarrow> (end_iteration (writer_retire (Seal_failed e) w))\<lparr>sw_drain := Returned\<rparr>
           | Inr frame \<Rightarrow>
               if sw_aborted w \<noteq> None then (end_iteration w)\<lparr>sw_drain := Returned\<rparr>
               else update_item i (\<lambda>x. x\<lparr>oi_phase := Sending\<rparr>)
                 (w\<lparr>sw_frames := sw_frames w @ [(i, frame)], sw_drain := Await_send\<rparr>))
      | _ \<Rightarrow> w)"

text \<open>The promise of the channel settles; \<open>ok\<close> tells whether it was fulfilled.\<close>

definition send_settles :: "bool \<Rightarrow> session_writer \<Rightarrow> session_writer" where
  "send_settles ok w =
     (case (sw_drain w, sw_active w) of
        (Await_send, Some i) \<Rightarrow>
          if \<not> ok then (end_iteration (writer_retire Delivery_failed w))\<lparr>sw_drain := Returned\<rparr>
          else if sw_aborted w \<noteq> None then (end_iteration w)\<lparr>sw_drain := Returned\<rparr>
          else writer_drain (end_iteration
            (update_item i (\<lambda>x. x\<lparr>oi_phase := Sent, oi_completion := settle Resolved (oi_completion x)\<rparr>) w))
      | _ \<Rightarrow> w)"

definition timer_fires :: "session_writer \<Rightarrow> session_writer" where
  "timer_fires w = (if sw_timer w then writer_retire Send_timed_out (w\<lparr>sw_timer := False\<rparr>) else w)"

definition drain_finally :: "session_writer \<Rightarrow> session_writer" where
  "drain_finally w =
     (if sw_drain w = Returned then
        let w = w\<lparr>sw_running := False, sw_drain := Not_draining\<rparr> in
        if sw_control w \<noteq> [] \<or> sw_data w \<noteq> [] then writer_run w else w
      else w)"

section \<open>Interleavings\<close>

text \<open>
  Everything that can happen to a writer, in any order: calls of its owner, and the promises, the timer and the microtask
  it waits for. A call on an item that was never handed out does not exist.
\<close>

datatype writer_event =
  Enqueue session_message outbound_priority
| Cancel_item nat writer_reason
| Cancel_operation bytes writer_reason
| Fail writer_reason
| Seal_settles bytes
| Send_settles bool
| Timer_fires
| Finally

fun writer_step :: "aead \<Rightarrow> writer_event \<Rightarrow> session_writer \<Rightarrow> session_writer" where
  "writer_step encrypt (Enqueue m p) w = (case writer_enqueue m p w of Inl _ \<Rightarrow> w | Inr (_, w') \<Rightarrow> w')"
| "writer_step encrypt (Cancel_item i r) w = (if i < length (sw_items w) then snd (writer_cancel i r w) else w)"
| "writer_step encrypt (Cancel_operation x r) w = cancelPendingMessages x r w"
| "writer_step encrypt (Fail r) w = writer_fail r w"
| "writer_step encrypt (Seal_settles nonce) w = seal_settles encrypt nonce w"
| "writer_step encrypt (Send_settles ok) w = send_settles ok w"
| "writer_step encrypt Timer_fires w = timer_fires w"
| "writer_step encrypt Finally w = drain_finally w"

definition writer_runs :: "aead \<Rightarrow> envelope_end \<Rightarrow> writer_event list \<Rightarrow> session_writer" where
  "writer_runs encrypt sealer es = fold (writer_step encrypt) es (new_writer sealer)"


section \<open>The invariant\<close>

abbreviation item_phase :: "session_writer \<Rightarrow> nat \<Rightarrow> outbound_phase" where
  "item_phase w i \<equiv> oi_phase (sw_items w ! i)"

abbreviation plaintext_of :: "session_writer \<Rightarrow> nat \<Rightarrow> bytes" where
  "plaintext_of w i \<equiv> sm_plaintext (oi_message (sw_items w ! i))"

text \<open>The queues hold exactly the queued items, each once, oldest first, and stay within their limits.\<close>

definition queue_inv :: "session_writer \<Rightarrow> bool" where
  "queue_inv w \<longleftrightarrow>
     sorted_wrt (<) (sw_control w) \<and> sorted_wrt (<) (sw_data w) \<and>
     (\<forall>i. i \<in> set (sw_control w) \<longleftrightarrow> i < length (sw_items w) \<and> item_phase w i = Queued \<and> oi_priority (sw_items w ! i) \<noteq> Priority_data) \<and>
     (\<forall>i. i \<in> set (sw_data w) \<longleftrightarrow> i < length (sw_items w) \<and> item_phase w i = Queued \<and> oi_priority (sw_items w ! i) = Priority_data) \<and>
     length (sw_control w) \<le> SESSION_CONTROL_QUEUE \<and> length (sw_data w) \<le> SESSION_DATA_QUEUE \<and>
     (sw_aborted w \<noteq> None \<longrightarrow> sw_control w = [] \<and> sw_data w = [])"

text \<open>At most one item is being sealed or sent, and the loop stands where its phase says.\<close>

definition drain_inv :: "session_writer \<Rightarrow> bool" where
  "drain_inv w \<longleftrightarrow>
     (sw_active w = None \<longrightarrow> sw_drain w = Not_draining \<and> \<not> sw_running w \<or> sw_drain w = Returned \<and> sw_running w) \<and>
     (\<forall>i. sw_active w = Some i \<longrightarrow> i < length (sw_items w) \<and> sw_running w \<and>
        (sw_drain w = Await_seal \<and> item_phase w i = (if sw_aborted w = None then Sealing else Failed) \<or>
         sw_drain w = Await_send \<and> item_phase w i = (if sw_aborted w = None then Sending else Failed))) \<and>
     (\<forall>i < length (sw_items w). item_phase w i = Sealing \<or> item_phase w i = Sending \<longrightarrow> sw_active w = Some i)"

definition idle_inv :: "session_writer \<Rightarrow> bool" where
  "idle_inv w \<longleftrightarrow> (sw_drain w = Not_draining \<longrightarrow> sw_control w = [] \<and> sw_data w = [])"

definition seal_end :: "aead \<Rightarrow> envelope_end \<Rightarrow> (bytes \<times> bytes) list \<Rightarrow> envelope_end" where
  "seal_end encrypt e calls = fold (\<lambda>(nonce, p) e. fst (seal encrypt nonce e p)) calls e"

text \<open>
  The calls of the sealer are those of the committed items, each once, and the frames handed to the channel are the
  results, in the same order; only the last one may be missing, on an aborted writer.
\<close>

definition committed_inv :: "session_writer \<Rightarrow> bool" where
  "committed_inv w \<longleftrightarrow> distinct (map fst (sw_calls w)) \<and>
     (\<forall>c \<in> set (sw_calls w). fst c < length (sw_items w) \<and> item_phase w (fst c) \<in> {Sending, Sent, Failed} \<and>
        snd (snd c) = plaintext_of w (fst c) \<and> (sw_drain w = Await_seal \<longrightarrow> sw_active w \<noteq> Some (fst c)))"

definition frames_inv :: "aead \<Rightarrow> envelope_end \<Rightarrow> session_writer \<Rightarrow> bool" where
  "frames_inv encrypt start w \<longleftrightarrow>
     sw_sealer w = seal_end encrypt start (map snd (sw_calls w)) \<and>
     prefix (map fst (sw_frames w)) (map fst (sw_calls w)) \<and>
     prefix (map snd (sw_frames w)) (map snd (seal_run encrypt start (map snd (sw_calls w)))) \<and>
     (sw_aborted w = None \<longrightarrow> map fst (sw_frames w) = map fst (sw_calls w) \<and>
        map snd (sw_frames w) = map snd (seal_run encrypt start (map snd (sw_calls w))))"

text \<open>A promise settles when its item leaves the writer, or earlier for an abandoned caller.\<close>

definition item_ok :: "nat set \<Rightarrow> nat \<Rightarrow> outbound_item \<Rightarrow> bool" where
  "item_ok framed i x \<longleftrightarrow>
     (oi_completion x = Pending \<longrightarrow> oi_phase x \<in> {Queued, Sealing, Sending}) \<and>
     (oi_completion x = Resolved \<longrightarrow> oi_phase x = Sent) \<and>
     (oi_phase x \<in> {Sending, Sent} \<longrightarrow> i \<in> framed)"

definition promise_inv :: "session_writer \<Rightarrow> bool" where
  "promise_inv w \<longleftrightarrow> (\<forall>i < length (sw_items w). item_ok (fst ` set (sw_frames w)) i (sw_items w ! i))"

definition writer_inv :: "aead \<Rightarrow> envelope_end \<Rightarrow> session_writer \<Rightarrow> bool" where
  "writer_inv encrypt start w \<longleftrightarrow> queue_inv w \<and> drain_inv w \<and> committed_inv w \<and> frames_inv encrypt start w \<and> promise_inv w"

subsection \<open>Reading updated writers\<close>

lemma update_item_simps [simp]:
  "sw_control (update_item i f w) = sw_control w" "sw_data (update_item i f w) = sw_data w"
  "sw_aborted (update_item i f w) = sw_aborted w" "sw_active (update_item i f w) = sw_active w"
  "sw_timer (update_item i f w) = sw_timer w" "sw_running (update_item i f w) = sw_running w"
  "sw_terminal (update_item i f w) = sw_terminal w" "sw_drain (update_item i f w) = sw_drain w"
  "sw_sealer (update_item i f w) = sw_sealer w" "sw_calls (update_item i f w) = sw_calls w"
  "sw_frames (update_item i f w) = sw_frames w" "sw_failures (update_item i f w) = sw_failures w"
  "length (sw_items (update_item i f w)) = length (sw_items w)"
  by (simp_all add: update_item_def)

lemma update_item_nth:
  "i < length (sw_items w) \<Longrightarrow> sw_items (update_item i f w) ! j = (if j = i then f (sw_items w ! i) else sw_items w ! j)"
  by (simp add: update_item_def)

lemma fold_update:
  "fold (\<lambda>i. update_item i f) is w = w\<lparr>sw_items := fold (\<lambda>i xs. xs[i := f (xs ! i)]) is (sw_items w)\<rparr>"
  by (induction "is" arbitrary: w) (simp_all add: update_item_def)

lemma fold_list_update:
  "length (fold (\<lambda>i xs. xs[i := f (xs ! i)]) is xs) = length xs"
  "(\<And>x. f (f x) = f x) \<Longrightarrow> set is \<subseteq> {..<length xs} \<Longrightarrow>
   fold (\<lambda>i xs. xs[i := f (xs ! i)]) is xs ! j = (if j \<in> set is then f (xs ! j) else xs ! j)"
  by (induction "is" arbitrary: xs) (simp_all add: nth_list_update)

lemma fail_item_twice: "fail_item r (fail_item r x) = fail_item r x"
  by (simp add: fail_item_def settle_def)

lemma fail_item_simps [simp]:
  "oi_phase (fail_item r x) = Failed" "oi_message (fail_item r x) = oi_message x" "oi_priority (fail_item r x) = oi_priority x"
  "oi_completion (fail_item r x) \<noteq> Pending" "oi_completion (fail_item r x) = Resolved \<longleftrightarrow> oi_completion x = Resolved"
  by (auto simp add: fail_item_def settle_def)


lemma queue_members:
  assumes "queue_inv w"
  shows "i \<in> set (sw_control w) \<longleftrightarrow> i < length (sw_items w) \<and> item_phase w i = Queued \<and> oi_priority (sw_items w ! i) \<noteq> Priority_data"
    "i \<in> set (sw_data w) \<longleftrightarrow> i < length (sw_items w) \<and> item_phase w i = Queued \<and> oi_priority (sw_items w ! i) = Priority_data"
  using assms unfolding queue_inv_def by blast+

lemma active_item: "i \<in> set (active_items w) \<longleftrightarrow> sw_active w = Some i"
  by (cases "sw_active w") (auto simp add: active_items_def)

lemma active_phase:
  assumes "drain_inv w" "sw_active w = Some i"
  shows "i < length (sw_items w) \<and> sw_running w \<and>
    (sw_drain w = Await_seal \<and> item_phase w i = (if sw_aborted w = None then Sealing else Failed) \<or>
     sw_drain w = Await_send \<and> item_phase w i = (if sw_aborted w = None then Sending else Failed))"
  using assms unfolding drain_inv_def by blast

lemma active_none:
  assumes "drain_inv w" "sw_active w = None"
  shows "sw_drain w = Not_draining \<and> \<not> sw_running w \<or> sw_drain w = Returned \<and> sw_running w"
  using assms unfolding drain_inv_def by blast

lemma drain_invI:
  assumes "sw_active w = None \<Longrightarrow> sw_drain w = Not_draining \<and> \<not> sw_running w \<or> sw_drain w = Returned \<and> sw_running w"
    and "\<And>i. sw_active w = Some i \<Longrightarrow> i < length (sw_items w) \<and> sw_running w \<and>
      (sw_drain w = Await_seal \<and> item_phase w i = (if sw_aborted w = None then Sealing else Failed) \<or>
       sw_drain w = Await_send \<and> item_phase w i = (if sw_aborted w = None then Sending else Failed))"
    and "\<And>i. i < length (sw_items w) \<Longrightarrow> item_phase w i = Sealing \<or> item_phase w i = Sending \<Longrightarrow> sw_active w = Some i"
  shows "drain_inv w"
  using assms unfolding drain_inv_def by blast

lemma busy_active:
  assumes "drain_inv w" "i < length (sw_items w)" "item_phase w i = Sealing \<or> item_phase w i = Sending"
  shows "sw_active w = Some i"
  using assms unfolding drain_inv_def by blast

lemma active_member:
  assumes "drain_inv w"
  shows "i \<in> set (active_items w) \<Longrightarrow> i < length (sw_items w)"
    "sw_aborted w = None \<Longrightarrow> i < length (sw_items w) \<Longrightarrow> i \<in> set (active_items w) \<longleftrightarrow> item_phase w i = Sealing \<or> item_phase w i = Sending"
  unfolding active_item using active_phase [OF assms, of i] busy_active [OF assms, of i] by auto

lemma pending_items:
  assumes "queue_inv w" "drain_inv w"
  shows "set (active_items w @ sw_control w @ sw_data w) \<subseteq> {..<length (sw_items w)}"
  using queue_members [OF assms(1)] active_member(1) [OF assms(2)] by auto

text \<open>What a failed writer looks like.\<close>

lemma writer_fail_fields:
  assumes "queue_inv w" "drain_inv w" "sw_aborted w = None"
  shows "writer_fail r w = w\<lparr>sw_aborted := Some r, sw_timer := False, sw_control := [], sw_data := [],
      sw_items := sw_items (writer_fail r w)\<rparr>"
    "length (sw_items (writer_fail r w)) = length (sw_items w)"
    "sw_items (writer_fail r w) ! i =
      (if i \<in> set (active_items w @ sw_control w @ sw_data w) then fail_item r (sw_items w ! i) else sw_items w ! i)"
  using assms(3) pending_items [OF assms(1,2)]
  by (simp_all add: writer_fail_def fold_update fold_list_update fail_item_twice)

lemma fail_item_ok:
  "item_ok F i x \<Longrightarrow> oi_phase x = Queued \<or> oi_phase x = Sealing \<or> oi_phase x = Sending \<Longrightarrow> item_ok F i (fail_item r x)"
  by (auto simp add: item_ok_def)

text \<open>The calls and frames are not touched by what happens to other items.\<close>

lemma committed_mono:
  assumes c: "committed_inv w" and same: "sw_calls w' = sw_calls w"
    and items: "\<And>i. i < length (sw_items w) \<Longrightarrow> item_phase w i \<in> {Sending, Sent, Failed} \<Longrightarrow>
      i < length (sw_items w') \<and> plaintext_of w' i = plaintext_of w i \<and> item_phase w' i \<in> {Sending, Sent, Failed} \<and>
      (sw_drain w' = Await_seal \<and> sw_active w' = Some i \<longrightarrow> sw_drain w = Await_seal \<and> sw_active w = Some i)"
  shows "committed_inv w'"
  unfolding committed_inv_def same
proof (intro conjI ballI)
  show "distinct (map fst (sw_calls w))"
    using c by (simp add: committed_inv_def)
  fix x assume "x \<in> set (sw_calls w)"
  then have x: "fst x < length (sw_items w)" "item_phase w (fst x) \<in> {Sending, Sent, Failed}"
    "snd (snd x) = plaintext_of w (fst x)" "sw_drain w = Await_seal \<longrightarrow> sw_active w \<noteq> Some (fst x)"
    using c unfolding committed_inv_def by blast+
  note y = items [OF x(1,2)]
  show "fst x < length (sw_items w')" "item_phase w' (fst x) \<in> {Sending, Sent, Failed}"
    "snd (snd x) = plaintext_of w' (fst x)" "sw_drain w' = Await_seal \<longrightarrow> sw_active w' \<noteq> Some (fst x)"
    using x y by auto
qed

lemma frames_mono:
  assumes "frames_inv encrypt start w" "sw_sealer w' = sw_sealer w" "sw_calls w' = sw_calls w" "sw_frames w' = sw_frames w"
    and "sw_aborted w' = None \<Longrightarrow> sw_aborted w = None"
  shows "frames_inv encrypt start w'"
  using assms by (simp add: frames_inv_def)

lemma fail_inv:
  assumes inv: "writer_inv encrypt start w"
  shows "writer_inv encrypt start (writer_fail r w)"
proof (cases "sw_aborted w")
  case (Some x)
  then show ?thesis using inv by (simp add: writer_fail_def)
next
  case None
  have q: "queue_inv w" and d: "drain_inv w" and c: "committed_inv w" and fr: "frames_inv encrypt start w" and p: "promise_inv w"
    using inv by (simp_all add: writer_inv_def)
  define w' where "w' = writer_fail r w"
  note f = writer_fail_fields [OF q d None, of r, folded w'_def]
  have fields: "sw_aborted w' = Some r" "sw_control w' = []" "sw_data w' = []" "sw_active w' = sw_active w"
    "sw_drain w' = sw_drain w" "sw_running w' = sw_running w" "sw_sealer w' = sw_sealer w" "sw_calls w' = sw_calls w"
    "sw_frames w' = sw_frames w"
    by (subst f(1), simp)+
  have pend: "i \<in> set (active_items w @ sw_control w @ sw_data w) \<longleftrightarrow> item_phase w i \<in> {Queued, Sealing, Sending}"
    if "i < length (sw_items w)" for i
    using that queue_members [OF q, of i] active_member(2) [OF d None that] by auto
  have it: "sw_items w' ! i = (if item_phase w i \<in> {Queued, Sealing, Sending} then fail_item r (sw_items w ! i) else sw_items w ! i)"
    if "i < length (sw_items w)" for i
    using f(3) pend [OF that] by simp
  have ph: "item_phase w' i = (if item_phase w i \<in> {Queued, Sealing, Sending} then Failed else item_phase w i)"
    if "i < length (sw_items w)" for i
    using it [OF that] by simp
  have "item_phase w' i \<noteq> Queued" if "i < length (sw_items w)" for i
    using ph [OF that] by auto
  then have "queue_inv w'"
    unfolding queue_inv_def fields f(2) by auto
  moreover have "drain_inv w'"
    by (rule drain_invI) (use active_none [OF d] active_phase [OF d] ph in \<open>auto simp add: fields f(2) None split: if_splits\<close>)
  moreover have "committed_inv w'"
    using c by (rule committed_mono) (auto simp add: fields f(2) it)
  moreover have "frames_inv encrypt start w'"
    using fr by (rule frames_mono) (simp_all add: fields)
  moreover have "promise_inv w'"
    using p unfolding promise_inv_def fields f(2) by (simp add: it fail_item_ok)
  ultimately show ?thesis
    by (simp add: writer_inv_def w'_def)
qed


lemma queue_invI:
  assumes "sorted_wrt (<) (sw_control w)" "sorted_wrt (<) (sw_data w)"
    and "\<And>i. i \<in> set (sw_control w) \<longleftrightarrow> i < length (sw_items w) \<and> item_phase w i = Queued \<and> oi_priority (sw_items w ! i) \<noteq> Priority_data"
    and "\<And>i. i \<in> set (sw_data w) \<longleftrightarrow> i < length (sw_items w) \<and> item_phase w i = Queued \<and> oi_priority (sw_items w ! i) = Priority_data"
    and "length (sw_control w) \<le> SESSION_CONTROL_QUEUE" "length (sw_data w) \<le> SESSION_DATA_QUEUE"
    and "sw_aborted w \<noteq> None \<Longrightarrow> sw_control w = [] \<and> sw_data w = []"
  shows "queue_inv w"
  using assms unfolding queue_inv_def by blast

lemma queue_facts:
  assumes "queue_inv w"
  shows "sorted_wrt (<) (sw_control w)" "sorted_wrt (<) (sw_data w)" "distinct (sw_control w)" "distinct (sw_data w)"
    "length (sw_control w) \<le> SESSION_CONTROL_QUEUE" "length (sw_data w) \<le> SESSION_DATA_QUEUE"
    "sw_aborted w \<noteq> None \<Longrightarrow> sw_control w = [] \<and> sw_data w = []"
proof -
  show s: "sorted_wrt (<) (sw_control w)" "sorted_wrt (<) (sw_data w)"
    and "length (sw_control w) \<le> SESSION_CONTROL_QUEUE" "length (sw_data w) \<le> SESSION_DATA_QUEUE"
      "sw_aborted w \<noteq> None \<Longrightarrow> sw_control w = [] \<and> sw_data w = []"
    using assms unfolding queue_inv_def by blast+
  show "distinct (sw_control w)" "distinct (sw_data w)"
    using s by (simp_all add: strict_sorted_iff)
qed

text \<open>An item leaves its queue: it is withdrawn, or its turn has come.\<close>

lemma dequeue_inv:
  assumes q: "queue_inv w" and i: "i < length (sw_items w)" "item_phase w i = Queued"
    and w': "sw_control w' = filter (\<lambda>j. j \<noteq> i) (sw_control w)" "sw_data w' = filter (\<lambda>j. j \<noteq> i) (sw_data w)"
      "sw_aborted w' = sw_aborted w" "length (sw_items w') = length (sw_items w)" "item_phase w' i \<noteq> Queued"
      "\<And>j. j \<noteq> i \<Longrightarrow> sw_items w' ! j = sw_items w ! j"
  shows "queue_inv w'"
proof (rule queue_invI)
  note f = queue_facts [OF q]
  show "sorted_wrt (<) (sw_control w')" "sorted_wrt (<) (sw_data w')"
    using f by (simp_all add: w' sorted_wrt_filter)
  show "length (sw_control w') \<le> SESSION_CONTROL_QUEUE" "length (sw_data w') \<le> SESSION_DATA_QUEUE"
    using f(5,6) length_filter_le order_trans unfolding w' by blast+
  show "sw_aborted w' \<noteq> None \<Longrightarrow> sw_control w' = [] \<and> sw_data w' = []"
    using f(7) by (simp add: w')
  show "j \<in> set (sw_control w') \<longleftrightarrow> j < length (sw_items w') \<and> item_phase w' j = Queued \<and> oi_priority (sw_items w' ! j) \<noteq> Priority_data"
    "j \<in> set (sw_data w') \<longleftrightarrow> j < length (sw_items w') \<and> item_phase w' j = Queued \<and> oi_priority (sw_items w' ! j) = Priority_data" for j
    using queue_members [OF q, of j] w' by (cases "j = i"; simp)+
qed

lemma splice_queued:
  assumes "queue_inv w" "i < length (sw_items w)" "item_phase w i = Queued"
  shows "(if oi_priority (sw_items w ! i) = Priority_data then sw_control w else splice_item i (sw_control w)) =
      filter (\<lambda>j. j \<noteq> i) (sw_control w)"
    "(if oi_priority (sw_items w ! i) = Priority_data then splice_item i (sw_data w) else sw_data w) =
      filter (\<lambda>j. j \<noteq> i) (sw_data w)"
proof -
  note f = queue_facts [OF assms(1)] and m = queue_members [OF assms(1), of i]
  have absent: "filter (\<lambda>j. j \<noteq> i) q = q" if "i \<notin> set q" for q :: "nat list"
    using that by (auto intro: filter_True)
  have present: "splice_item i q = filter (\<lambda>j. j \<noteq> i) q" if "i \<in> set q" "distinct q" for q
    using that by (simp add: splice_item_def distinct_remove1_removeAll removeAll_filter_not_eq) (metis (mono_tags))
  show "(if oi_priority (sw_items w ! i) = Priority_data then sw_control w else splice_item i (sw_control w)) =
      filter (\<lambda>j. j \<noteq> i) (sw_control w)"
    "(if oi_priority (sw_items w ! i) = Priority_data then splice_item i (sw_data w) else sw_data w) =
      filter (\<lambda>j. j \<noteq> i) (sw_data w)"
    using m f(3,4) absent present assms(2,3) by auto
qed


lemma promise_update:
  assumes "promise_inv w" "length (sw_items w') = length (sw_items w)" "fst ` set (sw_frames w) \<subseteq> fst ` set (sw_frames w')"
    and "\<And>j. j \<noteq> i \<Longrightarrow> sw_items w' ! j = sw_items w ! j"
    and "item_ok (fst ` set (sw_frames w)) i (sw_items w ! i) \<Longrightarrow> item_ok (fst ` set (sw_frames w')) i (sw_items w' ! i)"
  shows "promise_inv w'"
  unfolding promise_inv_def assms(2)
proof (intro allI impI)
  fix j assume "j < length (sw_items w)"
  then have ok: "item_ok (fst ` set (sw_frames w)) j (sw_items w ! j)"
    using assms(1) by (simp add: promise_inv_def)
  show "item_ok (fst ` set (sw_frames w')) j (sw_items w' ! j)"
  proof (cases "j = i")
    case True
    then show ?thesis using ok assms(5) by simp
  next
    case False
    then show ?thesis using ok assms(3,4) by (auto simp add: item_ok_def)
  qed
qed

text \<open>What \<^verbatim>\<open>#cancel\<close> does to an item of the writer.\<close>

lemma cancel_cases:
  assumes "queue_inv w" "i < length (sw_items w)"
  obtains (same) "snd (writer_cancel i r w) = w" "fst (writer_cancel i r w) = Cancel_withdrawn \<longleftrightarrow> item_phase w i = Withdrawn"
      "item_phase w i \<noteq> Queued"
  | (withdrawn) "item_phase w i = Queued" "fst (writer_cancel i r w) = Cancel_withdrawn"
      "snd (writer_cancel i r w) =
       update_item i (\<lambda>x. x\<lparr>oi_phase := Withdrawn, oi_completion := settle (Rejected r) (oi_completion x)\<rparr>)
         (w\<lparr>sw_control := filter (\<lambda>j. j \<noteq> i) (sw_control w), sw_data := filter (\<lambda>j. j \<noteq> i) (sw_data w),
            sw_terminal := (if oi_priority (sw_items w ! i) = Priority_terminal then False else sw_terminal w)\<rparr>)"
  | (abandoned) "item_phase w i = Sealing \<or> item_phase w i = Sending" "fst (writer_cancel i r w) = Cancel_committed"
      "snd (writer_cancel i r w) =
       update_item i (\<lambda>x. x\<lparr>oi_abandoned := True, oi_completion := settle (Rejected r) (oi_completion x)\<rparr>) w"
proof (cases "item_phase w i = Queued")
  case True
  with splice_queued [OF assms True] show thesis
    by (intro withdrawn) (simp_all add: writer_cancel_def Let_def)
next
  case False
  show thesis
  proof (cases "item_phase w i = Withdrawn \<or> item_phase w i = Sent \<or> item_phase w i = Failed \<or> oi_abandoned (sw_items w ! i)")
    case True
    with False show thesis
      by (intro same) (auto simp add: writer_cancel_def Let_def)
  next
    case other: False
    then have "item_phase w i = Sealing \<or> item_phase w i = Sending"
      using False by (cases "item_phase w i") auto
    with other show thesis
      by (intro abandoned) (auto simp add: writer_cancel_def Let_def)
  qed
qed

lemma cancel_inv:
  assumes inv: "writer_inv encrypt start w" and i: "i < length (sw_items w)"
  shows "writer_inv encrypt start (snd (writer_cancel i r w))"
proof -
  have q: "queue_inv w" and d: "drain_inv w" and c: "committed_inv w" and fr: "frames_inv encrypt start w" and p: "promise_inv w"
    using inv by (simp_all add: writer_inv_def)
  from q i show ?thesis
  proof (cases rule: cancel_cases [of w i r])
    case same
    with inv show ?thesis by simp
  next
    case withdrawn
    define w' where "w' = snd (writer_cancel i r w)"
    note e = withdrawn(3) [folded w'_def]
    have it: "sw_items w' ! i = (sw_items w ! i)\<lparr>oi_phase := Withdrawn, oi_completion := settle (Rejected r) (oi_completion (sw_items w ! i))\<rparr>"
      "\<And>j. j \<noteq> i \<Longrightarrow> sw_items w' ! j = sw_items w ! j"
      using i by (simp_all add: e update_item_nth)
    have "queue_inv w'"
      by (rule dequeue_inv [OF q i withdrawn(1)]) (use it in \<open>simp_all add: e\<close>)
    moreover have "drain_inv w'"
    proof (rule drain_invI)
      show "sw_drain w' = Not_draining \<and> \<not> sw_running w' \<or> sw_drain w' = Returned \<and> sw_running w'" if "sw_active w' = None"
        using active_none [OF d] that by (simp add: e)
      show "j < length (sw_items w') \<and> sw_running w' \<and>
          (sw_drain w' = Await_seal \<and> item_phase w' j = (if sw_aborted w' = None then Sealing else Failed) \<or>
           sw_drain w' = Await_send \<and> item_phase w' j = (if sw_aborted w' = None then Sending else Failed))"
        if "sw_active w' = Some j" for j
      proof -
        have a: "sw_active w = Some j" using that by (simp add: e)
        have "j \<noteq> i" using active_phase [OF d a] withdrawn(1) by (auto split: if_splits)
        then show ?thesis using active_phase [OF d a] it(2) by (simp add: e)
      qed
      show "sw_active w' = Some j" if "j < length (sw_items w')" "item_phase w' j = Sealing \<or> item_phase w' j = Sending" for j
      proof -
        have "j \<noteq> i" using that(2) it(1) by auto
        then show ?thesis using that it(2) busy_active [OF d, of j] by (simp add: e)
      qed
    qed
    moreover have "committed_inv w'"
      using c
    proof (rule committed_mono)
      fix j assume j: "j < length (sw_items w)" "item_phase w j \<in> {Sending, Sent, Failed}"
      then have "j \<noteq> i" using withdrawn(1) by auto
      with j it(2) show "j < length (sw_items w') \<and> plaintext_of w' j = plaintext_of w j \<and> item_phase w' j \<in> {Sending, Sent, Failed} \<and>
        (sw_drain w' = Await_seal \<and> sw_active w' = Some j \<longrightarrow> sw_drain w = Await_seal \<and> sw_active w = Some j)"
        by (simp add: e)
    qed (simp add: e)
    moreover have "frames_inv encrypt start w'"
      using fr by (rule frames_mono) (simp_all add: e)
    moreover have "promise_inv w'"
    proof (rule promise_update [OF p])
      have "sw_frames w' = sw_frames w" by (simp add: e)
      then show "item_ok (fst ` set (sw_frames w)) i (sw_items w ! i) \<Longrightarrow> item_ok (fst ` set (sw_frames w')) i (sw_items w' ! i)"
        using withdrawn(1) by (auto simp add: it item_ok_def settle_def)
    qed (use it in \<open>simp_all add: e\<close>)
    ultimately show ?thesis
      by (simp add: writer_inv_def w'_def)
  next
    case abandoned
    define w' where "w' = snd (writer_cancel i r w)"
    note e = abandoned(3) [folded w'_def]
    have it: "item_phase w' j = item_phase w j" "oi_priority (sw_items w' ! j) = oi_priority (sw_items w ! j)"
        "plaintext_of w' j = plaintext_of w j" "j \<noteq> i \<Longrightarrow> sw_items w' ! j = sw_items w ! j"
        "oi_completion (sw_items w' ! i) = settle (Rejected r) (oi_completion (sw_items w ! i))" for j
      using i by (auto simp add: e update_item_nth)
    have fields: "sw_control w' = sw_control w" "sw_data w' = sw_data w" "sw_aborted w' = sw_aborted w" "sw_active w' = sw_active w"
      "sw_running w' = sw_running w" "sw_drain w' = sw_drain w" "sw_sealer w' = sw_sealer w" "sw_calls w' = sw_calls w"
      "sw_frames w' = sw_frames w" "length (sw_items w') = length (sw_items w)"
      by (simp_all add: e)
    have "queue_inv w'"
      using q unfolding queue_inv_def it(1,2) fields .
    moreover have "drain_inv w'"
      using d unfolding drain_inv_def it(1) fields .
    moreover have "committed_inv w'"
      using c unfolding committed_inv_def it(1,3) fields .
    moreover have "frames_inv encrypt start w'"
      using fr by (rule frames_mono) (simp_all add: fields)
    moreover have "promise_inv w'"
    proof (rule promise_update [OF p])
      show "item_ok (fst ` set (sw_frames w)) i (sw_items w ! i) \<Longrightarrow> item_ok (fst ` set (sw_frames w')) i (sw_items w' ! i)"
        using abandoned(1) by (auto simp add: it(1,5) fields item_ok_def settle_def)
    qed (use it(4) in \<open>simp_all add: fields\<close>)
    ultimately show ?thesis
      by (simp add: writer_inv_def w'_def)
  qed
qed


text \<open>The writer at the head of its loop.\<close>

definition at_head :: "aead \<Rightarrow> envelope_end \<Rightarrow> session_writer \<Rightarrow> bool" where
  "at_head encrypt start w \<longleftrightarrow> queue_inv w \<and> sw_running w \<and> sw_active w = None \<and>
     (\<forall>i < length (sw_items w). item_phase w i \<noteq> Sealing \<and> item_phase w i \<noteq> Sending) \<and>
     committed_inv w \<and> frames_inv encrypt start w \<and> promise_inv w"

lemma drain_cases:
  assumes "queue_inv w"
  obtains (returned) "writer_drain w = w\<lparr>sw_drain := Returned\<rparr>" "sw_control w = []" "sw_data w = []"
  | (takes) i where "sw_aborted w = None" "i < length (sw_items w)" "item_phase w i = Queued"
      "writer_drain w = update_item i (\<lambda>x. x\<lparr>oi_phase := Sealing\<rparr>)
         (w\<lparr>sw_control := filter (\<lambda>j. j \<noteq> i) (sw_control w), sw_data := filter (\<lambda>j. j \<noteq> i) (sw_data w),
            sw_active := Some i, sw_timer := True, sw_drain := Await_seal\<rparr>)"
      "i # filter (\<lambda>j. j \<noteq> i) (sw_control w) @ filter (\<lambda>j. j \<noteq> i) (sw_data w) = sw_control w @ sw_data w"
proof -
  note f = queue_facts [OF assms]
  have absent: "filter (\<lambda>j. j \<noteq> i) q = q" if "i \<notin> set q" for q :: "nat list" and i
    using that by (auto intro: filter_True)
  consider "sw_aborted w \<noteq> None" | "sw_aborted w = None" "sw_control w = []" "sw_data w = []"
    | i q where "sw_aborted w = None" "sw_control w = i # q" | i q where "sw_aborted w = None" "sw_control w = []" "sw_data w = i # q"
    by (cases "sw_control w"; cases "sw_data w"; cases "sw_aborted w") auto
  then show thesis
  proof cases
    case 1
    with f(7) show thesis by (intro returned) (simp_all add: writer_drain_def)
  next
    case 2
    then show thesis by (intro returned) (simp_all add: writer_drain_def)
  next
    case (3 i q)
    then have i: "i \<in> set (sw_control w)" "i \<notin> set q" "i \<notin> set (sw_data w)"
      using f(3) queue_members [OF assms, of i] by auto
    with 3 show thesis
      using queue_members [OF assms, of i] by (intro takes [of i]) (simp_all add: writer_drain_def absent)
  next
    case (4 i q)
    then have i: "i \<in> set (sw_data w)" "i \<notin> set q"
      using f(4) by auto
    have same: "w\<lparr>sw_control := [], sw_data := q, sw_active := Some i, sw_timer := True, sw_drain := Await_seal\<rparr> =
        w\<lparr>sw_data := q, sw_active := Some i, sw_timer := True, sw_drain := Await_seal\<rparr>"
      using 4(2) by (cases w) simp
    from 4 i show thesis
      using queue_members [OF assms, of i] by (intro takes [of i]) (simp_all add: writer_drain_def absent same)
  qed
qed

lemma drain_step_inv:
  assumes h: "at_head encrypt start w"
  shows "writer_inv encrypt start (writer_drain w)" "sw_drain (writer_drain w) \<noteq> Not_draining"
proof -
  have q: "queue_inv w" and rn: "sw_running w" and a: "sw_active w = None"
    and nb: "\<And>i. i < length (sw_items w) \<Longrightarrow> item_phase w i \<noteq> Sealing \<and> item_phase w i \<noteq> Sending"
    and c: "committed_inv w" and fr: "frames_inv encrypt start w" and p: "promise_inv w"
    using h unfolding at_head_def by blast+
  have "writer_inv encrypt start (writer_drain w) \<and> sw_drain (writer_drain w) \<noteq> Not_draining"
    using q
  proof (cases rule: drain_cases)
    case returned
    have "queue_inv (w\<lparr>sw_drain := Returned\<rparr>)"
      using q by (simp add: queue_inv_def)
    moreover have "drain_inv (w\<lparr>sw_drain := Returned\<rparr>)"
      by (rule drain_invI) (use rn a nb in auto)
    moreover have "committed_inv (w\<lparr>sw_drain := Returned\<rparr>)"
      using c by (rule committed_mono) simp_all
    moreover have "frames_inv encrypt start (w\<lparr>sw_drain := Returned\<rparr>)"
      using fr by (rule frames_mono) simp_all
    moreover have "promise_inv (w\<lparr>sw_drain := Returned\<rparr>)"
      using p by (simp add: promise_inv_def)
    ultimately show ?thesis
      unfolding returned(1) by (simp add: writer_inv_def)
  next
    case (takes i)
    define w' where "w' = writer_drain w"
    note e = takes(4) [folded w'_def]
    have it: "sw_items w' ! i = (sw_items w ! i)\<lparr>oi_phase := Sealing\<rparr>" "\<And>j. j \<noteq> i \<Longrightarrow> sw_items w' ! j = sw_items w ! j"
      using takes(2) by (simp_all add: e update_item_nth)
    have fields: "sw_aborted w' = None" "sw_active w' = Some i" "sw_running w'" "sw_drain w' = Await_seal"
      "sw_sealer w' = sw_sealer w" "sw_calls w' = sw_calls w" "sw_frames w' = sw_frames w" "length (sw_items w') = length (sw_items w)"
      using takes(1) rn by (simp_all add: e)
    have "queue_inv w'"
      by (rule dequeue_inv [OF q takes(2,3)]) (use it in \<open>simp_all add: e\<close>)
    moreover have "drain_inv w'"
    proof (rule drain_invI)
      show "sw_active w' = Some j" if j: "j < length (sw_items w')" "item_phase w' j = Sealing \<or> item_phase w' j = Sending" for j
        using nb [of j] it(2) [of j] j by (cases "j = i") (auto simp add: fields)
    qed (use takes(2) it(1) in \<open>simp_all add: fields\<close>)
    moreover have "committed_inv w'"
      using c
    proof (rule committed_mono)
      fix j assume j: "j < length (sw_items w)" "item_phase w j \<in> {Sending, Sent, Failed}"
      then have "j \<noteq> i" using takes(3) by auto
      with j it(2) show "j < length (sw_items w') \<and> plaintext_of w' j = plaintext_of w j \<and> item_phase w' j \<in> {Sending, Sent, Failed} \<and>
        (sw_drain w' = Await_seal \<and> sw_active w' = Some j \<longrightarrow> sw_drain w = Await_seal \<and> sw_active w = Some j)"
        by (simp add: fields)
    qed (simp add: fields)
    moreover have "frames_inv encrypt start w'"
      using fr takes(1) by (intro frames_mono [OF fr]) (simp_all add: fields)
    moreover have "promise_inv w'"
    proof (rule promise_update [OF p])
      show "item_ok (fst ` set (sw_frames w)) i (sw_items w ! i) \<Longrightarrow> item_ok (fst ` set (sw_frames w')) i (sw_items w' ! i)"
        using takes(3) by (auto simp add: it(1) fields item_ok_def)
    qed (use it(2) in \<open>simp_all add: fields\<close>)
    ultimately show ?thesis
      by (simp add: writer_inv_def w'_def [symmetric] fields)
  qed
  then show "writer_inv encrypt start (writer_drain w)" "sw_drain (writer_drain w) \<noteq> Not_draining" by blast+
qed


lemma inv_irrelevant [simp]:
  "writer_inv encrypt start (w\<lparr>sw_timer := x\<rparr>) = writer_inv encrypt start w"
  "writer_inv encrypt start (w\<lparr>sw_failures := y\<rparr>) = writer_inv encrypt start w"
  by (simp_all add: writer_inv_def queue_inv_def drain_inv_def committed_inv_def frames_inv_def promise_inv_def)

lemma retire_inv: "writer_inv encrypt start w \<Longrightarrow> writer_inv encrypt start (writer_retire r w)"
  by (simp add: writer_retire_def fail_inv)

lemma timer_inv: "writer_inv encrypt start w \<Longrightarrow> writer_inv encrypt start (timer_fires w)"
  by (simp add: timer_fires_def retire_inv)

lemma finish_inv:
  assumes inv: "writer_inv encrypt start w" and a: "sw_active w = Some i" "sw_aborted w \<noteq> None"
  shows "writer_inv encrypt start ((end_iteration w)\<lparr>sw_drain := Returned\<rparr>)" (is "writer_inv _ _ ?w")
    and "item_phase w i = Failed" "i < length (sw_items w)"
proof -
  have q: "queue_inv w" and d: "drain_inv w" and c: "committed_inv w" and fr: "frames_inv encrypt start w" and p: "promise_inv w"
    using inv by (simp_all add: writer_inv_def)
  note ph = active_phase [OF d a(1)]
  show f: "item_phase w i = Failed" "i < length (sw_items w)"
    using ph a(2) by auto
  have "queue_inv ?w = queue_inv w"
    by (simp add: queue_inv_def end_iteration_def)
  moreover have "drain_inv ?w"
  proof (rule drain_invI)
    show "sw_active ?w = Some j" if j: "j < length (sw_items ?w)" "item_phase ?w j = Sealing \<or> item_phase ?w j = Sending" for j
    proof -
      have "sw_active w = Some j"
        by (rule busy_active [OF d]) (use j in \<open>simp_all add: end_iteration_def\<close>)
      with a f j show ?thesis by (simp add: end_iteration_def)
    qed
  qed (use ph in \<open>simp_all add: end_iteration_def\<close>)
  moreover have "committed_inv ?w"
    using c by (rule committed_mono) (simp_all add: end_iteration_def)
  moreover have "frames_inv encrypt start ?w"
    using fr by (rule frames_mono) (simp_all add: end_iteration_def)
  moreover have "promise_inv ?w"
    using p by (simp add: promise_inv_def end_iteration_def)
  ultimately show "writer_inv encrypt start ?w"
    using q by (simp add: writer_inv_def)
qed

lemma seal_run_snoc:
  "seal_run encrypt e (calls @ [(nonce, p)]) = seal_run encrypt e calls @
     (case snd (seal encrypt nonce (seal_end encrypt e calls) p) of Inl _ \<Rightarrow> [] | Inr frame \<Rightarrow> [(p, frame)])"
  by (induction calls arbitrary: e) (auto simp add: seal_end_def split: prod.splits sum.splits)

lemma seal_end_snoc: "seal_end encrypt e (calls @ [(nonce, p)]) = fst (seal encrypt nonce (seal_end encrypt e calls) p)"
  by (simp add: seal_end_def)

definition sealed_call :: "aead \<Rightarrow> bytes \<Rightarrow> nat \<Rightarrow> session_writer \<Rightarrow> session_writer" where
  "sealed_call encrypt nonce i w = w\<lparr>sw_sealer := fst (seal encrypt nonce (sw_sealer w) (plaintext_of w i)),
     sw_calls := sw_calls w @ [(i, nonce, plaintext_of w i)]\<rparr>"

text \<open>The call of an aborted writer that settles after its item failed.\<close>

lemma late_call_inv:
  assumes inv: "writer_inv encrypt start w" and ab: "sw_aborted w \<noteq> None" and d: "sw_drain w = Returned"
    and i: "i < length (sw_items w)" "item_phase w i = Failed" "i \<notin> fst ` set (sw_calls w)"
  shows "writer_inv encrypt start (sealed_call encrypt nonce i w)"
proof -
  let ?w = "w\<lparr>sw_sealer := fst (seal encrypt nonce (sw_sealer w) (plaintext_of w i)),
    sw_calls := sw_calls w @ [(i, nonce, plaintext_of w i)]\<rparr>"
  have q: "queue_inv w" and dr: "drain_inv w" and c: "committed_inv w" and fr: "frames_inv encrypt start w" and p: "promise_inv w"
    using inv by (simp_all add: writer_inv_def)
  have "queue_inv ?w = queue_inv w" "drain_inv ?w = drain_inv w" "promise_inv ?w = promise_inv w"
    by (simp_all add: queue_inv_def drain_inv_def promise_inv_def)
  moreover have "committed_inv ?w"
  proof -
    have "\<forall>c \<in> set (sw_calls w). fst c < length (sw_items w) \<and> item_phase w (fst c) \<in> {Sending, Sent, Failed} \<and>
        snd (snd c) = plaintext_of w (fst c) \<and> (sw_drain w = Await_seal \<longrightarrow> sw_active w \<noteq> Some (fst c))" "distinct (map fst (sw_calls w))"
      using c unfolding committed_inv_def by blast+
    with i d show ?thesis
      unfolding committed_inv_def by simp
  qed
  moreover have "frames_inv encrypt start ?w"
    using fr ab by (auto simp add: frames_inv_def seal_end_snoc seal_run_snoc intro: prefix_prefix)
  ultimately show ?thesis
    using q dr p unfolding writer_inv_def sealed_call_def by blast
qed


lemma retire_fields [simp]:
  "sw_aborted (writer_retire r w) \<noteq> None" "sw_active (writer_retire r w) = sw_active w" "sw_calls (writer_retire r w) = sw_calls w"
  "sw_sealer (writer_retire r w) = sw_sealer w" "sw_frames (writer_retire r w) = sw_frames w"
  by (simp_all add: writer_retire_def writer_fail_def fold_update)

lemma retire_commutes:
  "writer_retire r (w\<lparr>sw_sealer := x, sw_calls := y\<rparr>) = (writer_retire r w)\<lparr>sw_sealer := x, sw_calls := y\<rparr>"
  by (simp add: writer_retire_def writer_fail_def fold_update active_items_def)

lemma retire_message: "oi_message (sw_items (writer_retire r w) ! i) = oi_message (sw_items w ! i)"
proof -
  have one: "oi_message (xs[j := fail_item r (xs ! j)] ! i) = oi_message (xs ! i)" for j xs
    by (cases "j = i"; cases "j < length xs") (simp_all add: list_update_beyond)
  have "oi_message (fold (\<lambda>i xs. xs[i := fail_item r (xs ! i)]) is xs ! i) = oi_message (xs ! i)" for "is" xs
    by (induction "is" arbitrary: xs) (simp_all add: one)
  then show ?thesis
    by (simp add: writer_retire_def writer_fail_def fold_update)
qed

text \<open>A call of the sealer that ends in an aborted writer.\<close>

lemma aborted_call_inv:
  assumes inv: "writer_inv encrypt start w" and a: "sw_drain w = Await_seal" "sw_active w = Some i"
  shows "writer_inv encrypt start ((end_iteration (writer_retire r (sealed_call encrypt nonce i w)))\<lparr>sw_drain := Returned\<rparr>)"
proof -
  let ?v = "writer_retire r w"
  define u where "u = (end_iteration ?v)\<lparr>sw_drain := Returned\<rparr>"
  have fresh: "i \<notin> fst ` set (sw_calls w)"
    using inv a by (auto simp add: writer_inv_def committed_inv_def)
  note fin = finish_inv [OF retire_inv [OF inv, of r], of i]
  have v: "writer_inv encrypt start u" "item_phase ?v i = Failed" "i < length (sw_items ?v)"
    using fin a by (simp_all add: u_def)
  have "writer_inv encrypt start (sealed_call encrypt nonce i u)"
    by (rule late_call_inv [OF v(1)]) (use v(2,3) fresh in \<open>simp_all add: u_def end_iteration_def\<close>)
  moreover have "(end_iteration (writer_retire r (sealed_call encrypt nonce i w)))\<lparr>sw_drain := Returned\<rparr> = sealed_call encrypt nonce i u"
    by (simp add: sealed_call_def u_def retire_commutes end_iteration_def retire_message)
  ultimately show ?thesis by simp
qed

lemma seal_settles_cases:
  assumes "sw_drain w = Await_seal" "sw_active w = Some i"
  obtains (fails) r where "seal_settles encrypt nonce w = (end_iteration (writer_retire r (sealed_call encrypt nonce i w)))\<lparr>sw_drain := Returned\<rparr>"
  | (sends) frame where "snd (seal encrypt nonce (sw_sealer w) (plaintext_of w i)) = Inr frame" "sw_aborted w = None"
      "seal_settles encrypt nonce w = update_item i (\<lambda>x. x\<lparr>oi_phase := Sending\<rparr>)
         ((sealed_call encrypt nonce i w)\<lparr>sw_frames := sw_frames w @ [(i, frame)], sw_drain := Await_send\<rparr>)"
proof (cases "snd (seal encrypt nonce (sw_sealer w) (plaintext_of w i))")
  case (Inl e)
  with assms show thesis
    by (intro fails [of "Seal_failed e"]) (simp add: seal_settles_def sealed_call_def case_prod_beta Let_def)
next
  case (Inr frame)
  show thesis
  proof (cases "sw_aborted w")
    case None
    with Inr assms show thesis
      by (intro sends [of frame]) (simp_all add: seal_settles_def sealed_call_def case_prod_beta Let_def)
  next
    case (Some x)
    with Inr assms show thesis
      by (intro fails [of x]) (simp add: seal_settles_def sealed_call_def case_prod_beta Let_def writer_retire_def)
  qed
qed

lemma seal_settles_inv:
  assumes inv: "writer_inv encrypt start w"
  shows "writer_inv encrypt start (seal_settles encrypt nonce w)"
proof (cases "\<exists>i. sw_drain w = Await_seal \<and> sw_active w = Some i")
  case False
  then have "seal_settles encrypt nonce w = w"
    by (auto simp add: seal_settles_def split: drain_point.splits option.splits)
  with inv show ?thesis by simp
next
  case True
  then obtain i where a: "sw_drain w = Await_seal" "sw_active w = Some i" by blast
  then show ?thesis
  proof (cases rule: seal_settles_cases [of w i encrypt nonce])
    case (fails r)
    with aborted_call_inv [OF inv a] show ?thesis by simp
  next
    case (sends frame)
    have q: "queue_inv w" and d: "drain_inv w" and c: "committed_inv w" and fr: "frames_inv encrypt start w" and p: "promise_inv w"
      using inv by (simp_all add: writer_inv_def)
    define w' where "w' = seal_settles encrypt nonce w"
    note e = sends(3) [folded w'_def]
    have ph: "i < length (sw_items w)" "item_phase w i = Sealing"
      using active_phase [OF d a(2)] a(1) sends(2) by auto
    have it: "sw_items w' ! i = (sw_items w ! i)\<lparr>oi_phase := Sending\<rparr>" "\<And>j. j \<noteq> i \<Longrightarrow> sw_items w' ! j = sw_items w ! j"
      using ph(1) by (simp_all add: e sealed_call_def update_item_nth)
    have fields: "sw_aborted w' = None" "sw_active w' = Some i" "sw_running w' = sw_running w" "sw_drain w' = Await_send"
      "sw_sealer w' = fst (seal encrypt nonce (sw_sealer w) (plaintext_of w i))"
      "sw_calls w' = sw_calls w @ [(i, nonce, plaintext_of w i)]" "sw_frames w' = sw_frames w @ [(i, frame)]"
      "length (sw_items w') = length (sw_items w)" "sw_control w' = sw_control w" "sw_data w' = sw_data w"
      using a sends(2) by (simp_all add: e sealed_call_def)
    have same: "item_phase w' j = Queued \<longleftrightarrow> item_phase w j = Queued" "oi_priority (sw_items w' ! j) = oi_priority (sw_items w ! j)"
        "plaintext_of w' j = plaintext_of w j" for j
      using it ph by (cases "j = i"; simp)+
    have "queue_inv w' = queue_inv w"
      unfolding queue_inv_def same fields sends(2) by simp
    moreover have "drain_inv w'"
    proof (rule drain_invI)
      show "sw_active w' = Some j" if j: "j < length (sw_items w')" "item_phase w' j = Sealing \<or> item_phase w' j = Sending" for j
        using busy_active [OF d, of j] it(2) [of j] j a by (cases "j = i") (auto simp add: fields)
    qed (use ph it(1) active_phase [OF d a(2)] in \<open>simp_all add: fields\<close>)
    moreover have "committed_inv w'"
    proof -
      have old: "\<forall>c \<in> set (sw_calls w). fst c < length (sw_items w) \<and> item_phase w (fst c) \<in> {Sending, Sent, Failed} \<and>
          snd (snd c) = plaintext_of w (fst c) \<and> sw_active w \<noteq> Some (fst c)" "distinct (map fst (sw_calls w))"
        using c a unfolding committed_inv_def by blast+
      have "item_phase w' (fst c) \<in> {Sending, Sent, Failed}" if "c \<in> set (sw_calls w)" for c
        using old(1) that a(2) it(2) [of "fst c"] by fastforce
      with old a(2) ph(1) it(1) show ?thesis
        unfolding committed_inv_def fields same by force
    qed
    moreover have "frames_inv encrypt start w'"
      using fr sends(1,2) by (simp add: frames_inv_def fields seal_end_snoc seal_run_snoc)
    moreover have "promise_inv w'"
    proof (rule promise_update [OF p])
      show "item_ok (fst ` set (sw_frames w)) i (sw_items w ! i) \<Longrightarrow> item_ok (fst ` set (sw_frames w')) i (sw_items w' ! i)"
        using ph(2) by (auto simp add: it(1) fields item_ok_def)
    qed (use it(2) in \<open>auto simp add: fields\<close>)
    ultimately show ?thesis
      using q by (simp add: writer_inv_def w'_def)
  qed
qed


lemma sent_at_head:
  assumes inv: "writer_inv encrypt start w" and a: "sw_drain w = Await_send" "sw_active w = Some i" "sw_aborted w = None"
  shows "at_head encrypt start (end_iteration
    (update_item i (\<lambda>x. x\<lparr>oi_phase := Sent, oi_completion := settle Resolved (oi_completion x)\<rparr>) w))" (is "at_head _ _ ?w")
proof -
  have q: "queue_inv w" and d: "drain_inv w" and c: "committed_inv w" and fr: "frames_inv encrypt start w" and p: "promise_inv w"
    using inv by (simp_all add: writer_inv_def)
  have ph: "i < length (sw_items w)" "item_phase w i = Sending" "sw_running w"
    using active_phase [OF d a(2)] a by auto
  define w' where "w' = ?w"
  have it: "sw_items w' ! i = (sw_items w ! i)\<lparr>oi_phase := Sent, oi_completion := settle Resolved (oi_completion (sw_items w ! i))\<rparr>"
    "\<And>j. j \<noteq> i \<Longrightarrow> sw_items w' ! j = sw_items w ! j"
    using ph(1) by (simp_all add: w'_def end_iteration_def update_item_nth)
  have fields: "sw_aborted w' = sw_aborted w" "sw_active w' = None" "sw_running w' = sw_running w" "sw_drain w' = Await_send"
    "sw_sealer w' = sw_sealer w" "sw_calls w' = sw_calls w" "sw_frames w' = sw_frames w"
    "length (sw_items w') = length (sw_items w)" "sw_control w' = sw_control w" "sw_data w' = sw_data w"
    using a by (simp_all add: w'_def end_iteration_def)
  have same: "item_phase w' j = Queued \<longleftrightarrow> item_phase w j = Queued" "oi_priority (sw_items w' ! j) = oi_priority (sw_items w ! j)"
      "plaintext_of w' j = plaintext_of w j" "item_phase w j \<in> {Sending, Sent, Failed} \<Longrightarrow> item_phase w' j \<in> {Sending, Sent, Failed}" for j
    using it ph by (cases "j = i"; simp)+
  have "queue_inv w' = queue_inv w"
    unfolding queue_inv_def same fields by simp
  moreover have "item_phase w' j \<noteq> Sealing \<and> item_phase w' j \<noteq> Sending" if "j < length (sw_items w)" for j
    using busy_active [OF d that] a(2) it by (cases "j = i") auto
  moreover have "committed_inv w'"
    using c by (rule committed_mono) (use same(4) in \<open>simp_all add: fields same(3)\<close>)
  moreover have "frames_inv encrypt start w'"
    using fr by (rule frames_mono) (simp_all add: fields)
  moreover have "promise_inv w'"
  proof (rule promise_update [OF p])
    show "item_ok (fst ` set (sw_frames w)) i (sw_items w ! i) \<Longrightarrow> item_ok (fst ` set (sw_frames w')) i (sw_items w' ! i)"
      using ph(2) by (auto simp add: it(1) fields item_ok_def settle_def)
  qed (use it(2) in \<open>simp_all add: fields\<close>)
  ultimately show ?thesis
    using q ph(3) by (simp add: at_head_def fields w'_def [symmetric])
qed

lemma send_settles_cases:
  assumes "sw_drain w = Await_send" "sw_active w = Some i"
  obtains (fails) r where "send_settles ok w = (end_iteration (writer_retire r w))\<lparr>sw_drain := Returned\<rparr>"
  | (sent) "ok" "sw_aborted w = None" "send_settles ok w = writer_drain (end_iteration
      (update_item i (\<lambda>x. x\<lparr>oi_phase := Sent, oi_completion := settle Resolved (oi_completion x)\<rparr>) w))"
proof (cases "ok \<and> sw_aborted w = None")
  case True
  with assms show thesis by (intro sent) (simp_all add: send_settles_def)
next
  case False
  with assms show thesis
    by (cases "sw_aborted w"; cases "ok") (auto intro: fails simp add: send_settles_def writer_retire_def)
qed

lemma send_settles_inv:
  assumes inv: "writer_inv encrypt start w"
  shows "writer_inv encrypt start (send_settles ok w)"
proof (cases "\<exists>i. sw_drain w = Await_send \<and> sw_active w = Some i")
  case False
  then have "send_settles ok w = w"
    by (auto simp add: send_settles_def split: drain_point.splits option.splits)
  with inv show ?thesis by simp
next
  case True
  then obtain i where a: "sw_drain w = Await_send" "sw_active w = Some i" by blast
  then show ?thesis
  proof (cases rule: send_settles_cases [of w i ok])
    case (fails r)
    with finish_inv(1) [OF retire_inv [OF inv, of r], of i] a show ?thesis by simp
  next
    case sent
    with drain_step_inv(1) [OF sent_at_head [OF inv a sent(2)]] show ?thesis by simp
  qed
qed

lemma run_inv:
  assumes "queue_inv w" "drain_inv w" "committed_inv w" "frames_inv encrypt start w" "promise_inv w"
  shows "writer_inv encrypt start (writer_run w)" "idle_inv (writer_run w)"
proof -
  have "writer_inv encrypt start (writer_run w) \<and> idle_inv (writer_run w)"
  proof (cases "sw_running w")
    case True
    have "sw_drain w \<noteq> Not_draining"
      using active_none [OF assms(2)] active_phase [OF assms(2)] True by (cases "sw_active w") auto
    with True assms show ?thesis
      by (simp add: writer_run_def writer_inv_def idle_inv_def)
  next
    case False
    let ?w = "w\<lparr>sw_running := True\<rparr>"
    have a: "sw_active w = None"
      using active_phase [OF assms(2)] False by (cases "sw_active w") auto
    have "queue_inv ?w = queue_inv w" "committed_inv ?w = committed_inv w" "frames_inv encrypt start ?w = frames_inv encrypt start w"
      "promise_inv ?w = promise_inv w"
      by (simp_all add: queue_inv_def committed_inv_def frames_inv_def promise_inv_def)
    moreover have "item_phase w j \<noteq> Sealing \<and> item_phase w j \<noteq> Sending" if "j < length (sw_items w)" for j
      using busy_active [OF assms(2) that] a by auto
    ultimately have "at_head encrypt start ?w"
      using a assms by (simp add: at_head_def)
    from drain_step_inv [OF this] False show ?thesis
      by (simp add: writer_run_def idle_inv_def)
  qed
  then show "writer_inv encrypt start (writer_run w)" "idle_inv (writer_run w)" by blast+
qed


lemma strict_sorted_snoc: "sorted_wrt (<) (xs @ [n]) \<longleftrightarrow> sorted_wrt (<) xs \<and> (\<forall>x \<in> set xs. x < n)" for n :: nat
  by (auto simp add: sorted_wrt_append)

lemma enqueue_Inr:
  assumes "writer_enqueue m p w = Inr (i, w')"
  shows "i = length (sw_items w)" "w' = writer_run (pushed m p w)" "sw_aborted w = None" "\<not> sw_terminal w"
    "if p = Priority_data then length (sw_data w) < SESSION_DATA_QUEUE else length (sw_control w) < SESSION_CONTROL_QUEUE"
  using assms by (auto simp add: writer_enqueue_def split: option.splits if_splits)

lemma pushed_inv:
  assumes inv: "writer_inv encrypt start w" and e: "writer_enqueue m p w = Inr (i, w')"
  shows "queue_inv (pushed m p w) \<and> drain_inv (pushed m p w) \<and> committed_inv (pushed m p w) \<and>
    frames_inv encrypt start (pushed m p w) \<and> promise_inv (pushed m p w)"
proof -
  have q: "queue_inv w" and d: "drain_inv w" and c: "committed_inv w" and fr: "frames_inv encrypt start w" and pr: "promise_inv w"
    using inv by (simp_all add: writer_inv_def)
  note x = enqueue_Inr [OF e]
  define v where "v = pushed m p w"
  let ?n = "length (sw_items w)"
  have it: "\<And>j. j < ?n \<Longrightarrow> sw_items v ! j = sw_items w ! j" "item_phase v ?n = Queued" "oi_priority (sw_items v ! ?n) = p"
      "oi_completion (sw_items v ! ?n) = Pending"
    by (simp_all add: v_def pushed_def nth_append)
  have fields: "sw_aborted v = None" "sw_active v = sw_active w" "sw_running v = sw_running w" "sw_drain v = sw_drain w"
    "sw_sealer v = sw_sealer w" "sw_calls v = sw_calls w" "sw_frames v = sw_frames w" "length (sw_items v) = Suc ?n"
    "sw_control v = (if p = Priority_data then sw_control w else sw_control w @ [?n])"
    "sw_data v = (if p = Priority_data then sw_data w @ [?n] else sw_data w)"
    using x(3) by (simp_all add: v_def pushed_def)
  note m = queue_members [OF q] and f = queue_facts [OF q]
  have "queue_inv v"
  proof (rule queue_invI)
    show "sorted_wrt (<) (sw_control v)" "sorted_wrt (<) (sw_data v)"
      using f(1,2) m unfolding fields by (auto simp add: strict_sorted_snoc)
    show "length (sw_control v) \<le> SESSION_CONTROL_QUEUE" "length (sw_data v) \<le> SESSION_DATA_QUEUE"
      using f(5,6) x(5) unfolding fields by auto
    show "j \<in> set (sw_control v) \<longleftrightarrow> j < length (sw_items v) \<and> item_phase v j = Queued \<and> oi_priority (sw_items v ! j) \<noteq> Priority_data"
      "j \<in> set (sw_data v) \<longleftrightarrow> j < length (sw_items v) \<and> item_phase v j = Queued \<and> oi_priority (sw_items v ! j) = Priority_data" for j
      using m [of j] it unfolding fields by (cases "j = ?n"; cases "j < ?n"; auto)+
  qed (simp add: fields)
  moreover have "drain_inv v"
  proof (rule drain_invI)
    show "j < length (sw_items v) \<and> sw_running v \<and>
        (sw_drain v = Await_seal \<and> item_phase v j = (if sw_aborted v = None then Sealing else Failed) \<or>
         sw_drain v = Await_send \<and> item_phase v j = (if sw_aborted v = None then Sending else Failed))" if "sw_active v = Some j" for j
      using active_phase [OF d, of j] that it(1) [of j] x(3) by (simp add: fields)
    show "sw_active v = Some j" if "j < length (sw_items v)" "item_phase v j = Sealing \<or> item_phase v j = Sending" for j
      using busy_active [OF d, of j] that it(1) [of j] it(2) by (cases "j = ?n") (auto simp add: fields)
  qed (use active_none [OF d] in \<open>simp add: fields\<close>)
  moreover have "committed_inv v"
    using c by (rule committed_mono) (simp_all add: fields it(1))
  moreover have "frames_inv encrypt start v"
    using fr x(3) by (intro frames_mono [OF fr]) (simp_all add: fields)
  moreover have "promise_inv v"
    using pr it unfolding promise_inv_def fields by (auto simp add: less_Suc_eq item_ok_def)
  ultimately show ?thesis
    unfolding v_def by blast
qed

lemma enqueue_inv:
  assumes "writer_inv encrypt start w" "writer_enqueue m p w = Inr (i, w')"
  shows "writer_inv encrypt start w' \<and> idle_inv w'"
  using run_inv [of "pushed m p w" encrypt start] pushed_inv [OF assms] enqueue_Inr(2) [OF assms(2)] by blast

lemma finally_inv:
  assumes inv: "writer_inv encrypt start w" and idle: "idle_inv w"
  shows "writer_inv encrypt start (drain_finally w) \<and> idle_inv (drain_finally w)"
proof (cases "sw_drain w = Returned")
  case False
  with assms show ?thesis by (simp add: drain_finally_def)
next
  case True
  have q: "queue_inv w" and d: "drain_inv w" and c: "committed_inv w" and fr: "frames_inv encrypt start w" and p: "promise_inv w"
    using inv by (simp_all add: writer_inv_def)
  let ?w = "w\<lparr>sw_running := False, sw_drain := Not_draining\<rparr>"
  have a: "sw_active w = None"
    using active_phase [OF d] True by (cases "sw_active w") auto
  have same: "queue_inv ?w = queue_inv w" "frames_inv encrypt start ?w = frames_inv encrypt start w" "promise_inv ?w = promise_inv w"
    by (simp_all add: queue_inv_def frames_inv_def promise_inv_def)
  have d': "drain_inv ?w"
    by (rule drain_invI) (use a busy_active [OF d] in simp_all)
  have c': "committed_inv ?w"
    using c by (rule committed_mono) simp_all
  show ?thesis
  proof (cases "sw_control w \<noteq> [] \<or> sw_data w \<noteq> []")
    case queued: True
    with True run_inv [of ?w encrypt start] same d' c' q fr p show ?thesis
      by (simp add: drain_finally_def)
  next
    case False
    with True same d' c' q fr p show ?thesis
      by (simp add: drain_finally_def writer_inv_def idle_inv_def)
  qed
qed

end
