(* ===== verification/Writer_Runs.thy ===== *)
theory Writer_Runs
  imports Session_Writer
begin

text \<open>
Runs of the session writer: the order in which messages are committed, what a cancellation settles, that the peer opens
  a prefix of the committed messages, and that the loop always comes to rest.
\<close>

section \<open>Order and permanence\<close>

text \<open>Items committed, being sealed and queued, in the order in which they are or would be sealed.\<close>

definition order_of :: "session_writer \<Rightarrow> nat list" where
  "order_of w = map fst (sw_calls w) @ (if sw_drain w = Await_seal then active_items w else []) @ sw_control w @ sw_data w"

abbreviation data_item :: "session_writer \<Rightarrow> nat \<Rightarrow> bool" where
  "data_item w i \<equiv> oi_priority (sw_items w ! i) = Priority_data"

text \<open>Within each of the two queues the first come is the first served.\<close>

definition fifo_inv :: "session_writer \<Rightarrow> bool" where
  "fifo_inv w \<longleftrightarrow> (\<forall>b. sorted_wrt (<) (filter (\<lambda>i. data_item w i = b) (order_of w))) \<and> (\<forall>i \<in> set (order_of w). i < length (sw_items w))"

text \<open>Every committed item was sealed, except possibly the last one of an aborted writer.\<close>

definition sealed_inv :: "aead \<Rightarrow> envelope_end \<Rightarrow> session_writer \<Rightarrow> bool" where
  "sealed_inv encrypt start w \<longleftrightarrow>
     prefix (map fst (seal_run encrypt start (map snd (sw_calls w)))) (map (\<lambda>c. snd (snd c)) (sw_calls w)) \<and>
     (sw_aborted w = None \<or> sw_drain w = Await_seal \<longrightarrow>
        map fst (seal_run encrypt start (map snd (sw_calls w))) = map (\<lambda>c. snd (snd c)) (sw_calls w))"

text \<open>What never changes about an item: its message, its queue, and that it was withdrawn.\<close>

definition later :: "session_writer \<Rightarrow> session_writer \<Rightarrow> bool" where
  "later w w' \<longleftrightarrow> length (sw_items w) \<le> length (sw_items w') \<and>
     (\<forall>i < length (sw_items w). oi_message (sw_items w' ! i) = oi_message (sw_items w ! i) \<and>
        oi_priority (sw_items w' ! i) = oi_priority (sw_items w ! i) \<and>
        (item_phase w i = Withdrawn \<longrightarrow> item_phase w' i = Withdrawn))"

lemma later_refl [simp]: "later w w"
  by (simp add: later_def)

lemma later_trans: "later u v \<Longrightarrow> later v w \<Longrightarrow> later u w"
  unfolding later_def by fastforce

lemma later_same: "sw_items w' = sw_items w \<Longrightarrow> later w w'"
  by (simp add: later_def)

lemma later_update:
  assumes "i < length (sw_items w)" "sw_items w' = (sw_items w)[i := x]" "oi_message x = oi_message (sw_items w ! i)"
    "oi_priority x = oi_priority (sw_items w ! i)" "item_phase w i \<noteq> Withdrawn \<or> oi_phase x = Withdrawn"
  shows "later w w'"
  using assms by (auto simp add: later_def nth_list_update)

lemma subseq_set: "subseq xs ys \<Longrightarrow> set xs \<subseteq> set ys"
  by (induction rule: list_emb.induct) auto

lemma subseq_sorted_wrt: "subseq xs ys \<Longrightarrow> sorted_wrt P ys \<Longrightarrow> sorted_wrt P xs"
  by (induction rule: list_emb.induct) (auto dest: subseq_set)

text \<open>An item was taken out of the order, or items at its end, and no call was added.\<close>

lemma fifo_shrink:
  assumes o1: "fifo_inv w" and l: "later w w'" and sub: "subseq (order_of w') (order_of w)"
  shows "fifo_inv w'"
proof -
  have o: "\<And>b. sorted_wrt (<) (filter (\<lambda>i. data_item w i = b) (order_of w))" "\<And>i. i \<in> set (order_of w) \<Longrightarrow> i < length (sw_items w)"
    using o1 unfolding fifo_inv_def by blast+
  have prio: "oi_priority (sw_items w' ! i) = oi_priority (sw_items w ! i)" if "i < length (sw_items w)" for i
    using l that unfolding later_def by blast
  have len: "i < length (sw_items w)" if "i \<in> set (order_of w')" for i
    using that o(2) subseq_set [OF sub] by blast
  have sorted: "sorted_wrt (<) (filter (\<lambda>i. data_item w' i = b) (order_of w'))" for b
  proof -
    have "filter (\<lambda>i. data_item w' i = b) (order_of w') = filter (\<lambda>i. data_item w i = b) (order_of w')"
      by (rule filter_cong [OF refl]) (simp only: prio len)
    then show ?thesis
      by (simp only: subseq_sorted_wrt [OF subseq_filter [OF sub] o(1)])
  qed
  have "length (sw_items w) \<le> length (sw_items w')"
    using l unfolding later_def by blast
  then have "i < length (sw_items w')" if "i \<in> set (order_of w')" for i
    using len [OF that] by (rule less_le_trans [rotated])
  with sorted show ?thesis
    unfolding fifo_inv_def by blast
qed

lemma sealed_mono:
  assumes "sealed_inv encrypt start w" "sw_calls w' = sw_calls w"
    and "sw_aborted w' = None \<or> sw_drain w' = Await_seal \<Longrightarrow> sw_aborted w = None \<or> sw_drain w = Await_seal"
  shows "sealed_inv encrypt start w'"
  using assms(1,3) unfolding sealed_inv_def assms(2) by blast


lemma update_item_items: "sw_items (update_item i f w) = (sw_items w)[i := f (sw_items w ! i)]"
  by (simp add: update_item_def)

lemma drain_order:
  assumes "queue_inv w" "sw_active w = None" "sealed_inv encrypt start w"
  shows "order_of (writer_drain w) = order_of w" "later w (writer_drain w)" "sealed_inv encrypt start (writer_drain w)"
proof -
  have "order_of (writer_drain w) = order_of w \<and> later w (writer_drain w) \<and> sealed_inv encrypt start (writer_drain w)"
    using assms(1)
  proof (cases rule: drain_cases)
    case returned
    have "sealed_inv encrypt start (w\<lparr>sw_drain := Returned\<rparr>)"
      using assms(3) by (rule sealed_mono) simp_all
    with assms(2) show ?thesis
      unfolding returned(1) by (simp add: order_of_def active_items_def later_same)
  next
    case (takes i)
    have "order_of (writer_drain w) = order_of w"
      using assms(2) takes(5) unfolding takes(4) by (simp add: order_of_def active_items_def)
    moreover have "later w (writer_drain w)"
      by (rule later_update [of i w _ "(sw_items w ! i)\<lparr>oi_phase := Sealing\<rparr>"]) (simp_all add: takes(2-4) update_item_items)
    moreover have "sealed_inv encrypt start (writer_drain w)"
      using assms(3) by (rule sealed_mono) (simp_all add: takes(1,4))
    ultimately show ?thesis by simp
  qed
  then show "order_of (writer_drain w) = order_of w" "later w (writer_drain w)" "sealed_inv encrypt start (writer_drain w)" by blast+
qed

definition extra_inv :: "aead \<Rightarrow> envelope_end \<Rightarrow> session_writer \<Rightarrow> bool" where
  "extra_inv encrypt start w \<longleftrightarrow> fifo_inv w \<and> sealed_inv encrypt start w"

lemma drain_extra:
  assumes "queue_inv w" "sw_active w = None" "extra_inv encrypt start w"
  shows "extra_inv encrypt start (writer_drain w) \<and> later w (writer_drain w)"
proof -
  have x: "fifo_inv w" "sealed_inv encrypt start w"
    using assms(3) by (simp_all add: extra_inv_def)
  note o = drain_order [OF assms(1,2) x(2)]
  have "fifo_inv (writer_drain w)"
    using x(1) o(2) by (rule fifo_shrink) (simp add: o(1))
  with o show ?thesis by (simp add: extra_inv_def)
qed

lemma retire_later:
  assumes "queue_inv w" "drain_inv w"
  shows "later w (writer_retire r w)" "later w (writer_fail r w)"
proof -
  have "later w (writer_fail r w)"
  proof (cases "sw_aborted w")
    case None
    note f = writer_fail_fields [OF assms None, of r]
    have w: "item_phase w i \<noteq> Withdrawn" if "i \<in> set (active_items w @ sw_control w @ sw_data w)" for i
      using that queue_members [OF assms(1), of i] active_phase [OF assms(2), of i] None by (auto simp add: active_item)
    have "oi_message (sw_items (writer_fail r w) ! i) = oi_message (sw_items w ! i) \<and>
        oi_priority (sw_items (writer_fail r w) ! i) = oi_priority (sw_items w ! i) \<and>
        (item_phase w i = Withdrawn \<longrightarrow> item_phase (writer_fail r w) i = Withdrawn)" for i
      unfolding f(3) using w [of i] by simp
    with f(2) show ?thesis
      unfolding later_def by simp
  qed (simp add: writer_fail_def)
  then show "later w (writer_fail r w)" "later w (writer_retire r w)"
    by (simp_all add: writer_retire_def later_def)
qed


lemma fail_fields [simp]:
  "sw_calls (writer_fail r w) = sw_calls w" "sw_active (writer_fail r w) = sw_active w" "sw_drain (writer_fail r w) = sw_drain w"
  "sw_drain (writer_retire r w) = sw_drain w" "sw_aborted (writer_fail r w) \<noteq> None"
  by (simp_all add: writer_retire_def writer_fail_def fold_update)

lemma fail_queues:
  assumes "queue_inv w"
  shows "sw_control (writer_fail r w) = []" "sw_data (writer_fail r w) = []"
    "sw_control (writer_retire r w) = []" "sw_data (writer_retire r w) = []"
  using queue_facts(7) [OF assms] by (cases "sw_aborted w"; simp add: writer_retire_def writer_fail_def fold_update)+

text \<open>Failing cuts the order at its end.\<close>

lemma fail_extra:
  assumes inv: "writer_inv encrypt start w" "extra_inv encrypt start w"
  shows "extra_inv encrypt start (writer_fail r w)"
proof -
  have q: "queue_inv w" "drain_inv w" and x: "fifo_inv w" "sealed_inv encrypt start w"
    using inv by (simp_all add: writer_inv_def extra_inv_def)
  have "order_of w = order_of (writer_fail r w) @ sw_control w @ sw_data w"
    using fail_queues(1,2) [OF q(1)] by (simp add: order_of_def active_items_def)
  then have "subseq (order_of (writer_fail r w)) (order_of w)"
    using prefixI prefix_imp_subseq by blast
  then have "fifo_inv (writer_fail r w)"
    by (rule fifo_shrink [OF x(1) retire_later(2) [OF q]])
  moreover have "sealed_inv encrypt start (writer_fail r w)"
  proof (cases "sw_aborted w")
    case None
    then show ?thesis
      using x(2) by (intro sealed_mono [OF x(2)]) simp_all
  next
    case (Some a)
    then show ?thesis using x(2) by (simp add: writer_fail_def)
  qed
  ultimately show ?thesis
    by (simp add: extra_inv_def)
qed

lemma extra_irrelevant [simp]:
  "extra_inv encrypt start (w\<lparr>sw_timer := x\<rparr>) = extra_inv encrypt start w"
  "extra_inv encrypt start (w\<lparr>sw_failures := y\<rparr>) = extra_inv encrypt start w"
  by (simp_all add: extra_inv_def fifo_inv_def sealed_inv_def order_of_def active_items_def)

lemma retire_extra:
  "writer_inv encrypt start w \<Longrightarrow> extra_inv encrypt start w \<Longrightarrow> extra_inv encrypt start (writer_retire r w)"
  by (simp add: writer_retire_def fail_extra)

lemma cancel_extra:
  assumes inv: "writer_inv encrypt start w" "extra_inv encrypt start w" and i: "i < length (sw_items w)"
  shows "extra_inv encrypt start (snd (writer_cancel i r w)) \<and> later w (snd (writer_cancel i r w))"
proof -
  have q: "queue_inv w" "drain_inv w" and x: "fifo_inv w" "sealed_inv encrypt start w"
    using inv by (simp_all add: writer_inv_def extra_inv_def)
  from q(1) i show ?thesis
  proof (cases rule: cancel_cases [of w i r])
    case same
    with inv show ?thesis by simp
  next
    case withdrawn
    let ?w = "snd (writer_cancel i r w)"
    have l: "later w ?w"
      unfolding withdrawn(3)
      by (rule later_update [of i w _ "(sw_items w ! i)\<lparr>oi_phase := Withdrawn,
          oi_completion := settle (Rejected r) (oi_completion (sw_items w ! i))\<rparr>"])
        (use i in \<open>simp_all add: update_item_items\<close>)
    have "subseq (order_of ?w) (order_of w)"
      unfolding withdrawn(3) order_of_def
      by (simp add: active_items_def list_emb_append_mono subseq_filter_left)
    then have "fifo_inv ?w"
      by (rule fifo_shrink [OF x(1) l])
    moreover have "sealed_inv encrypt start ?w"
      using x(2) by (rule sealed_mono) (simp_all add: withdrawn(3))
    ultimately show ?thesis
      using l by (simp add: extra_inv_def)
  next
    case abandoned
    let ?w = "snd (writer_cancel i r w)"
    have l: "later w ?w"
      unfolding abandoned(3)
      by (rule later_update [of i w _ "(sw_items w ! i)\<lparr>oi_abandoned := True,
          oi_completion := settle (Rejected r) (oi_completion (sw_items w ! i))\<rparr>"])
        (use i in \<open>auto simp add: update_item_items\<close>)
    have "order_of ?w = order_of w"
      unfolding abandoned(3) order_of_def by (simp add: active_items_def)
    then have "fifo_inv ?w"
      by (intro fifo_shrink [OF x(1) l]) simp
    moreover have "sealed_inv encrypt start ?w"
      using x(2) by (rule sealed_mono) (simp_all add: abandoned(3))
    ultimately show ?thesis
      using l by (simp add: extra_inv_def)
  qed
qed


lemma finish_extra:
  assumes "extra_inv encrypt start w" "sw_aborted w \<noteq> None" "sw_drain w \<noteq> Await_seal \<or> sw_control w = [] \<and> sw_data w = []"
  shows "extra_inv encrypt start ((end_iteration w)\<lparr>sw_drain := Returned\<rparr>)" (is "extra_inv _ _ ?w")
proof -
  have x: "fifo_inv w" "sealed_inv encrypt start w"
    using assms(1) by (simp_all add: extra_inv_def)
  have l: "later w ?w"
    by (rule later_same) (simp add: end_iteration_def)
  have "prefix (order_of ?w) (order_of w)"
    using assms(3) by (auto simp add: order_of_def end_iteration_def)
  then have "fifo_inv ?w"
    by (rule fifo_shrink [OF x(1) l prefix_imp_subseq])
  moreover have "sealed_inv encrypt start ?w"
    using x(2) by (rule sealed_mono) (use assms(2) in \<open>simp_all add: end_iteration_def\<close>)
  ultimately show ?thesis by (simp add: extra_inv_def)
qed

lemma sealed_snoc:
  assumes "sealed_inv encrypt start w" "frames_inv encrypt start w" "sw_drain w = Await_seal"
    and w': "sw_calls w' = sw_calls w @ [(i, nonce, p)]" "sw_drain w' \<noteq> Await_seal"
      "sw_aborted w' = None \<Longrightarrow> \<exists>frame. snd (seal encrypt nonce (sw_sealer w) p) = Inr frame"
  shows "sealed_inv encrypt start w'"
proof -
  have eq: "map fst (seal_run encrypt start (map snd (sw_calls w))) = map (\<lambda>c. snd (snd c)) (sw_calls w)"
    "seal_end encrypt start (map snd (sw_calls w)) = sw_sealer w"
    using assms(1-3) by (simp_all add: sealed_inv_def frames_inv_def)
  show ?thesis
    unfolding sealed_inv_def w'(1) using w'(2,3)
    by (cases "snd (seal encrypt nonce (sw_sealer w) p)") (auto simp add: seal_run_snoc eq)
qed

lemma seal_settles_extra:
  assumes inv: "writer_inv encrypt start w" "extra_inv encrypt start w"
  shows "extra_inv encrypt start (seal_settles encrypt nonce w) \<and> later w (seal_settles encrypt nonce w)"
proof (cases "\<exists>i. sw_drain w = Await_seal \<and> sw_active w = Some i")
  case False
  then have "seal_settles encrypt nonce w = w"
    by (auto simp add: seal_settles_def split: drain_point.splits option.splits)
  with inv show ?thesis by simp
next
  case True
  then obtain i where a: "sw_drain w = Await_seal" "sw_active w = Some i" by blast
  have q: "queue_inv w" "drain_inv w" and x: "fifo_inv w" "sealed_inv encrypt start w" "frames_inv encrypt start w"
    using inv by (simp_all add: writer_inv_def extra_inv_def)
  note ph = active_phase [OF q(2) a(2)]
  from a show ?thesis
  proof (cases rule: seal_settles_cases [of w i encrypt nonce])
    case (fails r)
    define w' where "w' = seal_settles encrypt nonce w"
    have e: "w' = ((end_iteration (writer_retire r w))\<lparr>sw_drain := Returned\<rparr>)\<lparr>
        sw_sealer := fst (seal encrypt nonce (sw_sealer w) (plaintext_of w i)), sw_calls := sw_calls w @ [(i, nonce, plaintext_of w i)]\<rparr>"
      unfolding w'_def fails sealed_call_def retire_commutes by (simp add: end_iteration_def)
    have l: "later w w'"
      using retire_later(1) [OF q, of r] by (rule later_trans) (rule later_same, simp add: e end_iteration_def)
    have "prefix (order_of w') (order_of w)"
      using a fail_queues(3,4) [OF q(1), of r] by (simp add: e order_of_def end_iteration_def active_items_def)
    then have "fifo_inv w'"
      by (rule fifo_shrink [OF x(1) l prefix_imp_subseq])
    moreover have "sealed_inv encrypt start w'"
      by (rule sealed_snoc [OF x(2,3) a(1)]) (simp_all add: e end_iteration_def)
    ultimately show ?thesis
      using l by (simp add: extra_inv_def w'_def)
  next
    case (sends frame)
    define w' where "w' = seal_settles encrypt nonce w"
    note e = sends(3) [folded w'_def]
    have l: "later w w'"
      by (rule later_update [of i w _ "(sw_items w ! i)\<lparr>oi_phase := Sending\<rparr>"])
        (use ph sends(2) in \<open>auto simp add: e sealed_call_def update_item_items\<close>)
    have "order_of w' = order_of w"
      using a by (simp add: e order_of_def active_items_def sealed_call_def)
    then have "fifo_inv w'"
      by (intro fifo_shrink [OF x(1) l]) simp
    moreover have "sealed_inv encrypt start w'"
      by (rule sealed_snoc [OF x(2,3) a(1), of _ i nonce "plaintext_of w i"]) (use sends(1) in \<open>auto simp add: e sealed_call_def\<close>)
    ultimately show ?thesis
      using l by (simp add: extra_inv_def w'_def)
  qed
qed

lemma send_settles_extra:
  assumes inv: "writer_inv encrypt start w" "extra_inv encrypt start w"
  shows "extra_inv encrypt start (send_settles ok w) \<and> later w (send_settles ok w)"
proof (cases "\<exists>i. sw_drain w = Await_send \<and> sw_active w = Some i")
  case False
  then have "send_settles ok w = w"
    by (auto simp add: send_settles_def split: drain_point.splits option.splits)
  with inv show ?thesis by simp
next
  case True
  then obtain i where a: "sw_drain w = Await_send" "sw_active w = Some i" by blast
  have q: "queue_inv w" "drain_inv w" and x: "fifo_inv w" "sealed_inv encrypt start w"
    using inv by (simp_all add: writer_inv_def extra_inv_def)
  note ph = active_phase [OF q(2) a(2)]
  from a show ?thesis
  proof (cases rule: send_settles_cases [of w i ok])
    case (fails r)
    have "later w ((end_iteration (writer_retire r w))\<lparr>sw_drain := Returned\<rparr>)"
      using retire_later(1) [OF q, of r] by (rule later_trans) (rule later_same, simp add: end_iteration_def)
    moreover have "extra_inv encrypt start ((end_iteration (writer_retire r w))\<lparr>sw_drain := Returned\<rparr>)"
      by (rule finish_extra [OF retire_extra [OF inv]]) (simp_all add: a)
    ultimately show ?thesis
      by (simp add: fails)
  next
    case sent
    define v where "v = end_iteration (update_item i (\<lambda>x. x\<lparr>oi_phase := Sent, oi_completion := settle Resolved (oi_completion x)\<rparr>) w)"
    have h: "at_head encrypt start v"
      unfolding v_def by (rule sent_at_head [OF inv(1) a sent(2)])
    have l: "later w v"
      by (rule later_update [of i w _ "(sw_items w ! i)\<lparr>oi_phase := Sent, oi_completion := settle Resolved (oi_completion (sw_items w ! i))\<rparr>"])
        (use ph a sent(2) in \<open>auto simp add: v_def end_iteration_def update_item_items\<close>)
    have "order_of v = order_of w"
      using a by (simp add: v_def order_of_def end_iteration_def)
    then have "fifo_inv v"
      by (intro fifo_shrink [OF x(1) l]) simp
    moreover have "sealed_inv encrypt start v"
      using x(2) by (rule sealed_mono) (simp_all add: v_def end_iteration_def)
    ultimately have "extra_inv encrypt start (writer_drain v) \<and> later v (writer_drain v)"
      using h by (intro drain_extra) (simp_all add: at_head_def extra_inv_def)
    with later_trans [OF l] show ?thesis
      by (simp add: sent(3) v_def)
  qed
qed


lemma push_extra:
  assumes q: "queue_inv w" and d: "drain_inv w" and x: "extra_inv encrypt start w" and ab: "sw_aborted w = None"
  shows "extra_inv encrypt start (pushed m p w) \<and> later w (pushed m p w)"
proof -
  let ?n = "length (sw_items w)"
  define v where "v = pushed m p w"
  have f: "fifo_inv w" "sealed_inv encrypt start w"
    using x by (simp_all add: extra_inv_def)
  have l: "later w v"
    by (simp add: v_def later_def pushed_def nth_append)
  have mem: "i < ?n" if "i \<in> set (order_of w)" for i
    using f(1) that unfolding fifo_inv_def by blast
  define pre where "pre = map fst (sw_calls w) @ (if sw_drain w = Await_seal then active_items w else [])"
  have order: "order_of w = pre @ sw_control w @ sw_data w"
    "order_of v = pre @ (if p = Priority_data then sw_control w else sw_control w @ [?n]) @
       (if p = Priority_data then sw_data w @ [?n] else sw_data w)"
    by (simp_all add: v_def order_of_def pre_def pushed_def active_items_def)
  have prio: "oi_priority (sw_items v ! ?n) = p" "\<And>i. i < ?n \<Longrightarrow> oi_priority (sw_items v ! i) = oi_priority (sw_items w ! i)"
    by (simp_all add: v_def pushed_def nth_append)
  have cls: "filter (\<lambda>i. data_item v i = b) xs = filter (\<lambda>i. data_item w i = b) xs" if "set xs \<subseteq> set (order_of w)" for xs b
    by (rule filter_cong [OF refl]) (use that mem prio(2) in auto)
  have sub: "set pre \<subseteq> set (order_of w)" "set (sw_control w) \<subseteq> set (order_of w)" "set (sw_data w) \<subseteq> set (order_of w)"
    by (auto simp add: order(1))
  have data: "filter (\<lambda>i. data_item w i) (sw_control w) = []" "filter (\<lambda>i. \<not> data_item w i) (sw_data w) = []"
    using queue_members [OF q] by (auto simp add: filter_empty_conv)
  have split: "filter (\<lambda>i. data_item v i = b) (order_of v) =
      filter (\<lambda>i. data_item w i = b) (order_of w) @ (if (p = Priority_data) = b then [?n] else [])" for b
    using data by (cases b; cases "p = Priority_data") (simp_all add: order cls [OF sub(1)] cls [OF sub(2)] cls [OF sub(3)]
        cls [OF sub(1), of True, simplified] cls [OF sub(1), of False, simplified] cls [OF sub(2), of True, simplified]
        cls [OF sub(2), of False, simplified] cls [OF sub(3), of True, simplified] cls [OF sub(3), of False, simplified] prio(1))
  have "sorted_wrt (<) (filter (\<lambda>i. data_item v i = b) (order_of v))" for b
    unfolding split using f(1) mem by (auto simp add: fifo_inv_def strict_sorted_snoc)
  moreover have "i < length (sw_items v)" if "i \<in> set (order_of v)" for i
  proof -
    have "i \<in> set (order_of w) \<or> i = ?n" "length (sw_items v) = Suc ?n"
      using that unfolding order by (auto simp add: v_def pushed_def split: if_splits)
    then show ?thesis using mem [of i] by auto
  qed
  ultimately have "fifo_inv v"
    unfolding fifo_inv_def by blast
  moreover have "sealed_inv encrypt start v"
    using f(2) by (rule sealed_mono) (simp_all add: v_def pushed_def)
  ultimately show ?thesis
    using l by (simp add: extra_inv_def v_def)
qed

lemma run_extra:
  assumes "queue_inv w" "drain_inv w" "extra_inv encrypt start w"
  shows "extra_inv encrypt start (writer_run w) \<and> later w (writer_run w)"
proof (cases "sw_running w")
  case True
  with assms show ?thesis by (simp add: writer_run_def)
next
  case False
  let ?w = "w\<lparr>sw_running := True\<rparr>"
  have a: "sw_active w = None"
    using active_phase [OF assms(2)] False by (cases "sw_active w") auto
  have "queue_inv ?w = queue_inv w" "extra_inv encrypt start ?w = extra_inv encrypt start w"
    by (simp_all add: queue_inv_def extra_inv_def fifo_inv_def sealed_inv_def order_of_def active_items_def)
  with drain_extra [of ?w encrypt start] a assms have "extra_inv encrypt start (writer_drain ?w) \<and> later ?w (writer_drain ?w)"
    by simp
  moreover have "later w ?w" by (rule later_same) simp
  ultimately show ?thesis
    using False later_trans by (fastforce simp add: writer_run_def)
qed


section \<open>Every run\<close>

definition sound :: "aead \<Rightarrow> envelope_end \<Rightarrow> session_writer \<Rightarrow> bool" where
  "sound encrypt start w \<longleftrightarrow> writer_inv encrypt start w \<and> extra_inv encrypt start w \<and> idle_inv w"

lemma new_sound: "sound encrypt start (new_writer start)"
  by (simp add: sound_def writer_inv_def queue_inv_def drain_inv_def committed_inv_def frames_inv_def promise_inv_def extra_inv_def
      fifo_inv_def sealed_inv_def order_of_def active_items_def idle_inv_def new_writer_def seal_end_def)

lemma cancel_sound:
  assumes "sound encrypt start w" "i < length (sw_items w)"
  shows "sound encrypt start (snd (writer_cancel i r w)) \<and> later w (snd (writer_cancel i r w))"
proof -
  have inv: "writer_inv encrypt start w" "extra_inv encrypt start w" and idle: "idle_inv w" and q: "queue_inv w"
    using assms(1) by (simp_all add: sound_def writer_inv_def)
  from q assms(2) have "idle_inv (snd (writer_cancel i r w))"
    by (cases rule: cancel_cases [of w i r]) (use idle in \<open>simp_all add: idle_inv_def\<close>)
  with cancel_inv [OF inv(1) assms(2), of r] cancel_extra [OF inv assms(2), of r] show ?thesis
    by (simp add: sound_def)
qed

lemma later_length: "later w w' \<Longrightarrow> length (sw_items w) \<le> length (sw_items w')"
  by (simp add: later_def)

lemma cancel_all_sound:
  "sound encrypt start w \<Longrightarrow> set is \<subseteq> {..<length (sw_items w)} \<Longrightarrow>
   sound encrypt start (fold (\<lambda>i w. if P i w then snd (writer_cancel i r w) else w) is w) \<and>
   later w (fold (\<lambda>i w. if P i w then snd (writer_cancel i r w) else w) is w)"
proof (induction "is" arbitrary: w)
  case (Cons i "is")
  define v where "v = (if P i w then snd (writer_cancel i r w) else w)"
  have v: "sound encrypt start v \<and> later w v"
    using Cons.prems cancel_sound [of encrypt start w i r] by (simp add: v_def)
  with Cons.prems later_length [of w v] have "set is \<subseteq> {..<length (sw_items v)}" by auto
  with Cons.IH [of v] v later_trans show ?case
    unfolding fold_Cons comp_def v_def [symmetric] by blast
qed simp

lemma fail_sound:
  assumes "sound encrypt start w"
  shows "sound encrypt start (writer_fail r w) \<and> later w (writer_fail r w)"
proof -
  have inv: "writer_inv encrypt start w" "extra_inv encrypt start w" and q: "queue_inv w" "drain_inv w"
    using assms by (simp_all add: sound_def writer_inv_def)
  with fail_inv [OF inv(1), of r] fail_extra [OF inv, of r] retire_later(2) [OF q, of r] fail_queues(1,2) [OF q(1), of r] show ?thesis
    by (simp add: sound_def idle_inv_def)
qed

lemma sound_irrelevant [simp]:
  "sound encrypt start (w\<lparr>sw_timer := x\<rparr>) = sound encrypt start w"
  "sound encrypt start (w\<lparr>sw_failures := y\<rparr>) = sound encrypt start w"
  by (simp_all add: sound_def idle_inv_def)

lemma timer_sound:
  assumes "sound encrypt start w"
  shows "sound encrypt start (timer_fires w) \<and> later w (timer_fires w)"
proof -
  have "later w (w\<lparr>sw_timer := False\<rparr>)" by (rule later_same) simp
  moreover have "later v (v\<lparr>sw_failures := x\<rparr>)" for v x by (rule later_same) simp
  ultimately show ?thesis
    using assms fail_sound [of encrypt start "w\<lparr>sw_timer := False\<rparr>" Send_timed_out] later_trans
    by (simp add: timer_fires_def writer_retire_def) blast
qed

lemma settles_sound:
  assumes "sound encrypt start w"
  shows "sound encrypt start (seal_settles encrypt nonce w) \<and> later w (seal_settles encrypt nonce w)"
    "sound encrypt start (send_settles ok w) \<and> later w (send_settles ok w)"
proof -
  have inv: "writer_inv encrypt start w" "extra_inv encrypt start w" "idle_inv w"
    using assms by (simp_all add: sound_def)
  have "idle_inv (seal_settles encrypt nonce w)"
  proof (cases "\<exists>i. sw_drain w = Await_seal \<and> sw_active w = Some i")
    case True
    then obtain i where a: "sw_drain w = Await_seal" "sw_active w = Some i" by blast
    then show ?thesis
      by (cases rule: seal_settles_cases [of w i encrypt nonce]) (simp_all add: idle_inv_def end_iteration_def sealed_call_def)
  next
    case False
    then have "seal_settles encrypt nonce w = w"
      by (auto simp add: seal_settles_def split: drain_point.splits option.splits)
    with inv show ?thesis by simp
  qed
  with seal_settles_inv [OF inv(1)] seal_settles_extra [OF inv(1,2)]
  show "sound encrypt start (seal_settles encrypt nonce w) \<and> later w (seal_settles encrypt nonce w)"
    by (simp add: sound_def)
  have "idle_inv (send_settles ok w)"
  proof (cases "\<exists>i. sw_drain w = Await_send \<and> sw_active w = Some i")
    case True
    then obtain i where a: "sw_drain w = Await_send" "sw_active w = Some i" by blast
    then show ?thesis
    proof (cases rule: send_settles_cases [of w i ok])
      case sent
      with drain_step_inv(2) [OF sent_at_head [OF inv(1) a sent(2)]] show ?thesis
        by (simp add: idle_inv_def)
    qed (simp add: idle_inv_def)
  next
    case False
    then have "send_settles ok w = w"
      by (auto simp add: send_settles_def split: drain_point.splits option.splits)
    with inv show ?thesis by simp
  qed
  with send_settles_inv [OF inv(1)] send_settles_extra [OF inv(1,2)]
  show "sound encrypt start (send_settles ok w) \<and> later w (send_settles ok w)"
    by (simp add: sound_def)
qed

lemma enqueue_sound:
  assumes "sound encrypt start w" "writer_enqueue m p w = Inr (i, w')"
  shows "sound encrypt start w' \<and> later w w'"
proof -
  have inv: "writer_inv encrypt start w" "extra_inv encrypt start w" and q: "queue_inv w" "drain_inv w"
    using assms(1) by (simp_all add: sound_def writer_inv_def)
  note e = enqueue_Inr [OF assms(2)] and i = enqueue_inv [OF inv(1) assms(2)]
  note x = push_extra [OF q inv(2) e(3), of m p]
  have v: "queue_inv (pushed m p w)" "drain_inv (pushed m p w)"
    using pushed_inv [OF inv(1) assms(2)] by simp_all
  have "extra_inv encrypt start w' \<and> later (pushed m p w) w'"
    unfolding e(2) using run_extra [OF v] x by blast
  with i x later_trans show ?thesis
    unfolding sound_def by blast
qed


lemma finally_sound:
  assumes "sound encrypt start w"
  shows "sound encrypt start (drain_finally w) \<and> later w (drain_finally w)"
proof (cases "sw_drain w = Returned")
  case False
  with assms show ?thesis by (simp add: drain_finally_def)
next
  case True
  have inv: "writer_inv encrypt start w" "extra_inv encrypt start w" "idle_inv w" and q: "queue_inv w" "drain_inv w"
    using assms by (simp_all add: sound_def writer_inv_def)
  let ?w = "w\<lparr>sw_running := False, sw_drain := Not_draining\<rparr>"
  have a: "sw_active w = None"
    using active_phase [OF q(2)] True by (cases "sw_active w") auto
  have "queue_inv ?w = queue_inv w"
    by (simp add: queue_inv_def)
  moreover have "drain_inv ?w"
    by (rule drain_invI) (use a busy_active [OF q(2)] in simp_all)
  moreover have "fifo_inv ?w = fifo_inv w"
    using True a by (simp add: fifo_inv_def order_of_def active_items_def)
  moreover have "sealed_inv encrypt start ?w"
    by (rule sealed_mono [of _ _ w]) (use inv(2) in \<open>simp_all add: extra_inv_def\<close>)
  ultimately have x: "extra_inv encrypt start (writer_run ?w) \<and> later ?w (writer_run ?w)" "extra_inv encrypt start ?w"
    using run_extra [of ?w encrypt start] q inv(2) by (simp_all add: extra_inv_def)
  have l: "later w ?w" by (rule later_same) simp
  have "extra_inv encrypt start (drain_finally w) \<and> later w (drain_finally w)"
  proof (cases "sw_control w \<noteq> [] \<or> sw_data w \<noteq> []")
    case queued: True
    then have "drain_finally w = writer_run ?w"
      using True by (simp add: drain_finally_def)
    with x(1) l later_trans show ?thesis by metis
  next
    case False
    then have "drain_finally w = ?w"
      using True by (simp add: drain_finally_def)
    with x(2) l show ?thesis by metis
  qed
  with finally_inv [OF inv(1,3)] show ?thesis
    by (simp add: sound_def)
qed

lemma step_sound:
  assumes "sound encrypt start w"
  shows "sound encrypt start (writer_step encrypt e w) \<and> later w (writer_step encrypt e w)"
proof (cases e)
  case (Enqueue m p)
  then show ?thesis
    using assms enqueue_sound [OF assms] by (auto split: sum.splits)
next
  case (Cancel_item i r)
  then show ?thesis
    using assms cancel_sound [OF assms] by simp
next
  case (Cancel_operation x r)
  have "queue_inv w" "drain_inv w"
    using assms by (simp_all add: sound_def writer_inv_def)
  with Cancel_operation show ?thesis
    using cancel_all_sound [OF assms pending_items] by (simp add: cancelPendingMessages_def)
qed (use assms fail_sound settles_sound timer_sound finally_sound in simp_all)

lemma steps_sound:
  "sound encrypt start w \<Longrightarrow> sound encrypt start (fold (writer_step encrypt) es w) \<and> later w (fold (writer_step encrypt) es w)"
proof (induction es arbitrary: w)
  case (Cons e es)
  note one = step_sound [OF Cons.prems, of e]
  from Cons.IH [of "writer_step encrypt e w"] one later_trans show ?case
    unfolding fold_Cons comp_def by blast
qed simp

lemma runs_sound: "sound encrypt start (writer_runs encrypt start es)"
  unfolding writer_runs_def using steps_sound [OF new_sound] by blast

text \<open>
  C2. Whatever the owner, the sealer, the channel and the clock do, in any interleaving: the frames that a writer hands to
  its channel are the sealed forms of its committed messages, each once and in order, and a peer that opens whatever
  arrives on the lane, lost, repeated or forged, reads a prefix of exactly these messages. No message is committed twice,
  none that is still queued or was withdrawn is committed, and messages of one queue are committed in the order in which
  they were enqueued.
\<close>

theorem writer_delivers_in_order:
  assumes "authentic encrypt decrypt k senders" "lane_senders k senders" "new_end k b = Inr start"
    and "(start, map snd (sw_calls (writer_runs encrypt start es))) \<in> senders"
  defines "w \<equiv> writer_runs encrypt start es"
  shows "prefix (map oe_plaintext (open_run decrypt start received)) (map (\<lambda>c. plaintext_of w (fst c)) (sw_calls w)) \<and>
    prefix (map snd (sw_frames w)) (map snd (seal_run encrypt start (map snd (sw_calls w)))) \<and>
    distinct (map fst (sw_calls w)) \<and>
    (\<forall>c \<in> set (sw_calls w). item_phase w (fst c) \<notin> {Queued, Withdrawn}) \<and>
    (\<forall>d. sorted_wrt (<) (filter (\<lambda>i. data_item w i = d) (map fst (sw_calls w))))"
proof -
  have s: "committed_inv w" "frames_inv encrypt start w" "sealed_inv encrypt start w" "fifo_inv w"
    using runs_sound [of encrypt start es] by (simp_all add: w_def sound_def writer_inv_def extra_inv_def)
  note ok = new_end_ok [OF assms(3)]
  have "prefix (map oe_plaintext (open_run decrypt start received)) (map fst (seal_run encrypt start (map snd (sw_calls w))))"
    using open_run_prefix [OF assms(1,2,3), of start "map snd (sw_calls w)" received] ok assms(4) by (simp add: w_def)
  also have "prefix \<dots> (map (\<lambda>c. snd (snd c)) (sw_calls w))"
    using s(3) by (simp add: sealed_inv_def)
  also have "map (\<lambda>c. snd (snd c)) (sw_calls w) = map (\<lambda>c. plaintext_of w (fst c)) (sw_calls w)"
    using s(1) by (auto simp add: committed_inv_def)
  finally have p: "prefix (map oe_plaintext (open_run decrypt start received)) (map (\<lambda>c. plaintext_of w (fst c)) (sw_calls w))" .
  have o: "sorted_wrt (<) (filter (\<lambda>i. data_item w i = d) (map fst (sw_calls w)))" for d
    using s(4) unfolding fifo_inv_def order_of_def by (auto simp add: sorted_wrt_append)
  have "\<forall>c \<in> set (sw_calls w). item_phase w (fst c) \<notin> {Queued, Withdrawn}" "distinct (map fst (sw_calls w))"
    using s(1) unfolding committed_inv_def by auto
  with p o s(2) show ?thesis
    unfolding frames_inv_def by blast
qed


lemma cancel_results:
  assumes "queue_inv w" "i < length (sw_items w)"
  shows "(fst (writer_cancel i r w) = Cancel_withdrawn \<longrightarrow> item_phase (snd (writer_cancel i r w)) i = Withdrawn) \<and>
    (fst (writer_cancel i r w) = Cancel_committed \<longrightarrow> item_phase w i \<noteq> Queued \<and> item_phase w i \<noteq> Withdrawn)"
  using assms
proof (cases rule: cancel_cases [of w i r])
  case same
  then show ?thesis by auto
next
  case withdrawn
  show ?thesis
    unfolding withdrawn(2,3) using assms(2) by (simp add: update_item_nth)
next
  case abandoned
  then show ?thesis by auto
qed

lemma committed_phase: "committed_inv w \<Longrightarrow> i \<in> fst ` set (sw_calls w) \<Longrightarrow> item_phase w i \<in> {Sending, Sent, Failed}"
  unfolding committed_inv_def by blast

lemma framed_committed:
  assumes "frames_inv encrypt start w"
  shows "fst ` set (sw_frames w) \<subseteq> fst ` set (sw_calls w)"
proof -
  have "prefix (map fst (sw_frames w)) (map fst (sw_calls w))"
    using assms by (simp add: frames_inv_def)
  from set_mono_prefix [OF this] show ?thesis by simp
qed


section \<open>Coming to rest\<close>

text \<open>The next promise of the loop settles, in whatever way.\<close>

definition settle_next :: "aead \<Rightarrow> bytes \<times> bool \<Rightarrow> session_writer \<Rightarrow> session_writer" where
  "settle_next encrypt outcome w =
     (case sw_drain w of
        Not_draining \<Rightarrow> w
      | Await_seal \<Rightarrow> seal_settles encrypt (fst outcome) w
      | Await_send \<Rightarrow> send_settles (snd outcome) w
      | Returned \<Rightarrow> drain_finally w)"

primrec settle_run :: "aead \<Rightarrow> (nat \<Rightarrow> bytes \<times> bool) \<Rightarrow> nat \<Rightarrow> session_writer \<Rightarrow> session_writer" where
  "settle_run encrypt outcome 0 w = w"
| "settle_run encrypt outcome (Suc n) w = settle_run encrypt outcome n (settle_next encrypt (outcome n) w)"

definition waiting :: "session_writer \<Rightarrow> nat" where
  "waiting w = length (sw_control w) + length (sw_data w)"

definition remaining :: "session_writer \<Rightarrow> nat" where
  "remaining w = (case sw_drain w of
     Not_draining \<Rightarrow> 0
   | Await_seal \<Rightarrow> 2 * waiting w + 3
   | Await_send \<Rightarrow> 2 * waiting w + 2
   | Returned \<Rightarrow> (if waiting w = 0 then 1 else 2 * waiting w + 2))"

lemma drain_remaining:
  assumes "queue_inv w"
  shows "remaining (writer_drain w) \<le> 2 * waiting w + 1"
  using assms
proof (cases rule: drain_cases)
  case returned
  then show ?thesis by (simp add: remaining_def waiting_def)
next
  case (takes i)
  have "Suc (length (filter (\<lambda>j. j \<noteq> i) (sw_control w)) + length (filter (\<lambda>j. j \<noteq> i) (sw_data w))) = waiting w"
    using arg_cong [OF takes(5), of length] by (simp add: waiting_def)
  then show ?thesis
    unfolding takes(4) by (simp add: remaining_def waiting_def)
qed

lemma settle_next_remaining:
  assumes s: "sound encrypt start w" and n: "sw_drain w \<noteq> Not_draining"
  shows "remaining (settle_next encrypt x w) < remaining w"
proof -
  have inv: "writer_inv encrypt start w" and q: "queue_inv w" "drain_inv w"
    using s by (simp_all add: sound_def writer_inv_def)
  show ?thesis
  proof (cases "sw_drain w")
    case Await_seal
    then obtain i where a: "sw_active w = Some i"
      using active_none [OF q(2)] by (cases "sw_active w") auto
    from Await_seal a show ?thesis
    proof (cases rule: seal_settles_cases [of w i encrypt "fst x"])
      case (fails r)
      with Await_seal fail_queues(3,4) [OF q(1), of r] show ?thesis
        by (simp add: settle_next_def remaining_def waiting_def end_iteration_def sealed_call_def retire_commutes)
    next
      case (sends frame)
      with Await_seal show ?thesis
        by (simp add: settle_next_def remaining_def waiting_def sealed_call_def)
    qed
  next
    case Await_send
    then obtain i where a: "sw_active w = Some i"
      using active_none [OF q(2)] by (cases "sw_active w") auto
    from Await_send a show ?thesis
    proof (cases rule: send_settles_cases [of w i "snd x"])
      case (fails r)
      with Await_send fail_queues(3,4) [OF q(1), of r] show ?thesis
        by (simp add: settle_next_def remaining_def waiting_def end_iteration_def)
    next
      case sent
      define v where "v = end_iteration (update_item i (\<lambda>x. x\<lparr>oi_phase := Sent, oi_completion := settle Resolved (oi_completion x)\<rparr>) w)"
      have "queue_inv v"
        using sent_at_head [OF inv Await_send a sent(2)] by (simp add: at_head_def v_def)
      from drain_remaining [OF this] have "remaining (writer_drain v) \<le> 2 * waiting w + 1"
        by (simp add: v_def end_iteration_def waiting_def)
      with Await_send sent(3) show ?thesis
        by (simp add: settle_next_def remaining_def v_def)
    qed
  next
    case Returned
    let ?w = "w\<lparr>sw_running := False, sw_drain := Not_draining\<rparr>"
    show ?thesis
    proof (cases "waiting w = 0")
      case True
      with Returned show ?thesis
        by (simp add: settle_next_def remaining_def drain_finally_def waiting_def)
    next
      case False
      have "queue_inv (?w\<lparr>sw_running := True\<rparr>)"
        using q(1) by (simp add: queue_inv_def)
      from drain_remaining [OF this] have "remaining (writer_run ?w) \<le> 2 * waiting w + 1"
        by (simp add: writer_run_def waiting_def)
      with False Returned show ?thesis
        by (auto simp add: settle_next_def remaining_def drain_finally_def waiting_def)
    qed
  qed (use n in simp)
qed

lemma settle_next_sound: "sound encrypt start w \<Longrightarrow> sound encrypt start (settle_next encrypt x w)"
  using settles_sound finally_sound by (simp add: settle_next_def split: drain_point.split)

lemma settle_run_rests:
  "sound encrypt start w \<Longrightarrow> remaining w \<le> n \<Longrightarrow>
   sound encrypt start (settle_run encrypt f n w) \<and> sw_drain (settle_run encrypt f n w) = Not_draining"
proof (induction n arbitrary: w)
  case 0
  then show ?case by (auto simp add: remaining_def split: drain_point.splits if_splits)
next
  case (Suc n)
  show ?case
  proof (cases "sw_drain w = Not_draining")
    case True
    then have "settle_next encrypt (f n) w = w" "remaining w = 0"
      by (simp_all add: settle_next_def remaining_def)
    with Suc show ?thesis by simp
  next
    case False
    with Suc settle_next_remaining [OF Suc.prems(1) False, of "f n"] settle_next_sound [OF Suc.prems(1), of "f n"] show ?thesis
      by simp
  qed
qed

text \<open>
  C12. The loop of a writer always ends. From every reachable state, once each of the promises it awaits has settled, in
  whatever way, the writer comes to rest after at most two settlements per queued message and three more: its queues are
  empty, nothing is in flight, and the promise of every message ever enqueued has settled.
\<close>

theorem writer_comes_to_rest:
  fixes outcome :: "nat \<Rightarrow> bytes \<times> bool"
  assumes "2 * waiting (writer_runs encrypt start es) + 3 \<le> n"
  defines "v \<equiv> settle_run encrypt outcome n (writer_runs encrypt start es)"
  shows "sw_drain v = Not_draining \<and> sw_control v = [] \<and> sw_data v = [] \<and> sw_active v = None \<and>
    (\<forall>x \<in> set (sw_items v). oi_completion x \<noteq> Pending)"
proof -
  have "remaining (writer_runs encrypt start es) \<le> n"
    using assms(1) by (auto simp add: remaining_def split: drain_point.splits)
  from settle_run_rests [OF runs_sound this, of outcome] have v: "sound encrypt start v" "sw_drain v = Not_draining"
    by (simp_all add: v_def)
  have inv: "queue_inv v" "drain_inv v" "promise_inv v" "idle_inv v"
    using v(1) by (simp_all add: sound_def writer_inv_def)
  have e: "sw_control v = []" "sw_data v = []"
    using inv(4) v(2) by (simp_all add: idle_inv_def)
  have a: "sw_active v = None"
    using active_phase [OF inv(2)] v(2) by (cases "sw_active v") auto
  have "oi_completion (sw_items v ! i) \<noteq> Pending" if "i < length (sw_items v)" for i
  proof -
    have "item_phase v i \<noteq> Queued"
      using queue_members [OF inv(1), of i] e that by auto
    moreover have "item_phase v i \<noteq> Sealing \<and> item_phase v i \<noteq> Sending"
      using busy_active [OF inv(2) that] a by auto
    moreover have "item_ok (fst ` set (sw_frames v)) i (sw_items v ! i)"
      using inv(3) that by (simp add: promise_inv_def)
    ultimately show ?thesis by (auto simp add: item_ok_def)
  qed
  then show ?thesis
    using v(2) e a by (auto simp add: in_set_conv_nth)
qed


section \<open>A sample run\<close>

definition sample_request :: session_message where
  "sample_request = \<lparr>sm_kind = List_children, sm_operationId = None, sm_body = [5], sm_plaintext = [5], sm_data = False\<rparr>"

definition sample_events :: "writer_event list" where
  "sample_events = [Enqueue sample_request Priority_control, Enqueue sample_request Priority_control, Seal_settles (replicate 12 4)]"

lemma sample_run:
  "sw_calls (writer_runs sample_encrypt sample_end sample_events) = [(0, replicate 12 4, [5])]"
  "length (sw_items (writer_runs sample_encrypt sample_end sample_events)) = 2"
  "item_phase (writer_runs sample_encrypt sample_end sample_events) 1 = Queued"
  "waiting (writer_runs sample_encrypt sample_end sample_events) = 1"
  "plaintext_of (writer_runs sample_encrypt sample_end sample_events) 0 = [5]"
  by (simp_all add: writer_runs_def sample_events_def new_writer_def writer_enqueue_def pushed_def writer_run_def writer_drain_def
      update_item_def seal_settles_def sample_seal SESSION_CONTROL_QUEUE_def sample_request_def waiting_def Let_def)

theorem writer_delivers_in_order_witness:
  "prefix (map oe_plaintext (open_run sample_decrypt sample_end [sample_frame, sample_frame])) [[5]]"
proof -
  have "(sample_end, map snd (sw_calls (writer_runs sample_encrypt sample_end sample_events))) \<in> {(sample_end, sample_calls)}"
    by (simp add: sample_run sample_calls_def)
  from writer_delivers_in_order [OF sample_authentic sample_lane sample_new this, of "[sample_frame, sample_frame]"] show ?thesis
    by (elim conjE) (simp only: sample_run list.map fst_conv)
qed


theorem writer_comes_to_rest_witness:
  "sw_drain (settle_run sample_encrypt (\<lambda>n. (replicate 12 4, True)) 5 (writer_runs sample_encrypt sample_end sample_events)) = Not_draining"
  using writer_comes_to_rest [of sample_encrypt sample_end sample_events 5 "\<lambda>n. (replicate 12 4, True)"] by (simp add: sample_run(4))

end
