(* ===== verification/Operation_Continuation.thy ===== *)
theory Operation_Continuation
  imports Session_Message Canonical_Records
begin

text \<open>
The identities of operations and the authority that decides which of its answers an operation accepts:
  \<^verbatim>\<open>web/src/session/operations/issued-operations.ts\<close>, \<^verbatim>\<open>operation-error-contract.ts\<close> and
  \<^verbatim>\<open>operation-continuation.ts\<close>. SHA-256, the CBOR package and the random source are parameters. The two halves of an
  asynchronous call, before and after its digest, are separate definitions, so that theory \<open>Operation_Router\<close> can put the
  events of a session between them. The lemmas show that issued identities are unique and recognised.
\<close>

section \<open>Operation identities\<close>

text \<open>What the operation layer throws: a \<^verbatim>\<open>SessionRuntimeError\<close> of one of its scopes, the \<^verbatim>\<open>RangeError\<close> of a
  helper, or an error of a message codec.\<close>

datatype runtime_error = RT_lane | RT_operation | RT_session | RT_range | RT_message

definition PREFIX_BYTES :: nat where "PREFIX_BYTES = 8"
definition ID_BYTES :: nat where "ID_BYTES = 16"
definition KIND_SHIFT :: nat where "KIND_SHIFT = 56"
definition ISSUED_MAXIMUM_SEQUENCE :: nat where "ISSUED_MAXIMUM_SEQUENCE = push_bit KIND_SHIFT 1 - 1"
definition PREFIX_ATTEMPTS :: nat where "PREFIX_ATTEMPTS = 4"
definition REQUEST_KINDS :: "message_kind list" where
  "REQUEST_KINDS = [List_children, Open_revisions, Renew_lease, Release_lease, Request_blocks, Lane_attach, Peer_offer]"

record issued_operations =
  io_issued :: "message_kind \<rightharpoonup> nat"
  io_prefix :: "bytes option"

definition new_issued :: issued_operations where
  "new_issued = \<lparr>io_issued = Map.empty, io_prefix = None\<rparr>"

text \<open>\<open>draw n\<close> is what the random source returns in its call number \<open>n\<close> of one \<^verbatim>\<open>#newPrefix\<close>.\<close>

fun prefix_loop :: "(nat \<Rightarrow> bytes) \<Rightarrow> nat \<Rightarrow> nat \<Rightarrow> runtime_error + bytes" where
  "prefix_loop draw attempt 0 = Inl RT_session"
| "prefix_loop draw attempt (Suc left) =
     (if length (draw attempt) = PREFIX_BYTES \<and> nonzero (draw attempt) then Inr (draw attempt)
      else prefix_loop draw (Suc attempt) left)"

definition newPrefix :: "(nat \<Rightarrow> bytes) \<Rightarrow> runtime_error + bytes" where
  "newPrefix draw = prefix_loop draw 0 PREFIX_ATTEMPTS"

definition operation_id :: "bytes \<Rightarrow> message_kind \<Rightarrow> nat \<Rightarrow> bytes" where
  "operation_id pre kind sequence =
     set_at PREFIX_BYTES (be_bytes 8 (push_bit KIND_SHIFT (MESSAGE_KIND kind) OR sequence))
       (set_at 0 pre (replicate ID_BYTES 0))"

definition issue :: "(nat \<Rightarrow> bytes) \<Rightarrow> message_kind \<Rightarrow> issued_operations \<Rightarrow> runtime_error + bytes \<times> issued_operations" where
  "issue draw kind s =
     (if kind \<notin> set REQUEST_KINDS then Inl RT_operation
      else let sequence = (case io_issued s kind of None \<Rightarrow> 0 | Some n \<Rightarrow> n) + 1 in
      if sequence > ISSUED_MAXIMUM_SEQUENCE then Inl RT_session
      else bindE (case io_prefix s of Some p \<Rightarrow> Inr p | None \<Rightarrow> newPrefix draw) (\<lambda>pre.
      Inr (operation_id pre kind sequence,
           s\<lparr>io_prefix := Some pre, io_issued := (io_issued s)(kind \<mapsto> sequence)\<rparr>)))"

definition requestKind :: "bytes \<Rightarrow> issued_operations \<Rightarrow> message_kind option" where
  "requestKind oid s =
     (case io_prefix s of
        None \<Rightarrow> None
      | Some pre \<Rightarrow>
          if length oid \<noteq> ID_BYTES \<or> \<not> equalBytes (subarray 0 PREFIX_BYTES oid) pre then None
          else let encoded = get_uint 8 PREFIX_BYTES oid;
                   sequence = encoded AND ISSUED_MAXIMUM_SEQUENCE in
            (case kind_of (int (drop_bit KIND_SHIFT encoded)) of
               None \<Rightarrow> None
             | Some kind \<Rightarrow> (case io_issued s kind of
                 None \<Rightarrow> None
               | Some n \<Rightarrow> if sequence > 0 \<and> sequence \<le> n then Some kind else None)))"

section \<open>Which messages answer which requests\<close>

definition operationErrorScopesForRequest :: "message_kind \<Rightarrow> error_scope list" where
  "operationErrorScopesForRequest request =
     (case request of
        List_children \<Rightarrow> [Scope_directory]
      | Open_revisions \<Rightarrow> [Scope_revision]
      | Renew_lease \<Rightarrow> [Scope_revision]
      | Release_lease \<Rightarrow> [Scope_revision]
      | Request_blocks \<Rightarrow> [Scope_block, Scope_revision]
      | Peer_offer \<Rightarrow> [Scope_peer]
      | _ \<Rightarrow> [])"

definition operationErrorScopeAllowed :: "message_kind \<Rightarrow> error_scope \<Rightarrow> bool" where
  "operationErrorScopeAllowed request scope \<longleftrightarrow> scope \<in> set (operationErrorScopesForRequest request)"

definition isResponseAllowed :: "message_kind \<Rightarrow> message_kind \<Rightarrow> bool" where
  "isResponseAllowed request response =
     (if response = Operation_error then True
      else case request of
        List_children \<Rightarrow> response = Scan_progress \<or> response = Catalog_result
      | Open_revisions \<Rightarrow> response = Open_results
      | Renew_lease \<Rightarrow> response = Lease_result
      | Release_lease \<Rightarrow> response = Operation_complete
      | Request_blocks \<Rightarrow> response = Block_fragment \<or> response = Operation_complete
      | Lane_attach \<Rightarrow> response = Lane_attach
      | Peer_offer \<Rightarrow> response = Peer_answer \<or> response = Peer_candidate
      | _ \<Rightarrow> False)"

definition requireOperationResponse :: "cbor_runtime \<Rightarrow> message_kind \<Rightarrow> session_message \<Rightarrow> runtime_error + unit" where
  "requireOperationResponse rt request m =
     (if \<not> isResponseAllowed request (sm_kind m) then Inl RT_session
      else if sm_kind m \<noteq> Operation_error then Inr ()
      else case decodeOperationErrorControl rt (sm_body m) of
        Inl _ \<Rightarrow> Inl RT_session
      | Inr e \<Rightarrow> if operationErrorScopeAllowed request (oc_scope e) then Inr () else Inl RT_session)"

definition isFinalResponse :: "message_kind \<Rightarrow> bool" where
  "isFinalResponse kind \<longleftrightarrow> kind = Catalog_result \<or> kind = Open_results \<or> kind = Cancel \<or> kind = Operation_error \<or>
     kind = Operation_complete \<or> kind = Lease_result \<or> kind = Lane_attach"

datatype replay_slot = Slot_final | Slot_peer_answer

definition replaySlot :: "message_kind \<Rightarrow> replay_slot option" where
  "replaySlot kind =
     (if isFinalResponse kind then Some Slot_final else if kind = Peer_answer then Some Slot_peer_answer else None)"

definition messageFingerprint :: "(bytes \<Rightarrow> bytes) \<Rightarrow> session_message \<Rightarrow> string" where
  "messageFingerprint sha m =
     encodeBase64Url (sha (concatBytes
       [[of_nat (MESSAGE_KIND (sm_kind m))],
        case sm_operationId m of None \<Rightarrow> replicate ID_BYTES 0 | Some oid \<Rightarrow> oid, sm_body m]))"

section \<open>Peer bindings\<close>

definition MAXIMUM_PEER_CANDIDATES :: nat where "MAXIMUM_PEER_CANDIDATES = 64"
definition CONTINUATION_SCHEMA_VERSION :: int where "CONTINUATION_SCHEMA_VERSION = 4"
definition PEER_IDENTITY_BYTES :: nat where "PEER_IDENTITY_BYTES = 16"
definition MAXIMUM_OPERATION_BODY_BYTES :: nat where "MAXIMUM_OPERATION_BODY_BYTES = 65536 - 44"

record peer_binding =
  pb_purpose :: int
  pb_peerSlot :: int
  pb_peerPathId :: bytes
  pb_attemptId :: bytes
  pb_attemptSequence :: int

definition decodePeerBinding :: "cbor_runtime \<Rightarrow> bytes \<Rightarrow> nat \<Rightarrow> message_error + peer_binding" where
  "decodePeerBinding rt body len =
     bindE (decode_body rt body (int MAXIMUM_OPERATION_BODY_BYTES)) (\<lambda>decoded.
     bindE (array_of decoded len) (\<lambda>fs.
     if length fs \<noteq> len then Inl PlainError
     else bindE (unsigned_field (item_at fs 0)) (\<lambda>schema.
     if schema \<noteq> CONTINUATION_SCHEMA_VERSION then Inl PlainError
     else bindE (unsigned_field (item_at fs 5)) (\<lambda>purpose.
     if purpose > 2 then Inl PlainError
     else bindE (unsigned_field (item_at fs 3)) (\<lambda>sequence.
     if sequence = 0 \<or> sequence > 0xffffffffffffffff then Inl PlainError
     else bindE (unsigned_field (item_at fs 4)) (\<lambda>rawSlot.
     bindE (requirePeerSlot rawSlot) (\<lambda>slot.
     bindE (byte_field (item_at fs 1) (Some PEER_IDENTITY_BYTES) True) (\<lambda>path.
     bindE (byte_field (item_at fs 2) (Some PEER_IDENTITY_BYTES) True) (\<lambda>attempt.
     Inr \<lparr>pb_purpose = purpose, pb_peerSlot = slot, pb_peerPathId = path, pb_attemptId = attempt,
          pb_attemptSequence = sequence\<rparr>)))))))))"

text \<open>\<^verbatim>\<open>RetiredPeerContinuations\<close>: one entry per slot, the bounds on its sequences and the live ones.
  A slot that \<^verbatim>\<open>admit\<close> opens and whose sequence it then refuses is like an absent one.\<close>

record retired_slot =
  rs_issuedThrough :: int
  rs_retiredThrough :: int
  rs_active :: "int list"

type_synonym retired_peers = "int \<rightharpoonup> retired_slot"

definition retired_admit :: "peer_binding option \<Rightarrow> retired_peers \<Rightarrow> runtime_error + retired_peers" where
  "retired_admit binding rp =
     (case binding of
        None \<Rightarrow> Inr rp
      | Some b \<Rightarrow>
          (case requirePeerSlot (pb_peerSlot b) of
             Inl _ \<Rightarrow> Inl RT_range
           | Inr key \<Rightarrow>
               let slot = (case rp key of Some s \<Rightarrow> s
                           | None \<Rightarrow> \<lparr>rs_issuedThrough = 0, rs_retiredThrough = 0, rs_active = []\<rparr>) in
               if pb_attemptSequence b \<le> rs_issuedThrough slot then Inl RT_operation
               else Inr (rp(key \<mapsto> slot\<lparr>rs_issuedThrough := pb_attemptSequence b,
                                       rs_active := pb_attemptSequence b # rs_active slot\<rparr>))))"

definition retired_retire :: "peer_binding option \<Rightarrow> retired_peers \<Rightarrow> retired_peers" where
  "retired_retire binding rp =
     (case binding of
        None \<Rightarrow> rp
      | Some b \<Rightarrow>
          (case rp (pb_peerSlot b) of
             None \<Rightarrow> rp
           | Some slot \<Rightarrow>
               if pb_attemptSequence b \<notin> set (rs_active slot) then rp
               else rp(pb_peerSlot b \<mapsto> slot\<lparr>rs_active := removeAll (pb_attemptSequence b) (rs_active slot),
                      rs_retiredThrough := (if pb_attemptSequence b > rs_retiredThrough slot
                                            then pb_attemptSequence b else rs_retiredThrough slot)\<rparr>)))"

text \<open>Whatever a decoder throws, \<^verbatim>\<open>drops\<close> answers \<^verbatim>\<open>false\<close>.\<close>

definition retired_drops :: "cbor_runtime \<Rightarrow> session_message \<Rightarrow> retired_peers \<Rightarrow> bool" where
  "retired_drops rt m rp =
     (if sm_kind m \<noteq> Peer_answer \<and> sm_kind m \<noteq> Peer_candidate \<and> sm_kind m \<noteq> Operation_error then False
      else case (if sm_kind m = Operation_error
                 then bindE (decodeOperationErrorControl rt (sm_body m)) (\<lambda>e.
                   Inr (case oc_peerAttempt e of None \<Rightarrow> None
                        | Some a \<Rightarrow> Some (pa_peerSlot a, pa_attemptSequence a)))
                 else bindE (decodePeerBinding rt (sm_body m) (if sm_kind m = Peer_answer then 7 else 10)) (\<lambda>b.
                   Inr (Some (pb_peerSlot b, pb_attemptSequence b)))) of
        Inl _ \<Rightarrow> False
      | Inr None \<Rightarrow> False
      | Inr (Some (key, sequence)) \<Rightarrow>
          (case rp key of
             None \<Rightarrow> False
           | Some slot \<Rightarrow> sequence \<le> rs_retiredThrough slot \<and> sequence \<notin> set (rs_active slot)))"

section \<open>Continuation authority\<close>

datatype continuation_state = CS_active | CS_closed | CS_local_cancel | CS_remote_final

record authority =
  oa_requestKind :: message_kind
  oa_peerBinding :: "peer_binding option"
  oa_fingerprints :: "replay_slot \<rightharpoonup> string"
  oa_candidates :: "string list"
  oa_overflow :: "string option"
  oa_state :: continuation_state

definition new_authority :: "cbor_runtime \<Rightarrow> message_kind \<Rightarrow> bytes \<Rightarrow> runtime_error + authority" where
  "new_authority rt kind body =
     bindE (if kind = Peer_offer
            then (case decodePeerBinding rt body 7 of Inl _ \<Rightarrow> Inl RT_operation | Inr b \<Rightarrow> Inr (Some b))
            else Inr None) (\<lambda>binding.
     Inr \<lparr>oa_requestKind = kind, oa_peerBinding = binding, oa_fingerprints = Map.empty, oa_candidates = [],
          oa_overflow = None, oa_state = CS_active\<rparr>)"

definition clearCandidateReplayState :: "authority \<Rightarrow> authority" where
  "clearCandidateReplayState a = a\<lparr>oa_candidates := [], oa_overflow := None\<rparr>"

definition authority_retire :: "continuation_state \<Rightarrow> authority \<Rightarrow> authority" where
  "authority_retire reason a =
     (if oa_state a \<noteq> CS_active then a else clearCandidateReplayState (a\<lparr>oa_state := reason\<rparr>))"

definition authority_close :: "authority \<Rightarrow> authority" where
  "authority_close a = (clearCandidateReplayState (a\<lparr>oa_state := CS_closed\<rparr>))\<lparr>oa_fingerprints := Map.empty\<rparr>"

text \<open>The comparison of a message with the offer that its operation began with.\<close>

definition same_attempt :: "int \<Rightarrow> int \<Rightarrow> bytes \<Rightarrow> bytes \<Rightarrow> peer_binding \<Rightarrow> bool" where
  "same_attempt slot sequence path attempt b \<longleftrightarrow>
     slot = pb_peerSlot b \<and> sequence = pb_attemptSequence b \<and> equalBytes path (pb_peerPathId b) \<and>
     equalBytes attempt (pb_attemptId b)"

definition validateContinuation :: "cbor_runtime \<Rightarrow> authority \<Rightarrow> session_message \<Rightarrow> runtime_error + unit" where
  "validateContinuation rt a m =
     (if sm_kind m = Operation_error
      then (case decodeOperationErrorControl rt (sm_body m) of
              Inl _ \<Rightarrow> Inl RT_session
            | Inr failure \<Rightarrow>
                (case oa_peerBinding a of
                   None \<Rightarrow> Inr ()
                 | Some expected \<Rightarrow>
                     (case oc_peerAttempt failure of
                        None \<Rightarrow> Inl RT_session
                      | Some p \<Rightarrow>
                          if same_attempt (pa_peerSlot p) (pa_attemptSequence p) (pa_peerPathId p) (pa_attemptId p) expected
                          then Inr () else Inl RT_session)))
      else case oa_peerBinding a of
        None \<Rightarrow> Inr ()
      | Some expected \<Rightarrow>
          (case decodePeerBinding rt (sm_body m) (if sm_kind m = Peer_answer then 7 else 10) of
             Inl _ \<Rightarrow> Inl RT_session
           | Inr actual \<Rightarrow>
               if pb_purpose actual = pb_purpose expected \<and>
                  same_attempt (pb_peerSlot actual) (pb_attemptSequence actual) (pb_peerPathId actual) (pb_attemptId actual)
                    expected
               then Inr () else Inl RT_session))"

text \<open>
  A call of \<^verbatim>\<open>reserve\<close> or \<^verbatim>\<open>acceptLate\<close> runs without interruption up to the digest of its message and, once
  the digest is there, from there to its end; in between \<^verbatim>\<open>retire\<close> and \<^verbatim>\<open>close\<close> may happen. \<open>Hashing\<close> is what
  the call awaits the digest for. A reservation to deliver holds what \<^verbatim>\<open>rollback\<close> takes back.
\<close>

datatype rollback_effect = Undo_nothing | Undo_candidate string | Undo_overflow string | Undo_slot replay_slot string

datatype reservation = Drop | Deliver bool rollback_effect

datatype digest_use = Hash_candidate | Hash_replay replay_slot | Hash_late replay_slot bool

datatype 'r progress = Finished "runtime_error + 'r" | Hashing digest_use

datatype late_route = Late_ignore | Late_violation | Late_compare replay_slot bool

definition acceptLateValidated :: "authority \<Rightarrow> session_message \<Rightarrow> late_route" where
  "acceptLateValidated a m =
     (if oa_state a = CS_closed then Late_ignore
      else if sm_kind m = Peer_candidate \<and> oa_peerBinding a \<noteq> None then Late_ignore
      else if oa_state a = CS_local_cancel
      then (case replaySlot (sm_kind m) of None \<Rightarrow> Late_ignore | Some slot \<Rightarrow> Late_compare slot True)
      else if oa_state a = CS_remote_final \<and> sm_kind m = Peer_answer \<and> oa_peerBinding a \<noteq> None
      then Late_compare Slot_peer_answer True
      else if sm_kind m = Block_fragment then Late_ignore
      else case replaySlot (sm_kind m) of None \<Rightarrow> Late_violation | Some slot \<Rightarrow> Late_compare slot False)"

text \<open>\<^verbatim>\<open>#acceptFingerprint\<close> once the digest is known.\<close>

definition acceptFingerprint :: "replay_slot \<Rightarrow> bool \<Rightarrow> string \<Rightarrow> authority \<Rightarrow> runtime_error + authority" where
  "acceptFingerprint slot allowFirst fingerprint a =
     (if oa_state a = CS_closed then Inr a
      else case oa_fingerprints a slot of
        None \<Rightarrow> if allowFirst then Inr (a\<lparr>oa_fingerprints := (oa_fingerprints a)(slot \<mapsto> fingerprint)\<rparr>) else Inl RT_session
      | Some existing \<Rightarrow> if existing \<noteq> fingerprint then Inl RT_session else Inr a)"

definition accept_late :: "cbor_runtime \<Rightarrow> authority \<Rightarrow> session_message \<Rightarrow> unit progress" where
  "accept_late rt a m =
     (if oa_state a = CS_closed then Finished (Inr ())
      else case bindE (requireOperationResponse rt (oa_requestKind a) m) (\<lambda>_. validateContinuation rt a m) of
        Inl e \<Rightarrow> Finished (Inl e)
      | Inr _ \<Rightarrow> (case acceptLateValidated a m of
            Late_ignore \<Rightarrow> Finished (Inr ())
          | Late_violation \<Rightarrow> Finished (Inl RT_session)
          | Late_compare slot allowFirst \<Rightarrow> Hashing (Hash_late slot allowFirst)))"

definition reserve :: "cbor_runtime \<Rightarrow> authority \<Rightarrow> session_message \<Rightarrow> reservation progress" where
  "reserve rt a m =
     (if oa_state a = CS_closed then Finished (Inr Drop)
      else case bindE (requireOperationResponse rt (oa_requestKind a) m) (\<lambda>_. validateContinuation rt a m) of
        Inl e \<Rightarrow> Finished (Inl e)
      | Inr _ \<Rightarrow>
          if oa_state a \<noteq> CS_active
          then (case acceptLateValidated a m of
                  Late_ignore \<Rightarrow> Finished (Inr Drop)
                | Late_violation \<Rightarrow> Finished (Inl RT_session)
                | Late_compare slot allowFirst \<Rightarrow> Hashing (Hash_late slot allowFirst))
          else if sm_kind m = Peer_candidate
          then (if oa_overflow a \<noteq> None then Finished (Inr Drop) else Hashing Hash_candidate)
          else case replaySlot (sm_kind m) of
            None \<Rightarrow> Finished (Inr (Deliver False Undo_nothing))
          | Some slot \<Rightarrow> Hashing (Hash_replay slot))"

text \<open>The rest of \<^verbatim>\<open>#reserveCandidate\<close>, of \<^verbatim>\<open>#reserveReplaySlot\<close> and of the late path, with the digest.\<close>

definition late_with_digest :: "replay_slot \<Rightarrow> bool \<Rightarrow> string \<Rightarrow> authority \<Rightarrow> (runtime_error + reservation) \<times> authority" where
  "late_with_digest slot allowFirst fingerprint a =
     (case acceptFingerprint slot allowFirst fingerprint a of Inl e \<Rightarrow> (Inl e, a) | Inr a' \<Rightarrow> (Inr Drop, a'))"

definition reserveCandidate :: "string \<Rightarrow> authority \<Rightarrow> (runtime_error + reservation) \<times> authority" where
  "reserveCandidate fingerprint a =
     (if oa_state a \<noteq> CS_active then (Inr Drop, a)
      else if fingerprint \<in> set (oa_candidates a) then (Inr Drop, a)
      else if length (oa_candidates a) < MAXIMUM_PEER_CANDIDATES
      then (Inr (Deliver False (Undo_candidate fingerprint)), a\<lparr>oa_candidates := oa_candidates a @ [fingerprint]\<rparr>)
      else (Inr (Deliver False (Undo_overflow fingerprint)), a\<lparr>oa_overflow := Some fingerprint\<rparr>))"

definition reserveReplaySlot ::
  "replay_slot \<Rightarrow> string \<Rightarrow> session_message \<Rightarrow> authority \<Rightarrow> (runtime_error + reservation) \<times> authority" where
  "reserveReplaySlot slot fingerprint m a =
     (if oa_state a \<noteq> CS_active
      then (case acceptLateValidated a m of
              Late_ignore \<Rightarrow> (Inr Drop, a)
            | Late_violation \<Rightarrow> (Inl RT_session, a)
            | Late_compare s allowFirst \<Rightarrow> late_with_digest s allowFirst fingerprint a)
      else case oa_fingerprints a slot of
        Some existing \<Rightarrow> (if existing = fingerprint then Inr Drop else Inl RT_session, a)
      | None \<Rightarrow> (Inr (Deliver (isFinalResponse (sm_kind m)) (Undo_slot slot fingerprint)),
                 a\<lparr>oa_fingerprints := (oa_fingerprints a)(slot \<mapsto> fingerprint)\<rparr>))"

definition with_digest ::
  "digest_use \<Rightarrow> string \<Rightarrow> session_message \<Rightarrow> authority \<Rightarrow> (runtime_error + reservation) \<times> authority" where
  "with_digest use fingerprint m a =
     (case use of
        Hash_candidate \<Rightarrow> reserveCandidate fingerprint a
      | Hash_replay slot \<Rightarrow> reserveReplaySlot slot fingerprint m a
      | Hash_late slot allowFirst \<Rightarrow> late_with_digest slot allowFirst fingerprint a)"

definition authority_rollback :: "rollback_effect \<Rightarrow> authority \<Rightarrow> authority" where
  "authority_rollback effect a =
     (case effect of
        Undo_nothing \<Rightarrow> a
      | Undo_candidate fp \<Rightarrow> a\<lparr>oa_candidates := removeAll fp (oa_candidates a)\<rparr>
      | Undo_overflow fp \<Rightarrow> if oa_overflow a = Some fp then a\<lparr>oa_overflow := None\<rparr> else a
      | Undo_slot slot fp \<Rightarrow>
          if oa_fingerprints a slot = Some fp then a\<lparr>oa_fingerprints := (oa_fingerprints a)(slot := None)\<rparr> else a)"

section \<open>Identities are issued once\<close>

lemma issued_maximum: "ISSUED_MAXIMUM_SEQUENCE = mask 56"
  by (simp add: ISSUED_MAXIMUM_SEQUENCE_def KIND_SHIFT_def mask_eq_exp_minus_1 push_bit_eq_mult)

definition coded :: "message_kind \<Rightarrow> nat \<Rightarrow> nat" where
  "coded kind n = (push_bit KIND_SHIFT (MESSAGE_KIND kind) OR n)"

lemma coded_parts:
  assumes "n \<le> ISSUED_MAXIMUM_SEQUENCE"
  shows "drop_bit KIND_SHIFT (coded kind n) = MESSAGE_KIND kind" "coded kind n AND ISSUED_MAXIMUM_SEQUENCE = n"
    "coded kind n < 256 ^ 8"
proof -
  have n: "n < 2 ^ 56"
    using assms by (simp add: issued_maximum mask_eq_exp_minus_1)
  then have t: "take_bit 56 n = n" by (simp add: take_bit_nat_eq_self)
  moreover have "drop_bit 56 n = 0"
    using n by (simp add: drop_bit_eq_div)
  ultimately show d: "drop_bit KIND_SHIFT (coded kind n) = MESSAGE_KIND kind" and "coded kind n AND ISSUED_MAXIMUM_SEQUENCE = n"
    by (simp_all add: coded_def KIND_SHIFT_def issued_maximum drop_bit_push_bit take_bit_push_bit flip: take_bit_eq_mask)
  have "coded kind n = push_bit 56 (drop_bit 56 (coded kind n)) + take_bit 56 (coded kind n)"
    by (simp add: bits_ident)
  then have "coded kind n = 2 ^ 56 * MESSAGE_KIND kind + take_bit 56 (coded kind n)"
    using d by (simp add: KIND_SHIFT_def push_bit_eq_mult mult.commute)
  moreover have "take_bit 56 (coded kind n) < 2 ^ 56" by (rule take_bit_nat_less_exp)
  ultimately show "coded kind n < 256 ^ 8"
    using message_kind_bound(2) [of kind] by simp
qed

lemma operation_id_eq: "length pre = 8 \<Longrightarrow> operation_id pre kind n = pre @ be_bytes 8 (coded kind n)"
  by (simp add: operation_id_def set_at_def PREFIX_BYTES_def ID_BYTES_def coded_def)

text \<open>The state in which the first \<open>n\<close> identities of each kind are out.\<close>

definition issued_wf :: "issued_operations \<Rightarrow> bool" where
  "issued_wf s \<longleftrightarrow>
     (case io_prefix s of None \<Rightarrow> io_issued s = Map.empty | Some pre \<Rightarrow> length pre = PREFIX_BYTES \<and> nonzero pre) \<and>
     (\<forall>k n. io_issued s k = Some n \<longrightarrow> n \<le> ISSUED_MAXIMUM_SEQUENCE \<and> 0 < n)"

definition issued_ids :: "issued_operations \<Rightarrow> (message_kind \<times> bytes) set" where
  "issued_ids s = {(k, oid). \<exists>pre n m. io_prefix s = Some pre \<and> io_issued s k = Some m \<and> 0 < n \<and> n \<le> m \<and>
     oid = operation_id pre k n}"

lemma prefix_loop_ok: "prefix_loop draw i n = Inr pre \<Longrightarrow> length pre = PREFIX_BYTES \<and> nonzero pre"
  by (induction draw i n rule: prefix_loop.induct) (auto split: if_splits)

lemma new_issued_wf: "issued_wf new_issued" "issued_ids new_issued = {}"
  by (simp_all add: issued_wf_def new_issued_def issued_ids_def)

lemma issue_parts:
  assumes "issue draw kind s = Inr (oid, s')" "issued_wf s"
  obtains pre n where "io_prefix s' = Some pre" "length pre = PREFIX_BYTES" "nonzero pre"
    "io_prefix s = None \<and> io_issued s = Map.empty \<or> io_prefix s = Some pre"
    "n = (case io_issued s kind of None \<Rightarrow> 0 | Some n \<Rightarrow> n) + 1" "n \<le> ISSUED_MAXIMUM_SEQUENCE"
    "io_issued s' = (io_issued s)(kind \<mapsto> n)" "oid = operation_id pre kind n" "kind \<in> set REQUEST_KINDS"
proof -
  define n where "n = (case io_issued s kind of None \<Rightarrow> 0 | Some n \<Rightarrow> n) + 1"
  obtain pre where p: "(case io_prefix s of Some p \<Rightarrow> Inr p | None \<Rightarrow> newPrefix draw) = Inr pre"
    "n \<le> ISSUED_MAXIMUM_SEQUENCE" "oid = operation_id pre kind n"
    "s' = s\<lparr>io_prefix := Some pre, io_issued := (io_issued s)(kind \<mapsto> n)\<rparr>" "kind \<in> set REQUEST_KINDS"
    using assms(1) by (auto simp add: issue_def Let_def bindE_eq_Inr n_def split: if_splits)
  have "length pre = PREFIX_BYTES \<and> nonzero pre"
    using p(1) assms(2) by (auto simp add: issued_wf_def newPrefix_def prefix_loop_ok split: option.splits)
  moreover have "io_prefix s = None \<and> io_issued s = Map.empty \<or> io_prefix s = Some pre"
    using p(1) assms(2) by (auto simp add: issued_wf_def split: option.splits)
  ultimately show ?thesis
    using p(2-5) by (intro that [of pre n]) (simp_all add: n_def)
qed

lemma operation_id_inj:
  assumes "operation_id pre k n = operation_id pre' k' n'" "length pre = PREFIX_BYTES" "length pre' = PREFIX_BYTES"
    and "n \<le> ISSUED_MAXIMUM_SEQUENCE" "n' \<le> ISSUED_MAXIMUM_SEQUENCE"
  shows "pre = pre' \<and> k = k' \<and> n = n'"
proof -
  have p: "pre = pre'" and b: "be_bytes 8 (coded k n) = be_bytes 8 (coded k' n')"
    using assms(1-3) by (simp_all add: operation_id_eq PREFIX_BYTES_def)
  have c: "coded k n = coded k' n'"
    by (rule be_bytes_inj [OF coded_parts(3) [OF assms(4)] coded_parts(3) [OF assms(5)] b])
  have "MESSAGE_KIND k = MESSAGE_KIND k'" "n = n'"
    using coded_parts(1,2) [OF assms(4), of k] coded_parts(1,2) [OF assms(5), of k'] c by simp_all
  with p message_kind_inj show ?thesis by blast
qed

lemma kind_of_number: "kind_of (int (MESSAGE_KIND k)) = Some k"
  by (cases k) (simp_all add: kind_of_def message_kinds_def)

lemma requestKind_iff:
  assumes "issued_wf s"
  shows "requestKind oid s = Some k \<longleftrightarrow> (k, oid) \<in> issued_ids s"
proof
  assume k: "requestKind oid s = Some k"
  then obtain pre m where p: "io_prefix s = Some pre" "length oid = ID_BYTES" "subarray 0 PREFIX_BYTES oid = pre"
    "kind_of (int (drop_bit KIND_SHIFT (get_uint 8 PREFIX_BYTES oid))) = Some k" "io_issued s k = Some m"
    "0 < (get_uint 8 PREFIX_BYTES oid AND ISSUED_MAXIMUM_SEQUENCE)" "(get_uint 8 PREFIX_BYTES oid AND ISSUED_MAXIMUM_SEQUENCE) \<le> m"
    by (auto simp add: requestKind_def Let_def split: option.splits if_splits)
  define e where "e = get_uint 8 PREFIX_BYTES oid"
  define n where "n = (e AND ISSUED_MAXIMUM_SEQUENCE)"
  have "int (MESSAGE_KIND k) = int (drop_bit KIND_SHIFT e)"
    using p(4) by (auto simp add: kind_of_def e_def find_Some_iff)
  then have d: "drop_bit 56 e = MESSAGE_KIND k" by (simp add: KIND_SHIFT_def)
  have t: "take_bit 56 e = n"
    by (simp add: n_def issued_maximum take_bit_eq_mask)
  have m: "n \<le> ISSUED_MAXIMUM_SEQUENCE"
    using take_bit_nat_less_exp [of 56 e] t by (simp add: issued_maximum mask_eq_exp_minus_1)
  have "drop_bit 56 (coded k n) = MESSAGE_KIND k" "take_bit 56 (coded k n) = n"
    using coded_parts(1,2) [OF m, of k] by (simp_all add: KIND_SHIFT_def issued_maximum take_bit_eq_mask)
  then have "e = coded k n"
    using bits_ident [of 56 e] bits_ident [of 56 "coded k n"] d t by simp
  then have "be_bytes 8 (coded k n) = subarray 8 16 oid"
    using be_bytes_get_uint [of 8 8 oid] p(2) by (simp add: e_def PREFIX_BYTES_def ID_BYTES_def)
  moreover have "subarray 0 8 oid @ subarray 8 16 oid = oid"
    using subarray_join [of 0 8 16 oid] subarray_all [of oid 16] p(2) by (simp add: ID_BYTES_def)
  moreover have "subarray 0 8 oid = pre" "length pre = 8"
    using p(2,3) by (auto simp add: PREFIX_BYTES_def ID_BYTES_def)
  ultimately have "oid = operation_id pre k n"
    using operation_id_eq [of pre k n] by simp
  moreover have "0 < n" "n \<le> m"
    using p(6,7) by (simp_all add: n_def e_def)
  ultimately show "(k, oid) \<in> issued_ids s"
    using p(1,5) unfolding issued_ids_def by blast
next
  assume "(k, oid) \<in> issued_ids s"
  then obtain pre n m where p: "io_prefix s = Some pre" "io_issued s k = Some m" "0 < n" "n \<le> m" "oid = operation_id pre k n"
    by (auto simp add: issued_ids_def)
  have l: "length pre = 8" and "m \<le> ISSUED_MAXIMUM_SEQUENCE"
    using assms p by (auto simp add: issued_wf_def PREFIX_BYTES_def)
  then have n: "n \<le> ISSUED_MAXIMUM_SEQUENCE" using p by simp
  have "get_uint 8 8 oid = coded k n"
    using coded_parts(3) [OF n, of k] l by (simp add: p(5) operation_id_eq get_uint_def)
  with p l n show "requestKind oid s = Some k"
    by (simp add: requestKind_def operation_id_eq coded_parts kind_of_number ID_BYTES_def PREFIX_BYTES_def subarray_def)
qed

lemma issued_ids_bound:
  assumes "issued_wf s" "(k, oid) \<in> issued_ids s"
  obtains pre n m where "io_prefix s = Some pre" "length pre = PREFIX_BYTES" "nonzero pre" "io_issued s k = Some m" "0 < n" "n \<le> m"
    "n \<le> ISSUED_MAXIMUM_SEQUENCE" "oid = operation_id pre k n"
proof -
  obtain pre n m where p: "io_prefix s = Some pre" "io_issued s k = Some m" "0 < n" "n \<le> m" "oid = operation_id pre k n"
    using assms(2) by (auto simp add: issued_ids_def)
  moreover have "length pre = PREFIX_BYTES" "nonzero pre" "m \<le> ISSUED_MAXIMUM_SEQUENCE"
    using assms(1) p by (auto simp add: issued_wf_def)
  ultimately show ?thesis by (intro that [of pre m n]) simp_all
qed

lemma issue_fresh:
  assumes "issue draw kind s = Inr (oid, s')" "issued_wf s"
  shows "issued_wf s'" "issued_ids s' = insert (kind, oid) (issued_ids s)" "oid \<notin> snd ` issued_ids s"
    "length oid = ID_BYTES" "nonzero oid"
proof -
  obtain pre n where p: "io_prefix s' = Some pre" "length pre = PREFIX_BYTES" "nonzero pre"
    "io_prefix s = None \<and> io_issued s = Map.empty \<or> io_prefix s = Some pre"
    "n = (case io_issued s kind of None \<Rightarrow> 0 | Some n \<Rightarrow> n) + 1" "n \<le> ISSUED_MAXIMUM_SEQUENCE"
    "io_issued s' = (io_issued s)(kind \<mapsto> n)" "oid = operation_id pre kind n" "kind \<in> set REQUEST_KINDS"
    using issue_parts [OF assms] by blast
  show "issued_wf s'"
    using assms(2) p(1-3,5-7) by (auto simp add: issued_wf_def)
  have old: "x \<in> issued_ids s \<longleftrightarrow> (\<exists>k j m. x = (k, operation_id pre k j) \<and> io_issued s k = Some m \<and> 0 < j \<and> j \<le> m)" for x
    using p(4) by (auto simp add: issued_ids_def)
  have new: "x \<in> issued_ids s' \<longleftrightarrow> (\<exists>k j m. x = (k, operation_id pre k j) \<and> io_issued s' k = Some m \<and> 0 < j \<and> j \<le> m)" for x
    using p(1) by (auto simp add: issued_ids_def)
  show "issued_ids s' = insert (kind, oid) (issued_ids s)"
  proof (intro set_eqI iffI)
    fix x assume "x \<in> issued_ids s'"
    then obtain k j m where x: "x = (k, operation_id pre k j)" "io_issued s' k = Some m" "0 < j" "j \<le> m"
      unfolding new by blast
    show "x \<in> insert (kind, oid) (issued_ids s)"
    proof (cases "k = kind \<and> j = n")
      case False
      then have "\<exists>m. io_issued s k = Some m \<and> j \<le> m"
        using x p(5,7) by (cases "io_issued s kind") (auto split: if_splits)
      with x show ?thesis unfolding insert_iff old by blast
    qed (use x p(8) in simp)
  next
    fix x assume x: "x \<in> insert (kind, oid) (issued_ids s)"
    show "x \<in> issued_ids s'"
    proof (cases "x = (kind, oid)")
      case True
      then show ?thesis unfolding new using p(5,7,8) by fastforce
    next
      case False
      then obtain k j m where j: "x = (k, operation_id pre k j)" "io_issued s k = Some m" "0 < j" "j \<le> m"
        using x old by blast
      then have "\<exists>m. io_issued s' k = Some m \<and> j \<le> m"
        using p(5,7) by auto
      with j show ?thesis unfolding new by blast
    qed
  qed
  show "oid \<notin> snd ` issued_ids s"
  proof
    assume "oid \<in> snd ` issued_ids s"
    then obtain k where k: "(k, oid) \<in> issued_ids s" by auto
    obtain pre' j m where j: "io_prefix s = Some pre'" "length pre' = PREFIX_BYTES" "io_issued s k = Some m" "j \<le> m"
      "j \<le> ISSUED_MAXIMUM_SEQUENCE" "oid = operation_id pre' k j"
      using issued_ids_bound [OF assms(2) k] by blast
    have "kind = k \<and> n = j"
      using operation_id_inj [of pre kind n pre' k j] p(2,6,8) j(2,5,6) by simp
    with j(3,4) p(5) show False by simp
  qed
  show "length oid = ID_BYTES" "nonzero oid"
    using p(2,3,8) by (simp_all add: operation_id_eq PREFIX_BYTES_def ID_BYTES_def nonzero_def)
qed

text \<open>A history of calls of \<^verbatim>\<open>issue\<close>: the identities that came out, with their kinds, and the final state.\<close>

fun issue_run :: "((nat \<Rightarrow> bytes) \<times> message_kind) list \<Rightarrow> issued_operations \<Rightarrow> (message_kind \<times> bytes) list \<times> issued_operations"
  where
  "issue_run [] s = ([], s)"
| "issue_run ((draw, kind) # cs) s =
     (case issue draw kind s of
        Inl _ \<Rightarrow> issue_run cs s
      | Inr (oid, s') \<Rightarrow> (let (ids, s'') = issue_run cs s' in ((kind, oid) # ids, s'')))"

lemma issue_run_ids:
  assumes "issued_wf s"
  shows "issued_wf (snd (issue_run cs s)) \<and> issued_ids (snd (issue_run cs s)) = set (fst (issue_run cs s)) \<union> issued_ids s \<and>
    distinct (map snd (fst (issue_run cs s))) \<and> snd ` set (fst (issue_run cs s)) \<inter> snd ` issued_ids s = {} \<and>
    list_all (\<lambda>(k, oid). length oid = ID_BYTES \<and> nonzero oid) (fst (issue_run cs s))"
  using assms
proof (induction cs s rule: issue_run.induct)
  case (2 draw kind cs s)
  show ?case
  proof (cases "issue draw kind s")
    case (Inr x)
    obtain oid s' where x: "x = (oid, s')" by (cases x)
    note f = issue_fresh [OF Inr [unfolded x] 2(3)]
    have "issued_wf (snd (issue_run cs s')) \<and> issued_ids (snd (issue_run cs s')) = set (fst (issue_run cs s')) \<union> issued_ids s' \<and>
      distinct (map snd (fst (issue_run cs s'))) \<and> snd ` set (fst (issue_run cs s')) \<inter> snd ` issued_ids s' = {} \<and>
      list_all (\<lambda>(k, oid). length oid = ID_BYTES \<and> nonzero oid) (fst (issue_run cs s'))"
      using 2(2) [OF Inr x [symmetric]] f(1) by simp
    then show ?thesis
      using f(2-5) by (cases "issue_run cs s'") (simp add: Inr x)
  qed (use 2 in simp)
qed simp

text \<open>
  C40. The identities that a session issues for its operations are pairwise distinct nonzero values of sixteen octets, for
  every history of calls and whatever the random source returns; and of all identities a message can carry, the receiver
  recognises as its own, with the kind of their request, exactly those it has issued, although it keeps only one counter
  per kind.
\<close>

theorem operation_identities_unique:
  fixes cs :: "((nat \<Rightarrow> bytes) \<times> message_kind) list"
  defines "ids \<equiv> fst (issue_run cs new_issued)" and "s \<equiv> snd (issue_run cs new_issued)"
  shows "distinct (map snd ids) \<and> list_all (\<lambda>(k, oid). length oid = 16 \<and> nonzero oid) ids \<and>
    (requestKind oid s = Some k \<longleftrightarrow> (k, oid) \<in> set ids)"
  using issue_run_ids [OF new_issued_wf(1), of cs] requestKind_iff [of s oid k] new_issued_wf(2)
  by (simp add: ids_def s_def ID_BYTES_def)

end
