(* ===== verification/Operation_Queue.thy ===== *)
theory Operation_Queue
  imports Operation_Continuation "HOL-Library.Sublist"
begin

text \<open>
One operation of a session, class \<^verbatim>\<open>OperationQueue\<close> of \<^verbatim>\<open>web/src/session/operation-router.ts\<close>: the queue of its
  responses, its waiting reads, the chain of its pushes and of the calls of its authority, and the ways it closes. Every
  stretch of code between two awaits is one definition; its callbacks into the router are signals that it returns. The
  lemmas show the invariant of an operation: what reaches the consumer, how often, and in which order.
\<close>

section \<open>The state of an operation\<close>

definition SESSION_OPERATION_RESPONSE_QUEUE :: nat where "SESSION_OPERATION_RESPONSE_QUEUE = 512"

text \<open>Why an operation fails: a session failure, in the sense of \<^verbatim>\<open>isSessionFailure\<close>, or anything else.\<close>

datatype fail_reason = Session_failure | Other_failure

datatype op_settlement = Settled_remote_final | Settled_local_cancel | Settled_session_terminal

text \<open>
  The calls of \<^verbatim>\<open>push\<close> form a chain of promises, and so do the calls of the authority. \<open>op_pushes\<close> are the messages
  of the first chain and \<open>op_tail\<close> the calls of the second, the running one first. \<open>op_stage\<close> says where the
  running \<^verbatim>\<open>#push\<close> is and \<open>op_digest\<close> what the running call of the authority awaits its digest for.
\<close>

datatype push_stage = Push_idle | Push_reserving | Push_reserved "runtime_error + reservation" | Push_late

datatype task_origin = Task_reserve | Task_late | Task_tombstone

text \<open>
  The last four fields are histories: the messages given to \<^verbatim>\<open>push\<close>, those that reached the consumer's queue or one of its
  reads, the answers to the calls of \<^verbatim>\<open>next\<close> with the number of the call (\<open>None\<close> for a rejection), and the settlement
  callbacks that have run.
\<close>

record session_operation =
  op_id :: bytes
  op_authority :: authority
  op_messages :: "session_message list"
  op_readers :: "nat list"
  op_reads :: nat
  op_failure :: "fail_reason option"
  op_settlement :: "op_settlement option"
  op_closed :: bool
  op_consumerSettled :: bool
  op_cleanups :: "nat list"
  op_pushes :: "session_message list"
  op_stage :: push_stage
  op_tail :: "(task_origin \<times> session_message) list"
  op_digest :: "digest_use option"
  op_routed :: "session_message list"
  op_delivered :: "session_message list"
  op_answers :: "(nat \<times> session_message option) list"
  op_cleaned :: "nat list"

definition new_operation :: "cbor_runtime \<Rightarrow> bytes \<Rightarrow> message_kind \<Rightarrow> bytes \<Rightarrow> runtime_error + session_operation" where
  "new_operation rt oid kind body =
     bindE (new_authority rt kind body) (\<lambda>a.
     Inr \<lparr>op_id = oid, op_authority = a, op_messages = [], op_readers = [], op_reads = 0, op_failure = None,
          op_settlement = None, op_closed = False, op_consumerSettled = False, op_cleanups = [], op_pushes = [],
          op_stage = Push_idle, op_tail = [], op_digest = None, op_routed = [], op_delivered = [], op_answers = [],
          op_cleaned = []\<rparr>)"

text \<open>
  What an operation calls of its owner: it gives back the admission of a message, announces that it is closed, and
  announces that its consumer is done.
\<close>

datatype op_signal = Release session_message | On_close op_settlement | On_consumer_settled

type_synonym op_step = "session_operation \<Rightarrow> session_operation \<times> op_signal list"

text \<open>Two steps, one after the other.\<close>

definition then_step :: "op_step \<Rightarrow> op_step \<Rightarrow> op_step" where
  "then_step f g q = (let (q1, s1) = f q; (q2, s2) = g q1 in (q2, s1 @ s2))"

definition quietly :: "(session_operation \<Rightarrow> session_operation) \<Rightarrow> op_step" where
  "quietly f q = (f q, [])"

section \<open>Settlement\<close>

definition settleConsumer :: op_step where
  "settleConsumer q =
     (if op_consumerSettled q then (q, [])
      else (q\<lparr>op_consumerSettled := True, op_cleaned := op_cleaned q @ op_cleanups q, op_cleanups := []\<rparr>,
            [On_consumer_settled]))"

definition clearMessages :: op_step where
  "clearMessages q = (q\<lparr>op_messages := []\<rparr>, map Release (op_messages q))"

definition rejectReaders :: "session_operation \<Rightarrow> session_operation" where
  "rejectReaders q = q\<lparr>op_readers := [], op_answers := op_answers q @ map (\<lambda>t. (t, None)) (op_readers q)\<rparr>"

definition op_settle :: "bool \<Rightarrow> op_settlement \<Rightarrow> op_step" where
  "op_settle acceptLateNonterminal settlement q =
     (let q1 = q\<lparr>op_settlement := Some settlement\<rparr>;
          (q2, s) = (if acceptLateNonterminal \<or> op_messages q1 = [] then settleConsumer q1 else (q1, [])) in
      (q2, On_close settlement # s))"

definition retired_authority :: "continuation_state \<Rightarrow> session_operation \<Rightarrow> session_operation" where
  "retired_authority reason q = q\<lparr>op_authority := authority_retire reason (op_authority q)\<rparr>"

definition closed_authority :: "session_operation \<Rightarrow> session_operation" where
  "closed_authority q = q\<lparr>op_authority := authority_close (op_authority q)\<rparr>"

definition op_finish :: "bool \<Rightarrow> op_step" where
  "op_finish acceptLateNonterminal q =
     (if op_closed q then (q, [])
      else then_step (quietly (\<lambda>q. retired_authority (if acceptLateNonterminal then CS_local_cancel else CS_remote_final)
             (q\<lparr>op_closed := True\<rparr>)))
           (then_step (if acceptLateNonterminal then clearMessages else quietly id)
           (then_step (quietly rejectReaders)
           (op_settle acceptLateNonterminal
             (if acceptLateNonterminal then Settled_local_cancel else Settled_remote_final)))) q)"

definition onSettled :: "nat \<Rightarrow> session_operation \<Rightarrow> session_operation" where
  "onSettled cleanup q =
     (if op_consumerSettled q then q\<lparr>op_cleaned := op_cleaned q @ [cleanup]\<rparr>
      else q\<lparr>op_cleanups := op_cleanups q @ [cleanup]\<rparr>)"

text \<open>\<^verbatim>\<open>endInput\<close>; its promise is the callback \<open>cleanup\<close>.\<close>

definition endInput :: "fail_reason \<Rightarrow> nat \<Rightarrow> op_step" where
  "endInput reason cleanup q =
     then_step
       (if op_closed q then quietly id
        else then_step (quietly (\<lambda>q. rejectReaders (retired_authority CS_local_cancel
               (q\<lparr>op_closed := True, op_failure := Some reason\<rparr>))))
             (op_settle False Settled_local_cancel))
       (quietly (onSettled cleanup)) q"

definition rejectConsumer :: "fail_reason \<Rightarrow> op_settlement \<Rightarrow> op_step" where
  "rejectConsumer reason settlement q =
     (if op_closed q
      then then_step (quietly (\<lambda>q. q\<lparr>op_failure := Some reason\<rparr>)) (then_step clearMessages
             (then_step (quietly rejectReaders) settleConsumer)) q
      else then_step (quietly (\<lambda>q. q\<lparr>op_failure := Some reason, op_closed := True\<rparr>)) (then_step clearMessages
             (then_step (quietly rejectReaders) (op_settle True settlement))) q)"

definition op_fail :: "fail_reason \<Rightarrow> op_step" where
  "op_fail reason q =
     (if op_failure q \<noteq> None \<and> op_consumerSettled q then (q, [])
      else then_step
        (quietly (if reason = Session_failure then closed_authority else retired_authority CS_local_cancel))
        (rejectConsumer reason (if reason = Session_failure then Settled_session_terminal else Settled_local_cancel)) q)"

definition op_cancel :: "fail_reason \<Rightarrow> op_step" where
  "op_cancel cause q =
     (if op_failure q \<noteq> None \<and> op_consumerSettled q then (q, [])
      else then_step (quietly (retired_authority CS_local_cancel)) (rejectConsumer cause Settled_local_cancel) q)"

definition op_close :: op_step where
  "op_close q = (if op_closed q then then_step clearMessages settleConsumer q else op_finish True q)"

section \<open>Reading\<close>

definition op_next :: op_step where
  "op_next q =
     (let t = op_reads q; q = q\<lparr>op_reads := t + 1\<rparr> in
      case op_messages q of
        m # ms \<Rightarrow>
          then_step (\<lambda>q. (q\<lparr>op_messages := ms, op_answers := op_answers q @ [(t, Some m)]\<rparr>, [Release m]))
            (if op_closed q \<and> ms = [] then settleConsumer else quietly id) q
      | [] \<Rightarrow>
          if op_failure q \<noteq> None \<or> op_closed q then (q\<lparr>op_answers := op_answers q @ [(t, None)]\<rparr>, [])
          else (q\<lparr>op_readers := op_readers q @ [t]\<rparr>, []))"

definition abort_read :: "nat \<Rightarrow> session_operation \<Rightarrow> session_operation" where
  "abort_read t q =
     (if t \<in> set (op_readers q)
      then q\<lparr>op_readers := remove1 t (op_readers q), op_answers := op_answers q @ [(t, None)]\<rparr> else q)"

section \<open>Pushing\<close>

definition op_push :: "session_message \<Rightarrow> session_operation \<Rightarrow> session_operation" where
  "op_push m q = q\<lparr>op_pushes := op_pushes q @ [m], op_routed := op_routed q @ [m]\<rparr>"

text \<open>The start of the first \<^verbatim>\<open>#push\<close> of the chain.\<close>

definition push_start :: "session_operation \<Rightarrow> session_operation" where
  "push_start q =
     (if op_stage q \<noteq> Push_idle then q
      else case op_pushes q of
        [] \<Rightarrow> q
      | m # _ \<Rightarrow>
          if op_closed q \<or> op_failure q \<noteq> None then q\<lparr>op_stage := Push_late, op_tail := op_tail q @ [(Task_late, m)]\<rparr>
          else q\<lparr>op_stage := Push_reserving, op_tail := op_tail q @ [(Task_reserve, m)]\<rparr>)"

text \<open>The end of a \<^verbatim>\<open>#push\<close>.\<close>

definition push_done :: "session_operation \<Rightarrow> session_operation" where
  "push_done q = q\<lparr>op_stage := Push_idle, op_pushes := tl (op_pushes q)\<rparr>"

text \<open>A message for the authority of a closed operation, \<^verbatim>\<open>OperationTombstone.accept\<close>.\<close>

definition tombstone_accept :: "session_message \<Rightarrow> session_operation \<Rightarrow> session_operation" where
  "tombstone_accept m q = q\<lparr>op_tail := op_tail q @ [(Task_tombstone, m)]\<rparr>"

text \<open>The end of the running call of the authority, with the error that its caller gets when nothing waits for it here.\<close>

definition task_done :: "runtime_error + reservation \<Rightarrow> session_operation \<Rightarrow> session_operation \<times> runtime_error list" where
  "task_done res q =
     (let e = (case res of Inl e \<Rightarrow> [e] | Inr _ \<Rightarrow> []); q' = q\<lparr>op_tail := tl (op_tail q), op_digest := None\<rparr> in
      case op_tail q of
        [] \<Rightarrow> (q, [])
      | (Task_reserve, _) # _ \<Rightarrow> (q'\<lparr>op_stage := Push_reserved res\<rparr>, [])
      | (Task_late, _) # _ \<Rightarrow> (push_done q', e)
      | (Task_tombstone, _) # _ \<Rightarrow> (q', e))"

definition late_progress :: "unit progress \<Rightarrow> reservation progress" where
  "late_progress p =
     (case p of Finished (Inl e) \<Rightarrow> Finished (Inl e) | Finished (Inr _) \<Rightarrow> Finished (Inr Drop) | Hashing u \<Rightarrow> Hashing u)"

text \<open>The first call in the chain of the authority starts.\<close>

definition authority_start :: "cbor_runtime \<Rightarrow> session_operation \<Rightarrow> session_operation \<times> runtime_error list" where
  "authority_start rt q =
     (if op_digest q \<noteq> None then (q, [])
      else case op_tail q of
        [] \<Rightarrow> (q, [])
      | (origin, m) # _ \<Rightarrow>
          (case (if origin = Task_reserve then reserve rt (op_authority q) m
                 else late_progress (accept_late rt (op_authority q) m)) of
             Finished res \<Rightarrow> task_done res q
           | Hashing u \<Rightarrow> (q\<lparr>op_digest := Some u\<rparr>, [])))"

text \<open>The digest that the running call awaits is there.\<close>

definition digest_ready :: "(bytes \<Rightarrow> bytes) \<Rightarrow> session_operation \<Rightarrow> session_operation \<times> runtime_error list" where
  "digest_ready sha q =
     (case (op_digest q, op_tail q) of
        (Some u, (_, m) # _) \<Rightarrow>
          (let (res, a) = with_digest u (messageFingerprint sha m) m (op_authority q) in
           task_done res (q\<lparr>op_authority := a\<rparr>))
      | _ \<Rightarrow> (q, []))"

definition op_rollback :: "rollback_effect \<Rightarrow> session_operation \<Rightarrow> session_operation" where
  "op_rollback effect q = q\<lparr>op_authority := authority_rollback effect (op_authority q)\<rparr>"

text \<open>The reservation arrived too late: the operation was closed while the \<^verbatim>\<open>#push\<close> waited for it.\<close>

definition push_too_late :: "rollback_effect \<Rightarrow> session_operation \<Rightarrow> session_operation" where
  "push_too_late effect q =
     (case op_pushes q of
        [] \<Rightarrow> q
      | m # _ \<Rightarrow> (op_rollback effect q)\<lparr>op_stage := Push_late, op_tail := op_tail q @ [(Task_late, m)]\<rparr>)"

text \<open>A reserved message goes to the first waiting read, or into the queue.\<close>

definition hand_over :: "session_message \<Rightarrow> session_operation \<Rightarrow> session_operation" where
  "hand_over m q =
     (case op_readers q of
        t # ts \<Rightarrow> q\<lparr>op_readers := ts, op_answers := op_answers q @ [(t, Some m)], op_delivered := op_delivered q @ [m]\<rparr>
      | [] \<Rightarrow> q\<lparr>op_messages := op_messages q @ [m], op_delivered := op_delivered q @ [m]\<rparr>)"

lemmas op_defs = settleConsumer_def clearMessages_def rejectReaders_def op_settle_def retired_authority_def
  closed_authority_def op_finish_def onSettled_def endInput_def rejectConsumer_def op_fail_def op_cancel_def op_close_def
  op_next_def abort_read_def op_push_def push_start_def push_done_def tombstone_accept_def op_rollback_def
  push_too_late_def hand_over_def then_step_def quietly_def

section \<open>Invariants\<close>

definition q_consumer :: "session_operation \<Rightarrow> bool" where
  "q_consumer q \<longleftrightarrow>
     (op_readers q \<noteq> [] \<longrightarrow> op_messages q = [] \<and> \<not> op_closed q) \<and>
     (op_failure q \<noteq> None \<longrightarrow> op_closed q) \<and>
     (op_consumerSettled q \<longleftrightarrow> op_closed q \<and> op_messages q = []) \<and>
     (op_consumerSettled q \<longrightarrow> op_cleanups q = []) \<and>
     (op_settlement q \<noteq> None \<longleftrightarrow> op_closed q) \<and>
     (op_closed q \<longleftrightarrow> oa_state (op_authority q) \<noteq> CS_active) \<and>
     length (op_messages q) \<le> SESSION_OPERATION_RESPONSE_QUEUE"

text \<open>The messages that calls of \<^verbatim>\<open>next\<close> returned, in order.\<close>

definition reads :: "session_operation \<Rightarrow> session_message list" where
  "reads q = List.map_filter snd (op_answers q)"

definition q_reading :: "session_operation \<Rightarrow> bool" where
  "q_reading q \<longleftrightarrow> prefix (reads q @ op_messages q) (op_delivered q) \<and>
     (\<not> op_closed q \<longrightarrow> reads q @ op_messages q = op_delivered q) \<and>
     distinct (map fst (op_answers q) @ op_readers q) \<and>
     set (map fst (op_answers q) @ op_readers q) = {..<op_reads q}"

lemma map_filter_append [simp]: "List.map_filter f (xs @ ys) = List.map_filter f xs @ List.map_filter f ys"
  by (simp add: map_filter_def)

lemma map_filter_rejections [simp]: "List.map_filter snd (map (\<lambda>t. (t, None)) ts) = []"
  by (induction ts) (simp_all add: map_filter_def)

lemma map_filter_single [simp]: "List.map_filter snd [(t, Some m)] = [m]" "List.map_filter snd [(t, None)] = []"
  by (simp_all add: map_filter_def)

lemma retire_state [simp]: "reason \<noteq> CS_active \<Longrightarrow> oa_state (authority_retire reason a) \<noteq> CS_active"
  by (simp add: authority_retire_def clearCandidateReplayState_def)

lemma close_state [simp]: "oa_state (authority_close a) = CS_closed"
  by (simp add: authority_close_def clearCandidateReplayState_def)

text \<open>Closing an operation in any of its ways, and reading.\<close>

lemma new_operation_consumer: "new_operation rt oid kind body = Inr q \<Longrightarrow> q_consumer q \<and> q_reading q"
  by (auto simp add: new_operation_def new_authority_def bindE_eq_Inr q_consumer_def q_reading_def reads_def map_filter_def)

lemma settle_steps_consumer:
  assumes "q_consumer q"
  shows "q_consumer (fst (op_finish b q))" "q_consumer (fst (endInput r c q))" "q_consumer (fst (op_fail r q))"
    "q_consumer (fst (op_cancel r q))" "q_consumer (fst (op_close q))"
  using assms by (auto simp add: q_consumer_def op_defs Let_def split: if_splits)

lemma read_steps_consumer:
  assumes "q_consumer q"
  shows "q_consumer (fst (op_next q))" "q_consumer (abort_read t q)" "q_consumer (onSettled c q)"
    "q_consumer (closed_authority q) \<longleftrightarrow> op_closed q"
  using assms by (auto simp add: q_consumer_def op_defs Let_def split: list.splits if_splits)

text \<open>What every way of closing an operation leaves alone.\<close>

definition closing :: "session_operation \<Rightarrow> session_operation \<Rightarrow> bool" where
  "closing q q' \<longleftrightarrow>
     op_id q' = op_id q \<and> oa_requestKind (op_authority q') = oa_requestKind (op_authority q) \<and>
     oa_peerBinding (op_authority q') = oa_peerBinding (op_authority q) \<and>
     op_delivered q' = op_delivered q \<and> op_reads q' = op_reads q \<and> op_routed q' = op_routed q \<and>
     op_pushes q' = op_pushes q \<and> op_stage q' = op_stage q \<and> op_tail q' = op_tail q \<and> op_digest q' = op_digest q \<and>
     (op_messages q' = op_messages q \<or> op_messages q' = []) \<and>
     (op_answers q' = op_answers q \<and> op_readers q' = op_readers q \<or>
      op_answers q' = op_answers q @ map (\<lambda>t. (t, None)) (op_readers q) \<and> op_readers q' = []) \<and>
     op_closed q'"

lemma retired_fields [simp]:
  "oa_requestKind (authority_retire reason a) = oa_requestKind a" "oa_peerBinding (authority_retire reason a) = oa_peerBinding a"
  "oa_requestKind (authority_close a) = oa_requestKind a" "oa_peerBinding (authority_close a) = oa_peerBinding a"
  by (simp_all add: authority_retire_def authority_close_def clearCandidateReplayState_def)

lemma finish_closing: "closing q (fst (op_finish b q)) \<or> op_closed q \<and> op_finish b q = (q, [])"
  by (simp add: closing_def op_defs Let_def)

lemma closing_refl: "op_closed q \<Longrightarrow> closing q q"
  by (simp add: closing_def)

lemma op_finish_closing: "closing q (fst (op_finish b q))"
  using finish_closing [of q b] closing_refl [of q] by auto

lemma endInput_closing: "closing q (fst (endInput r c q))"
  by (simp add: closing_def op_defs Let_def)

lemma rejectConsumer_closing: "closing q (fst (rejectConsumer r s q))"
  by (simp add: closing_def op_defs Let_def)

lemma closing_trans_authority:
  "closing (q\<lparr>op_authority := a\<rparr>) q' \<Longrightarrow> oa_requestKind a = oa_requestKind (op_authority q) \<Longrightarrow>
   oa_peerBinding a = oa_peerBinding (op_authority q) \<Longrightarrow> closing q q'"
  by (simp add: closing_def)

lemma fst_then_quietly: "fst (then_step (quietly f) g q) = fst (g (f q))"
  by (simp add: then_step_def quietly_def split: prod.splits)

lemma op_cancel_closing: "q_consumer q \<Longrightarrow> closing q (fst (op_cancel r q))"
  using rejectConsumer_closing [of "retired_authority CS_local_cancel q" r Settled_local_cancel]
  by (auto simp add: op_cancel_def fst_then_quietly retired_authority_def q_consumer_def intro: closing_refl
      elim: closing_trans_authority)

lemma op_fail_closing: "q_consumer q \<Longrightarrow> closing q (fst (op_fail r q))"
  using rejectConsumer_closing [of "retired_authority CS_local_cancel q" r Settled_local_cancel]
    rejectConsumer_closing [of "closed_authority q" r Settled_session_terminal]
  by (auto simp add: op_fail_def fst_then_quietly retired_authority_def closed_authority_def q_consumer_def
      intro: closing_refl elim: closing_trans_authority)

lemma op_close_closing: "closing q (fst (op_close q))"
  using op_finish_closing [of q True] by (auto simp add: op_close_def) (auto simp add: closing_def op_defs Let_def)

lemmas closings = op_finish_closing endInput_closing op_cancel_closing op_fail_closing op_close_closing

lemma closing_reading:
  assumes "closing q q'" "q_reading q"
  shows "q_reading q'"
proof -
  have c: "op_closed q'" "op_delivered q' = op_delivered q" "op_reads q' = op_reads q"
    and m: "op_messages q' = op_messages q \<or> op_messages q' = []"
    and a: "op_answers q' = op_answers q \<and> op_readers q' = op_readers q \<or>
      op_answers q' = op_answers q @ map (\<lambda>t. (t, None)) (op_readers q) \<and> op_readers q' = []"
    using assms(1) by (simp_all add: closing_def)
  have "reads q' = reads q" using a by (auto simp add: reads_def)
  moreover have "map fst (op_answers q') @ op_readers q' = map fst (op_answers q) @ op_readers q"
    using a by (auto simp add: comp_def)
  ultimately show ?thesis
    using assms(2) c m unfolding q_reading_def by (metis append_Nil2 append_prefixD)
qed

lemma read_steps_reading:
  assumes "q_reading q"
  shows "q_reading (abort_read t q)" "q_reading (onSettled c q)" "q_reading (closed_authority q)"
  using assms by (auto simp add: q_reading_def reads_def op_defs)

lemma op_next_reading:
  assumes "q_reading q" "q_consumer q"
  shows "q_reading (fst (op_next q))"
proof (cases "op_messages q")
  case Nil
  then show ?thesis
    using assms(1) by (auto simp add: q_reading_def reads_def op_defs Let_def)
next
  case (Cons m ms)
  then show ?thesis
    using assms by (auto simp add: q_reading_def q_consumer_def reads_def op_defs Let_def)
qed

section \<open>Deliveries\<close>

text \<open>A message that answers the request of the operation and repeats the attempt of its offer, if it has one.\<close>

definition proper_answer :: "cbor_runtime \<Rightarrow> session_operation \<Rightarrow> session_message \<Rightarrow> bool" where
  "proper_answer rt q m \<longleftrightarrow> requireOperationResponse rt (oa_requestKind (op_authority q)) m = Inr () \<and>
     validateContinuation rt (op_authority q) m = Inr ()"

definition candidates :: "session_message list \<Rightarrow> session_message list" where
  "candidates ms = filter (\<lambda>m. sm_kind m = Peer_candidate) ms"

definition peer_answers :: "session_message list \<Rightarrow> session_message list" where
  "peer_answers ms = filter (\<lambda>m. sm_kind m = Peer_answer) ms"

lemma kind_filters [simp]:
  "candidates (xs @ ys) = candidates xs @ candidates ys" "peer_answers (xs @ ys) = peer_answers xs @ peer_answers ys"
  "candidates [] = []" "peer_answers [] = []"
  "candidates [m] = (if sm_kind m = Peer_candidate then [m] else [])"
  "peer_answers [m] = (if sm_kind m = Peer_answer then [m] else [])"
  by (simp_all add: candidates_def peer_answers_def)

text \<open>The message that holds a reservation to deliver.\<close>

definition inflight :: "session_operation \<Rightarrow> session_message list" where
  "inflight q = (case op_stage q of Push_reserved (Inr (Deliver _ _)) \<Rightarrow> [hd (op_pushes q)] | _ \<Rightarrow> [])"

definition stage_tasks :: "session_operation \<Rightarrow> (task_origin \<times> session_message) list" where
  "stage_tasks q =
     (case op_stage q of
        Push_reserving \<Rightarrow> [(Task_reserve, hd (op_pushes q))] | Push_late \<Rightarrow> [(Task_late, hd (op_pushes q))] | _ \<Rightarrow> [])"

lemma stage_tasks_cong: "op_stage q' = op_stage q \<Longrightarrow> op_pushes q' = op_pushes q \<Longrightarrow> stage_tasks q' = stage_tasks q"
  unfolding stage_tasks_def by (erule ssubst, erule ssubst, rule refl)

lemma inflight_cong: "op_stage q' = op_stage q \<Longrightarrow> hd (op_pushes q') = hd (op_pushes q) \<Longrightarrow> inflight q' = inflight q"
  unfolding inflight_def by (erule ssubst, erule ssubst, rule refl)

definition q_pipeline :: "session_operation \<Rightarrow> bool" where
  "q_pipeline q \<longleftrightarrow> filter (\<lambda>t. fst t \<noteq> Task_tombstone) (op_tail q) = stage_tasks q \<and>
     (op_stage q \<noteq> Push_idle \<longrightarrow> op_pushes q \<noteq> []) \<and>
     (\<not> op_closed q \<longrightarrow> list_all (\<lambda>t. fst t = Task_reserve) (op_tail q))"

definition digest_fits :: "cbor_runtime \<Rightarrow> session_operation \<Rightarrow> digest_use \<Rightarrow> task_origin \<Rightarrow> session_message \<Rightarrow> bool" where
  "digest_fits rt q u origin m \<longleftrightarrow>
     (case u of
        Hash_candidate \<Rightarrow> origin = Task_reserve \<and> sm_kind m = Peer_candidate \<and> proper_answer rt q m \<and>
          (\<not> op_closed q \<longrightarrow> oa_overflow (op_authority q) = None)
      | Hash_replay slot \<Rightarrow> origin = Task_reserve \<and> replaySlot (sm_kind m) = Some slot \<and> proper_answer rt q m
      | Hash_late slot allowFirst \<Rightarrow> op_closed q)"

definition q_digest :: "cbor_runtime \<Rightarrow> session_operation \<Rightarrow> bool" where
  "q_digest rt q \<longleftrightarrow>
     (\<forall>u. op_digest q = Some u \<longrightarrow> (\<exists>origin m ts. op_tail q = (origin, m) # ts \<and> digest_fits rt q u origin m))"

definition undo_fits :: "(bytes \<Rightarrow> bytes) \<Rightarrow> session_operation \<Rightarrow> session_message \<Rightarrow> rollback_effect \<Rightarrow> bool" where
  "undo_fits sha q m u \<longleftrightarrow>
     (if sm_kind m = Peer_candidate
      then (u = Undo_candidate (messageFingerprint sha m) \<and> (\<not> op_closed q \<longrightarrow> oa_overflow (op_authority q) = None)) \<or>
           (u = Undo_overflow (messageFingerprint sha m) \<and>
            (\<not> op_closed q \<longrightarrow> oa_overflow (op_authority q) = Some (messageFingerprint sha m)))
      else case replaySlot (sm_kind m) of None \<Rightarrow> u = Undo_nothing | Some slot \<Rightarrow> u = Undo_slot slot (messageFingerprint sha m))"

lemma undo_fits_closed: "undo_fits sha q m u \<Longrightarrow> op_closed q' \<Longrightarrow> undo_fits sha q' m u"
  by (auto simp add: undo_fits_def split: if_splits)

definition q_reserved :: "cbor_runtime \<Rightarrow> (bytes \<Rightarrow> bytes) \<Rightarrow> session_operation \<Rightarrow> bool" where
  "q_reserved rt sha q \<longleftrightarrow>
     (\<forall>final u. op_stage q = Push_reserved (Inr (Deliver final u)) \<longrightarrow>
        proper_answer rt q (hd (op_pushes q)) \<and> final = isFinalResponse (sm_kind (hd (op_pushes q))) \<and>
        undo_fits sha q (hd (op_pushes q)) u)"

definition overflow_list :: "authority \<Rightarrow> string list" where
  "overflow_list a = (case oa_overflow a of None \<Rightarrow> [] | Some fp \<Rightarrow> [fp])"

text \<open>While the operation is open, its authority knows what has been delivered or reserved.\<close>

definition q_once :: "(bytes \<Rightarrow> bytes) \<Rightarrow> session_operation \<Rightarrow> bool" where
  "q_once sha q \<longleftrightarrow>
     (\<not> op_closed q \<longrightarrow>
        map (messageFingerprint sha) (candidates (op_delivered q @ inflight q)) =
          oa_candidates (op_authority q) @ overflow_list (op_authority q) \<and>
        distinct (oa_candidates (op_authority q) @ overflow_list (op_authority q)) \<and>
        length (oa_candidates (op_authority q)) \<le> MAXIMUM_PEER_CANDIDATES \<and>
        length (peer_answers (op_delivered q @ inflight q)) \<le> 1 \<and>
        (peer_answers (op_delivered q @ inflight q) \<noteq> [] \<longrightarrow> oa_fingerprints (op_authority q) Slot_peer_answer \<noteq> None))"

definition q_history :: "cbor_runtime \<Rightarrow> (bytes \<Rightarrow> bytes) \<Rightarrow> session_operation \<Rightarrow> bool" where
  "q_history rt sha q \<longleftrightarrow>
     list_all (proper_answer rt q) (op_delivered q) \<and>
     (\<exists>handled. op_routed q = handled @ op_pushes q \<and> subseq (op_delivered q) handled) \<and>
     list_all (\<lambda>m. \<not> isFinalResponse (sm_kind m)) (butlast (op_delivered q)) \<and>
     (\<not> op_closed q \<longrightarrow> list_all (\<lambda>m. \<not> isFinalResponse (sm_kind m)) (op_delivered q)) \<and>
     distinct (map (messageFingerprint sha) (candidates (op_delivered q))) \<and>
     length (candidates (op_delivered q)) \<le> MAXIMUM_PEER_CANDIDATES + 1 \<and>
     length (peer_answers (op_delivered q)) \<le> 1"

definition q_flow :: "cbor_runtime \<Rightarrow> (bytes \<Rightarrow> bytes) \<Rightarrow> session_operation \<Rightarrow> bool" where
  "q_flow rt sha q \<longleftrightarrow> q_pipeline q \<and> q_digest rt q \<and> q_reserved rt sha q \<and> q_once sha q \<and> q_history rt sha q"

lemma q_flowI: "q_pipeline q \<Longrightarrow> q_digest rt q \<Longrightarrow> q_reserved rt sha q \<Longrightarrow> q_once sha q \<Longrightarrow> q_history rt sha q \<Longrightarrow> q_flow rt sha q"
  by (simp add: q_flow_def)

lemma q_flowD:
  assumes "q_flow rt sha q"
  shows "q_pipeline q" "q_digest rt q" "q_reserved rt sha q" "q_once sha q" "q_history rt sha q"
  using assms by (simp_all add: q_flow_def)

lemma proper_cong:
  "oa_requestKind (op_authority q') = oa_requestKind (op_authority q) \<Longrightarrow>
   oa_peerBinding (op_authority q') = oa_peerBinding (op_authority q) \<Longrightarrow> proper_answer rt q' = proper_answer rt q"
  by (rule ext) (simp add: proper_answer_def validateContinuation_def cong: option.case_cong sum.case_cong)

lemma fits_cong:
  assumes "op_authority q' = op_authority q" "op_closed q' = op_closed q"
  shows "digest_fits rt q' = digest_fits rt q" "undo_fits sha q' = undo_fits sha q" "proper_answer rt q' = proper_answer rt q"
proof -
  show p: "proper_answer rt q' = proper_answer rt q"
    by (rule proper_cong) (simp_all add: assms)
  show "digest_fits rt q' = digest_fits rt q" "undo_fits sha q' = undo_fits sha q"
    unfolding digest_fits_def undo_fits_def p assms by (rule refl)+
qed

lemma digest_fits_closed:
  "digest_fits rt q u origin m \<Longrightarrow> op_closed q' \<Longrightarrow> proper_answer rt q' = proper_answer rt q \<Longrightarrow> digest_fits rt q' u origin m"
  by (auto simp add: digest_fits_def split: digest_use.splits)

text \<open>Steps that leave the flow of messages alone.\<close>

definition same_flow :: "session_operation \<Rightarrow> session_operation \<Rightarrow> bool" where
  "same_flow q q' \<longleftrightarrow> op_authority q' = op_authority q \<and> op_closed q' = op_closed q \<and> op_pushes q' = op_pushes q \<and>
     op_stage q' = op_stage q \<and> op_tail q' = op_tail q \<and> op_digest q' = op_digest q \<and> op_routed q' = op_routed q \<and>
     op_delivered q' = op_delivered q"

lemma same_flow_kept:
  assumes "same_flow q q'"
  shows "q_flow rt sha q' = q_flow rt sha q"
proof -
  have e: "op_authority q' = op_authority q" "op_closed q' = op_closed q" "op_pushes q' = op_pushes q"
    "op_stage q' = op_stage q" "op_tail q' = op_tail q" "op_digest q' = op_digest q" "op_routed q' = op_routed q"
    "op_delivered q' = op_delivered q"
    using assms by (simp_all add: same_flow_def)
  have p: "proper_answer rt q' = proper_answer rt q"
    by (rule proper_cong) (simp_all add: e)
  show ?thesis
    unfolding q_flow_def q_pipeline_def q_digest_def q_reserved_def q_once_def q_history_def digest_fits_def
      undo_fits_def inflight_def stage_tasks_def e p ..
qed

lemma next_same_flow: "same_flow q (fst (op_next q))" "same_flow q (abort_read t q)" "same_flow q (onSettled c q)"
  by (auto simp add: same_flow_def op_defs Let_def split: list.splits)

lemma closing_flow:
  assumes "closing q q'" "q_flow rt sha q"
  shows "q_flow rt sha q'"
proof -
  have e: "op_delivered q' = op_delivered q" "op_routed q' = op_routed q" "op_pushes q' = op_pushes q" "op_stage q' = op_stage q"
    "op_tail q' = op_tail q" "op_digest q' = op_digest q" "op_closed q'"
    using assms(1) by (simp_all add: closing_def)
  have pr: "proper_answer rt q' = proper_answer rt q"
    by (rule proper_cong) (use assms(1) in \<open>simp_all add: closing_def\<close>)
  have f: "digest_fits rt q u origin m \<Longrightarrow> digest_fits rt q' u origin m" for u origin m
    using pr e(7) by (auto simp add: digest_fits_def split: digest_use.splits)
  have n: "undo_fits sha q m u \<Longrightarrow> undo_fits sha q' m u" for m u
    using e(7) by (rule undo_fits_closed [rotated])
  show ?thesis
  proof (rule q_flowI)
    show "q_pipeline q'"
      using q_flowD(1) [OF assms(2)] e(7) unfolding q_pipeline_def stage_tasks_def e by blast
    show "q_digest rt q'"
      using q_flowD(2) [OF assms(2)] f unfolding q_digest_def e by metis
    show "q_reserved rt sha q'"
      using q_flowD(3) [OF assms(2)] n unfolding q_reserved_def e pr by blast
    show "q_once sha q'"
      using e by (simp add: q_once_def)
    show "q_history rt sha q'"
      using q_flowD(5) [OF assms(2)] by (simp add: q_history_def e pr)
  qed
qed

lemma closed_authority_flow: "op_closed q \<Longrightarrow> q_flow rt sha q \<Longrightarrow> q_flow rt sha (closed_authority q)"
  by (rule closing_flow [of q]) (simp_all add: closing_def closed_authority_def)

lemma new_operation_flow: "new_operation rt oid kind body = Inr q \<Longrightarrow> q_flow rt sha q"
  by (auto simp add: new_operation_def new_authority_def bindE_eq_Inr q_flow_def q_pipeline_def q_digest_def q_reserved_def
      q_once_def q_history_def inflight_def stage_tasks_def overflow_list_def)

section \<open>The way of a message through the authority\<close>

lemma pipeline_head:
  assumes "q_pipeline q" "op_tail q = (origin, m) # ts"
  shows "origin = Task_reserve \<Longrightarrow> op_stage q = Push_reserving \<and> hd (op_pushes q) = m"
    "origin = Task_late \<Longrightarrow> op_stage q = Push_late \<and> hd (op_pushes q) = m"
    "origin \<noteq> Task_tombstone \<Longrightarrow> filter (\<lambda>t. fst t \<noteq> Task_tombstone) ts = [] \<and> op_pushes q \<noteq> []"
    "origin = Task_tombstone \<Longrightarrow> filter (\<lambda>t. fst t \<noteq> Task_tombstone) ts = stage_tasks q"
    "origin \<noteq> Task_reserve \<Longrightarrow> op_closed q"
    "\<not> op_closed q \<Longrightarrow> list_all (\<lambda>t. fst t = Task_reserve) ts"
  using assms by (auto simp add: q_pipeline_def stage_tasks_def split: push_stage.splits)

text \<open>The end of a call of \<^verbatim>\<open>reserve\<close>.\<close>

lemma reserve_done_flow:
  fixes res :: "runtime_error + reservation"
  assumes "q_flow rt sha q" "op_tail q = (Task_reserve, m) # ts"
    and a: "oa_requestKind a = oa_requestKind (op_authority q)" "oa_peerBinding a = oa_peerBinding (op_authority q)"
  defines "q' \<equiv> q\<lparr>op_authority := a, op_tail := ts, op_digest := None, op_stage := Push_reserved res\<rparr>"
  assumes d: "\<And>final u. res = Inr (Deliver final u) \<Longrightarrow>
      proper_answer rt q m \<and> final = isFinalResponse (sm_kind m) \<and> undo_fits sha q' m u"
    and o: "q_once sha q'"
  shows "q_flow rt sha q'"
proof -
  note h = pipeline_head [OF q_flowD(1) [OF assms(1)] assms(2)]
  have hd: "hd (op_pushes q) = m" "op_pushes q \<noteq> []" and ts: "filter (\<lambda>t. fst t \<noteq> Task_tombstone) ts = []"
    using h by auto
  have pr: "proper_answer rt q' = proper_answer rt q"
    by (rule proper_cong) (simp_all add: q'_def a)
  show ?thesis
  proof (rule q_flowI)
    show "q_pipeline q'"
      using hd ts h(6) by (simp add: q_pipeline_def q'_def stage_tasks_def)
    show "q_digest rt q'" by (simp add: q_digest_def q'_def)
    show "q_reserved rt sha q'"
      unfolding q_reserved_def pr using d hd by (simp add: q'_def)
    show "q_once sha q'" by (rule o)
    show "q_history rt sha q'"
      using q_flowD(5) [OF assms(1)] unfolding q_history_def pr by (simp add: q'_def)
  qed
qed

text \<open>The end of a late call, which only a closed operation makes.\<close>

lemma pop_history:
  assumes "q_history rt sha q" "op_pushes q \<noteq> []" "proper_answer rt q' = proper_answer rt q"
    and "op_delivered q' = op_delivered q" "op_routed q' = op_routed q" "op_pushes q' = tl (op_pushes q)" "op_closed q' = op_closed q"
  shows "q_history rt sha q'"
proof -
  obtain handled where "op_routed q = handled @ op_pushes q" "subseq (op_delivered q) handled"
    using assms(1) by (auto simp add: q_history_def)
  then have "op_routed q = (handled @ [hd (op_pushes q)]) @ tl (op_pushes q)"
    "subseq (op_delivered q) (handled @ [hd (op_pushes q)])"
    using assms(2) by (simp_all add: list_emb_prefix)
  then have "\<exists>h. op_routed q = h @ tl (op_pushes q) \<and> subseq (op_delivered q) h" by blast
  then show ?thesis
    using assms(1) unfolding q_history_def assms(3-7) by simp
qed

lemma late_done_flow:
  assumes "q_flow rt sha q" "op_tail q = (origin, m) # ts" "origin \<noteq> Task_reserve"
    and a: "oa_requestKind a = oa_requestKind (op_authority q)" "oa_peerBinding a = oa_peerBinding (op_authority q)"
  defines "q1 \<equiv> q\<lparr>op_authority := a, op_tail := ts, op_digest := None\<rparr>"
  shows "q_flow rt sha (if origin = Task_late then push_done q1 else q1)"
proof -
  note h = pipeline_head [OF q_flowD(1) [OF assms(1)] assms(2)]
  have c: "op_closed q" using h(5) assms(3) by simp
  have p: "proper_answer rt q1 = proper_answer rt q" "proper_answer rt (push_done q1) = proper_answer rt q"
    by (rule proper_cong; simp add: q1_def push_done_def a)+
  show ?thesis
  proof (cases "origin = Task_late")
    case True
    have "q_flow rt sha (push_done q1)"
    proof (rule q_flowI)
      show "q_pipeline (push_done q1)"
        using h(3) True c by (simp add: q_pipeline_def q1_def push_done_def stage_tasks_def)
      show "q_digest rt (push_done q1)" "q_reserved rt sha (push_done q1)" "q_once sha (push_done q1)"
        using c by (simp_all add: q_digest_def q_reserved_def q_once_def q1_def push_done_def)
      show "q_history rt sha (push_done q1)"
        by (rule pop_history [OF q_flowD(5) [OF assms(1)]]) (use h(3) True p in \<open>simp_all add: q1_def push_done_def\<close>)
    qed
    with True show ?thesis by simp
  next
    case False
    then have t: "origin = Task_tombstone" using assms(3) by (cases origin) simp_all
    have "q_flow rt sha q1"
    proof (rule q_flowI)
      show "q_pipeline q1"
        using h(4) t c q_flowD(1) [OF assms(1)] stage_tasks_cong [of q1 q] by (simp add: q_pipeline_def q1_def)
      show "q_digest rt q1" "q_once sha q1"
        using c by (simp_all add: q_digest_def q_once_def q1_def)
      have e: "op_stage q1 = op_stage q" "op_pushes q1 = op_pushes q" "op_closed q1"
        using c by (simp_all add: q1_def)
      show "q_reserved rt sha q1"
        using q_flowD(3) [OF assms(1)] undo_fits_closed [OF _ e(3)] unfolding q_reserved_def p e by blast
      show "q_history rt sha q1"
        using q_flowD(5) [OF assms(1)] unfolding q_history_def p by (simp add: q1_def)
    qed
    with False show ?thesis by simp
  qed
qed

lemma late_never_delivers:
  "fst (late_with_digest slot b fp a) \<noteq> Inr (Deliver final u)"
  "late_progress p \<noteq> Finished (Inr (Deliver final u))"
  by (auto simp add: late_with_digest_def late_progress_def split: sum.splits progress.splits)

lemma reserve_delivers:
  assumes "reserve rt (op_authority q) m = Finished (Inr (Deliver final u))"
  shows "proper_answer rt q m" "sm_kind m \<noteq> Peer_candidate" "replaySlot (sm_kind m) = None" "\<not> final" "u = Undo_nothing"
    "oa_state (op_authority q) = CS_active"
  using assms by (auto simp add: reserve_def proper_answer_def bindE_eq_Inr
      split: if_splits sum.splits late_route.splits option.splits)

lemma reserve_hashes:
  assumes "reserve rt (op_authority q) m = Hashing u" "op_closed q \<longleftrightarrow> oa_state (op_authority q) \<noteq> CS_active"
  shows "digest_fits rt q u Task_reserve m"
  using assms by (auto simp add: reserve_def proper_answer_def bindE_eq_Inr digest_fits_def
      split: if_splits sum.splits late_route.splits option.splits)

lemma accept_late_hashes:
  assumes "late_progress (accept_late rt a m) = Hashing u"
  shows "\<exists>slot b. u = Hash_late slot b"
  using assms by (auto simp add: accept_late_def late_progress_def split: if_splits sum.splits late_route.splits progress.splits)

lemma with_digest_fields:
  "oa_requestKind (snd (with_digest u fp m a)) = oa_requestKind a"
  "oa_peerBinding (snd (with_digest u fp m a)) = oa_peerBinding a"
  "oa_state (snd (with_digest u fp m a)) = oa_state a"
  by (auto simp add: with_digest_def reserveCandidate_def reserveReplaySlot_def late_with_digest_def acceptFingerprint_def
      split: digest_use.splits late_route.splits option.splits sum.splits)

lemma with_digest_inactive:
  "oa_state a \<noteq> CS_active \<Longrightarrow> fst (with_digest u fp m a) \<noteq> Inr (Deliver final e)"
  using late_never_delivers(1)
  by (auto simp add: with_digest_def reserveCandidate_def reserveReplaySlot_def split: digest_use.splits late_route.splits)

lemma slot_not_candidate: "replaySlot k = Some slot \<Longrightarrow> k \<noteq> Peer_candidate"
  "replaySlot k = None \<Longrightarrow> \<not> isFinalResponse k \<and> k \<noteq> Peer_answer" "replaySlot k = Some Slot_peer_answer \<longleftrightarrow> k = Peer_answer"
  by (auto simp add: replaySlot_def isFinalResponse_def split: if_splits)

section \<open>Every step keeps the flow\<close>

lemma op_push_flow:
  assumes "q_flow rt sha q"
  shows "q_flow rt sha (op_push m q)"
proof -
  have hd: "op_stage q \<noteq> Push_idle \<Longrightarrow> hd (op_pushes q @ [m]) = hd (op_pushes q)"
    using q_flowD(1) [OF assms] by (simp add: q_pipeline_def)
  have st: "stage_tasks (op_push m q) = stage_tasks q" and fl: "inflight (op_push m q) = inflight q"
    using hd by (auto simp add: stage_tasks_def inflight_def op_push_def split: push_stage.splits sum.splits reservation.splits)
  have e: "op_digest (op_push m q) = op_digest q" "op_tail (op_push m q) = op_tail q" "op_closed (op_push m q) = op_closed q"
    "op_delivered (op_push m q) = op_delivered q" "op_authority (op_push m q) = op_authority q"
    "op_stage (op_push m q) = op_stage q" "op_pushes (op_push m q) = op_pushes q @ [m]" "op_routed (op_push m q) = op_routed q @ [m]"
    by (simp_all add: op_push_def)
  note c = fits_cong [OF e(5,3)]
  show ?thesis
  proof (rule q_flowI)
    show "q_pipeline (op_push m q)"
      using q_flowD(1) [OF assms] unfolding q_pipeline_def st e by simp
    show "q_digest rt (op_push m q)"
      using q_flowD(2) [OF assms] unfolding q_digest_def c e .
    show "q_reserved rt sha (op_push m q)"
      using q_flowD(3) [OF assms] hd unfolding q_reserved_def c e by auto
    show "q_once sha (op_push m q)"
      using q_flowD(4) [OF assms] unfolding q_once_def fl e .
    show "q_history rt sha (op_push m q)"
      using q_flowD(5) [OF assms] unfolding q_history_def c e by simp
  qed
qed

lemma tail_append_flow:
  assumes "q_flow rt sha q" "q' = q\<lparr>op_stage := stage, op_tail := op_tail q @ [(origin, m)]\<rparr>"
    and "op_stage q = Push_idle \<and> op_pushes q \<noteq> [] \<and> m = hd (op_pushes q) \<and>
        (stage = Push_reserving \<and> origin = Task_reserve \<or> stage = Push_late \<and> origin = Task_late \<and> op_closed q) \<or>
      stage = op_stage q \<and> origin = Task_tombstone \<and> op_closed q"
  shows "q_flow rt sha q'"
proof -
  have e: "op_digest q' = op_digest q" "op_tail q' = op_tail q @ [(origin, m)]" "op_pushes q' = op_pushes q" "op_closed q' = op_closed q"
    "op_delivered q' = op_delivered q" "op_routed q' = op_routed q" "op_authority q' = op_authority q" "op_stage q' = stage"
    by (simp_all add: assms(2))
  note c = fits_cong [OF e(7,4)]
  have fl: "inflight q' = inflight q"
    using assms(3) e by (auto simp add: inflight_def split: push_stage.splits sum.splits reservation.splits)
  show ?thesis
  proof (rule q_flowI)
    show "q_pipeline q'"
      using q_flowD(1) [OF assms(1)] assms(3) stage_tasks_cong [of q' q] unfolding q_pipeline_def e
      by (auto simp add: stage_tasks_def e)
    show "q_digest rt q'"
      using q_flowD(2) [OF assms(1)] unfolding q_digest_def c e by auto
    have "stage = Push_reserved x \<Longrightarrow> op_stage q = Push_reserved x" for x
      using assms(3) by auto
    then show "q_reserved rt sha q'"
      using q_flowD(3) [OF assms(1)] unfolding q_reserved_def c e by blast
    show "q_once sha q'"
      using q_flowD(4) [OF assms(1)] unfolding q_once_def fl e .
    show "q_history rt sha q'"
      using q_flowD(5) [OF assms(1)] unfolding q_history_def c e .
  qed
qed

lemma push_start_flow:
  assumes "q_flow rt sha q" "q_consumer q"
  shows "q_flow rt sha (push_start q)"
proof (cases "op_stage q = Push_idle \<and> op_pushes q \<noteq> []")
  case True
  then obtain m ms where p: "op_pushes q = m # ms" "op_stage q = Push_idle" by (cases "op_pushes q") auto
  show ?thesis
  proof (cases "op_closed q")
    case c: True
    show ?thesis
      by (rule tail_append_flow [OF assms(1), where stage = Push_late and origin = Task_late and m = m]) (use p c in \<open>simp_all add: push_start_def\<close>)
  next
    case c: False
    then have "op_failure q = None" using assms(2) by (auto simp add: q_consumer_def)
    with c show ?thesis
      by (intro tail_append_flow [OF assms(1), where stage = Push_reserving and origin = Task_reserve and m = m]) (use p in \<open>simp_all add: push_start_def\<close>)
  qed
qed (use assms in \<open>auto simp add: push_start_def split: list.splits\<close>)

lemma tombstone_accept_flow: "q_flow rt sha q \<Longrightarrow> op_closed q \<Longrightarrow> q_flow rt sha (tombstone_accept m q)"
  by (erule tail_append_flow [where stage = "op_stage q" and origin = Task_tombstone and m = m]) (simp_all add: tombstone_accept_def)

lemma inflight_reserving: "op_stage q = Push_reserving \<Longrightarrow> inflight q = []"
  by (simp add: inflight_def)

lemma authority_start_flow:
  assumes "q_flow rt sha q" "q_consumer q"
  shows "q_flow rt sha (fst (authority_start rt q))"
proof (cases "op_digest q = None \<and> op_tail q \<noteq> []")
  case True
  then obtain origin m ts where t: "op_tail q = (origin, m) # ts" by (cases "op_tail q") auto
  note h = pipeline_head [OF q_flowD(1) [OF assms(1)] t]
  have st: "op_closed q \<longleftrightarrow> oa_state (op_authority q) \<noteq> CS_active"
    using assms(2) by (simp add: q_consumer_def)
  show ?thesis
  proof (cases "origin = Task_reserve")
    case o: True
    note s = h(1) [OF o, THEN conjunct1]
    show ?thesis
    proof (cases "reserve rt (op_authority q) m")
      case (Hashing u)
      have "digest_fits rt q u Task_reserve m"
        by (rule reserve_hashes [OF Hashing st])
      then have "q_digest rt (q\<lparr>op_digest := Some u\<rparr>)"
        using t o fits_cong(1) [of "q\<lparr>op_digest := Some u\<rparr>" q rt] by (simp add: q_digest_def)
      moreover have "q_pipeline (q\<lparr>op_digest := Some u\<rparr>)" "q_reserved rt sha (q\<lparr>op_digest := Some u\<rparr>)"
        "q_once sha (q\<lparr>op_digest := Some u\<rparr>)" "q_history rt sha (q\<lparr>op_digest := Some u\<rparr>)"
        using q_flowD [OF assms(1)] fits_cong [of "q\<lparr>op_digest := Some u\<rparr>" q]
          stage_tasks_cong [of "q\<lparr>op_digest := Some u\<rparr>" q] inflight_cong [of "q\<lparr>op_digest := Some u\<rparr>" q]
        by (simp_all add: q_pipeline_def q_reserved_def q_once_def q_history_def)
      ultimately show ?thesis
        using True t o Hashing by (simp add: authority_start_def q_flow_def)
    next
      case (Finished res)
      define q' where "q' = q\<lparr>op_authority := op_authority q, op_tail := ts, op_digest := None, op_stage := Push_reserved res\<rparr>"
      have "q_flow rt sha q'"
      proof (rule reserve_done_flow [OF assms(1) t [unfolded o] refl refl, where res = res, folded q'_def])
        fix final u assume r: "res = Inr (Deliver final u)"
        show "proper_answer rt q m \<and> final = isFinalResponse (sm_kind m) \<and> undo_fits sha q' m u"
          using reserve_delivers [OF Finished [unfolded r]] slot_not_candidate(2) by (simp add: undo_fits_def)
      next
        have "candidates (inflight q') = []" "peer_answers (inflight q') = []"
          using reserve_delivers [of rt q m] Finished slot_not_candidate(2) h(1) [OF o]
          by (auto simp add: inflight_def q'_def split: sum.splits reservation.splits)
        then show "q_once sha q'"
          using q_flowD(4) [OF assms(1)] inflight_reserving [OF s] by (simp add: q_once_def q'_def)
      qed
      then show ?thesis
        using True t o Finished by (simp add: authority_start_def task_done_def q'_def Let_def)
    qed
  next
    case o: False
    have c: "op_closed q" using h(5) [OF o] .
    show ?thesis
    proof (cases "late_progress (accept_late rt (op_authority q) m)")
      case (Hashing u)
      obtain slot b where u: "u = Hash_late slot b" using accept_late_hashes [OF Hashing] by blast
      have "q_digest rt (q\<lparr>op_digest := Some u\<rparr>)"
        using t c u by (simp add: q_digest_def digest_fits_def)
      moreover have "q_pipeline (q\<lparr>op_digest := Some u\<rparr>)" "q_reserved rt sha (q\<lparr>op_digest := Some u\<rparr>)"
        "q_once sha (q\<lparr>op_digest := Some u\<rparr>)" "q_history rt sha (q\<lparr>op_digest := Some u\<rparr>)"
        using q_flowD [OF assms(1)] fits_cong [of "q\<lparr>op_digest := Some u\<rparr>" q]
          stage_tasks_cong [of "q\<lparr>op_digest := Some u\<rparr>" q] inflight_cong [of "q\<lparr>op_digest := Some u\<rparr>" q]
        by (simp_all add: q_pipeline_def q_reserved_def q_once_def q_history_def)
      ultimately show ?thesis
        using True t o Hashing by (simp add: authority_start_def q_flow_def)
    next
      case (Finished res)
      show ?thesis
        using late_done_flow [OF assms(1) t o refl refl] True t o Finished
        by (cases origin) (simp_all add: authority_start_def task_done_def Let_def)
    qed
  qed
qed (use assms in \<open>auto simp add: authority_start_def split: list.splits\<close>)

text \<open>A candidate that gets its digest while the operation is open.\<close>

lemma candidate_once:
  assumes "q_once sha q" "\<not> op_closed q" "oa_overflow (op_authority q) = None" "sm_kind m = Peer_candidate" "inflight q = []"
    and "reserveCandidate (messageFingerprint sha m) (op_authority q) = (res, a)" "oa_state (op_authority q) = CS_active"
    and "op_delivered q' = op_delivered q" "op_authority q' = a" "op_closed q' = op_closed q"
    and "op_stage q' = Push_reserved res" "hd (op_pushes q') = m"
  shows "q_once sha q'" "res = Inr (Deliver final u) \<Longrightarrow> \<not> final \<and> undo_fits sha q' m u"
proof -
  define fp where "fp = messageFingerprint sha m"
  have o: "map (messageFingerprint sha) (candidates (op_delivered q)) = oa_candidates (op_authority q)"
    "distinct (oa_candidates (op_authority q))" "length (oa_candidates (op_authority q)) \<le> MAXIMUM_PEER_CANDIDATES"
    "length (peer_answers (op_delivered q)) \<le> 1"
    "peer_answers (op_delivered q) \<noteq> [] \<longrightarrow> oa_fingerprints (op_authority q) Slot_peer_answer \<noteq> None"
    using assms(1-3,5) by (simp_all add: q_once_def overflow_list_def)
  consider (drop) "res = Inr Drop" "a = op_authority q"
    | (add) "fp \<notin> set (oa_candidates (op_authority q))" "length (oa_candidates (op_authority q)) < MAXIMUM_PEER_CANDIDATES"
      "res = Inr (Deliver False (Undo_candidate fp))" "a = (op_authority q)\<lparr>oa_candidates := oa_candidates (op_authority q) @ [fp]\<rparr>"
    | (over) "fp \<notin> set (oa_candidates (op_authority q))" "res = Inr (Deliver False (Undo_overflow fp))"
      "a = (op_authority q)\<lparr>oa_overflow := Some fp\<rparr>"
    using assms(6,7) by (auto simp add: reserveCandidate_def fp_def split: if_splits)
  then show "q_once sha q'"
  proof cases
    case drop
    then have "inflight q' = []" using assms(11) by (simp add: inflight_def)
    then show ?thesis using o assms(3,8-10) drop by (simp add: q_once_def overflow_list_def)
  next
    case add
    then have "inflight q' = [m]" using assms(11,12) by (simp add: inflight_def)
    then show ?thesis using o assms(3,4,8-10) add by (simp add: q_once_def overflow_list_def fp_def)
  next
    case over
    then have "inflight q' = [m]" using assms(11,12) by (simp add: inflight_def)
    then show ?thesis using o assms(3,4,8-10) over by (simp add: q_once_def overflow_list_def fp_def)
  qed
  assume "res = Inr (Deliver final u)"
  then show "\<not> final \<and> undo_fits sha q' m u"
    using assms(3,4,6,7) unfolding undo_fits_def assms(9) by (auto simp add: reserveCandidate_def split: if_splits)
qed

text \<open>A final message or an answer that gets its digest while the operation is open.\<close>

lemma replay_once:
  assumes "q_once sha q" "\<not> op_closed q" "replaySlot (sm_kind m) = Some slot" "inflight q = []"
    and "reserveReplaySlot slot (messageFingerprint sha m) m (op_authority q) = (res, a)" "oa_state (op_authority q) = CS_active"
    and "op_delivered q' = op_delivered q" "op_authority q' = a" "op_closed q' = op_closed q"
    and "op_stage q' = Push_reserved res" "hd (op_pushes q') = m"
  shows "q_once sha q'" "res = Inr (Deliver final u) \<Longrightarrow> final = isFinalResponse (sm_kind m) \<and> undo_fits sha q' m u"
proof -
  note k = slot_not_candidate(1) [OF assms(3)] slot_not_candidate(3) [of "sm_kind m"]
  consider (same) "inflight q' = []" "a = op_authority q"
    | (new) "oa_fingerprints (op_authority q) slot = None" "inflight q' = [m]"
      "a = (op_authority q)\<lparr>oa_fingerprints := (oa_fingerprints (op_authority q))(slot \<mapsto> messageFingerprint sha m)\<rparr>"
    using assms(5,6,10,11) by (auto simp add: reserveReplaySlot_def inflight_def split: option.splits if_splits)
  then show "q_once sha q'"
  proof cases
    case same
    then show ?thesis using assms(1,2,4,7-9) by (simp add: q_once_def)
  next
    case new
    have "sm_kind m = Peer_answer \<Longrightarrow> peer_answers (op_delivered q) = []"
      using new(1) assms(1-4) k(2) by (auto simp add: q_once_def)
    moreover have "slot = Slot_peer_answer \<longleftrightarrow> sm_kind m = Peer_answer"
      using k(2) assms(3) by auto
    ultimately show ?thesis using assms(1,2,4,7-9) new k(1) by (auto simp add: q_once_def overflow_list_def)
  qed
  assume "res = Inr (Deliver final u)"
  then show "final = isFinalResponse (sm_kind m) \<and> undo_fits sha q' m u"
    using assms(3,5,6) k(1) by (auto simp add: reserveReplaySlot_def undo_fits_def split: option.splits if_splits)
qed

lemma digest_ready_flow:
  assumes "q_flow rt sha q" "q_consumer q"
  shows "q_flow rt sha (fst (digest_ready sha q))"
proof (cases "op_digest q")
  case (Some u)
  obtain origin m ts where t: "op_tail q = (origin, m) # ts" and f: "digest_fits rt q u origin m"
    using q_flowD(2) [OF assms(1)] Some by (auto simp add: q_digest_def)
  note h = pipeline_head [OF q_flowD(1) [OF assms(1)] t]
  have st: "op_closed q \<longleftrightarrow> oa_state (op_authority q) \<noteq> CS_active"
    using assms(2) by (simp add: q_consumer_def)
  obtain res a where w: "with_digest u (messageFingerprint sha m) m (op_authority q) = (res, a)" by fastforce
  note fields = with_digest_fields [of u "messageFingerprint sha m" m "op_authority q", unfolded w snd_conv]
  show ?thesis
  proof (cases "origin = Task_reserve")
    case o: True
    define q' where "q' = q\<lparr>op_authority := a, op_tail := ts, op_digest := None, op_stage := Push_reserved res\<rparr>"
    have hd: "op_stage q = Push_reserving" "hd (op_pushes q') = m" using h(1) [OF o] by (simp_all add: q'_def)
    note fl = inflight_reserving [OF hd(1)]
    have q': "op_delivered q' = op_delivered q" "op_authority q' = a" "op_closed q' = op_closed q" "op_stage q' = Push_reserved res"
      by (simp_all add: q'_def)
    have both: "q_once sha q' \<and> (\<forall>final e. res = Inr (Deliver final e) \<longrightarrow>
        proper_answer rt q m \<and> final = isFinalResponse (sm_kind m) \<and> undo_fits sha q' m e)"
    proof (cases "op_closed q")
      case True
      then have "res \<noteq> Inr (Deliver final e)" for final e
        using with_digest_inactive [of "op_authority q" u "messageFingerprint sha m" m] st w by simp
      then show ?thesis using True q' by (simp add: q_once_def)
    next
      case c: False
      then have act: "oa_state (op_authority q) = CS_active" using st by simp
      show ?thesis
      proof (cases u)
        case Hash_candidate
        have k: "sm_kind m = Peer_candidate" "oa_overflow (op_authority q) = None" "proper_answer rt q m"
          using f c by (simp_all add: digest_fits_def Hash_candidate)
        have r: "reserveCandidate (messageFingerprint sha m) (op_authority q) = (res, a)"
          using w by (simp add: with_digest_def Hash_candidate)
        note x = candidate_once [OF q_flowD(4) [OF assms(1)] c k(2,1) fl r act q' hd(2)]
        have "\<not> isFinalResponse (sm_kind m)" using k(1) by (simp add: isFinalResponse_def)
        with x k(3) show ?thesis by blast
      next
        case (Hash_replay slot)
        have k: "replaySlot (sm_kind m) = Some slot" "proper_answer rt q m"
          using f by (simp_all add: digest_fits_def Hash_replay)
        have r: "reserveReplaySlot slot (messageFingerprint sha m) m (op_authority q) = (res, a)"
          using w by (simp add: with_digest_def Hash_replay)
        note x = replay_once [OF q_flowD(4) [OF assms(1)] c k(1) fl r act q' hd(2)]
        with k(2) show ?thesis by blast
      next
        case (Hash_late slot b)
        then show ?thesis using f c by (simp add: digest_fits_def)
      qed
    qed
    have "q_flow rt sha q'"
      using both by (intro reserve_done_flow [OF assms(1) t [unfolded o] fields(1,2), where res = res, folded q'_def]) blast+
    then show ?thesis
      using Some t o w by (simp add: digest_ready_def task_done_def q'_def Let_def)
  next
    case o: False
    show ?thesis
      using late_done_flow [OF assms(1) t o fields(1,2)] Some t o w
      by (cases origin) (simp_all add: digest_ready_def task_done_def Let_def push_done_def)
  qed
qed (use assms in \<open>simp add: digest_ready_def\<close>)

section \<open>The end of a push\<close>

lemma rollback_fields [simp]:
  "oa_requestKind (authority_rollback u a) = oa_requestKind a" "oa_peerBinding (authority_rollback u a) = oa_peerBinding a"
  "oa_state (authority_rollback u a) = oa_state a"
  by (simp_all add: authority_rollback_def split: rollback_effect.splits)

lemma no_push_tasks:
  assumes "q_pipeline q" "op_stage q = Push_reserved res"
  shows "filter (\<lambda>t. fst t \<noteq> Task_tombstone) (op_tail q) = []" "op_pushes q = hd (op_pushes q) # tl (op_pushes q)"
  using assms by (simp_all add: q_pipeline_def stage_tasks_def)

text \<open>A push that ends without delivering: it has no reservation, or gives it back.\<close>

lemma push_ends_flow:
  assumes "q_flow rt sha q" "op_stage q = Push_reserved res"
    and u: "case res of Inr (Deliver final u) \<Rightarrow> effect = u | _ \<Rightarrow> effect = Undo_nothing"
  shows "q_flow rt sha (push_done (op_rollback effect q))"
proof -
  define q' where "q' = push_done (op_rollback effect q)"
  note n = no_push_tasks [OF q_flowD(1) [OF assms(1)] assms(2)]
  have e: "op_tail q' = op_tail q" "op_digest q' = op_digest q" "op_closed q' = op_closed q" "op_stage q' = Push_idle"
    "op_delivered q' = op_delivered q" "op_pushes q' = tl (op_pushes q)" "op_routed q' = op_routed q"
    "op_authority q' = authority_rollback effect (op_authority q)"
    by (simp_all add: q'_def push_done_def op_rollback_def)
  have pr: "proper_answer rt q' = proper_answer rt q"
    by (rule proper_cong) (simp_all add: e)
  have tail: "op_closed q \<or> op_tail q = []"
    using n(1) q_flowD(1) [OF assms(1)] by (cases "op_tail q") (auto simp add: q_pipeline_def)
  have "q_flow rt sha q'"
  proof (rule q_flowI)
    show "q_pipeline q'"
      using q_flowD(1) [OF assms(1)] n(1) by (simp add: q_pipeline_def e stage_tasks_def)
    show "q_digest rt q'"
      using q_flowD(2) [OF assms(1)] tail digest_fits_closed [of rt q _ _ _ q'] e(3) pr unfolding q_digest_def e
      by (metis list.distinct(1))
    show "q_reserved rt sha q'" by (simp add: q_reserved_def e)
    show "q_history rt sha q'"
      by (rule pop_history [OF q_flowD(5) [OF assms(1)]]) (use n(2) pr e in auto)
    show "q_once sha q'"
    proof (cases "op_closed q")
      case c: False
      define m where "m = hd (op_pushes q)"
      have fl: "inflight q' = []" by (simp add: inflight_def e)
      note o = q_flowD(4) [OF assms(1)]
      show ?thesis
      proof (cases "\<exists>final. res = Inr (Deliver final effect)")
        case True
        then obtain final where r: "res = Inr (Deliver final effect)" by blast
        have i: "inflight q = [m]" using assms(2) r by (simp add: inflight_def m_def)
        have "undo_fits sha q m effect"
          using q_flowD(3) [OF assms(1)] assms(2) r by (simp add: q_reserved_def m_def)
        then consider (cand) "sm_kind m = Peer_candidate" "effect = Undo_candidate (messageFingerprint sha m)"
            "oa_overflow (op_authority q) = None"
          | (over) "sm_kind m = Peer_candidate" "effect = Undo_overflow (messageFingerprint sha m)"
            "oa_overflow (op_authority q) = Some (messageFingerprint sha m)"
          | (slot) slot where "replaySlot (sm_kind m) = Some slot" "effect = Undo_slot slot (messageFingerprint sha m)"
          | (none) "sm_kind m \<noteq> Peer_candidate" "sm_kind m \<noteq> Peer_answer" "effect = Undo_nothing"
          using c slot_not_candidate(2) by (auto simp add: undo_fits_def split: if_splits option.splits)
        then show ?thesis
        proof cases
          case cand
          then have "oa_candidates (op_authority q) = map (messageFingerprint sha) (candidates (op_delivered q)) @ [messageFingerprint sha m]"
            using o c i by (simp add: q_once_def overflow_list_def)
          then show ?thesis
            using o c i cand fl unfolding q_once_def e by (auto simp add: authority_rollback_def overflow_list_def)
        next
          case over
          then show ?thesis
            using o c i fl unfolding q_once_def e by (auto simp add: authority_rollback_def overflow_list_def)
        next
          case slot
          then show ?thesis
            using o c i fl slot_not_candidate(1) [OF slot(1)] slot_not_candidate(3) [of "sm_kind m"] unfolding q_once_def e
            by (auto simp add: authority_rollback_def overflow_list_def)
        next
          case none
          then show ?thesis
            using o c i fl unfolding q_once_def e by (simp add: authority_rollback_def overflow_list_def)
        qed
      next
        case False
        then have "effect = Undo_nothing" "inflight q = []"
          using u assms(2) by (auto simp add: inflight_def split: sum.splits reservation.splits)
        then show ?thesis using o c fl unfolding q_once_def e by (simp add: authority_rollback_def)
      qed
    qed (simp add: q_once_def e)
  qed
  then show ?thesis by (simp add: q'_def)
qed

lemma push_too_late_flow:
  assumes "q_flow rt sha q" "op_closed q" "op_stage q = Push_reserved res"
  shows "q_flow rt sha (push_too_late effect q)"
proof -
  note n = no_push_tasks [OF q_flowD(1) [OF assms(1)] assms(3)]
  define q' where "q' = push_too_late effect q"
  obtain m ms where p: "op_pushes q = m # ms" using n(2) by blast
  have e: "op_tail q' = op_tail q @ [(Task_late, m)]" "op_digest q' = op_digest q" "op_closed q' = op_closed q"
    "op_stage q' = Push_late" "op_delivered q' = op_delivered q" "op_pushes q' = op_pushes q" "op_routed q' = op_routed q"
    "op_authority q' = authority_rollback effect (op_authority q)"
    by (simp_all add: q'_def push_too_late_def op_rollback_def p)
  have pr: "proper_answer rt q' = proper_answer rt q"
    by (rule proper_cong) (simp_all add: e)
  have "q_flow rt sha q'"
  proof (rule q_flowI)
    show "q_pipeline q'"
      using n(1) assms(2) by (simp add: q_pipeline_def e stage_tasks_def p)
    show "q_digest rt q'"
      using q_flowD(2) [OF assms(1)] assms(2) digest_fits_closed [of rt q _ _ _ q'] e(3) pr unfolding q_digest_def e
      by (metis append_Cons)
    show "q_reserved rt sha q'" "q_once sha q'"
      using assms(2) by (simp_all add: q_reserved_def q_once_def e)
    show "q_history rt sha q'"
      using q_flowD(5) [OF assms(1)] unfolding q_history_def pr e .
  qed
  then show ?thesis by (simp add: q'_def)
qed

text \<open>A delivery; a final message closes the operation in the same step.\<close>

lemma deliver_flow:
  assumes "q_flow rt sha q" "\<not> op_closed q" "op_stage q = Push_reserved (Inr (Deliver final u))"
  defines "q1 \<equiv> push_done (hand_over (hd (op_pushes q)) q)"
  shows "q_flow rt sha (if final then q1\<lparr>op_closed := True\<rparr> else q1)"
proof -
  define m where "m = hd (op_pushes q)"
  define q' where "q' = (if final then q1\<lparr>op_closed := True\<rparr> else q1)"
  note n = no_push_tasks [OF q_flowD(1) [OF assms(1)] assms(3)]
  have tail: "op_tail q = []"
    using n(1) q_flowD(1) [OF assms(1)] assms(2) by (cases "op_tail q") (auto simp add: q_pipeline_def)
  have "op_digest q = None"
    using q_flowD(2) [OF assms(1)] tail by (auto simp add: q_digest_def)
  then have e: "op_tail q' = []" "op_digest q' = None" "op_closed q' = final"
    "op_stage q' = Push_idle" "op_delivered q' = op_delivered q @ [m]" "op_pushes q' = tl (op_pushes q)"
    "op_routed q' = op_routed q" "op_authority q' = op_authority q"
    using tail assms(2) by (simp_all add: q'_def q1_def m_def push_done_def hand_over_def split: list.splits)
  have pr: "proper_answer rt q' = proper_answer rt q"
    by (rule proper_cong) (simp_all add: e)
  have r: "proper_answer rt q m" "final = isFinalResponse (sm_kind m)"
    using q_flowD(3) [OF assms(1)] assms(3) by (simp_all add: q_reserved_def m_def)
  have i: "inflight q = [m]" using assms(3) by (simp add: inflight_def m_def)
  note o = q_flowD(4) [OF assms(1)] and h = q_flowD(5) [OF assms(1)]
  have "q_flow rt sha q'"
  proof (rule q_flowI)
    show "q_pipeline q'" "q_digest rt q'" "q_reserved rt sha q'"
      by (simp_all add: q_pipeline_def q_digest_def q_reserved_def e stage_tasks_def)
    show "q_once sha q'"
      using o assms(2) i unfolding q_once_def e by (simp add: inflight_def e)
    obtain handled where hd: "op_routed q = handled @ op_pushes q" "subseq (op_delivered q) handled"
      using h by (auto simp add: q_history_def)
    have "subseq (op_delivered q @ [m]) (handled @ [m])"
      using hd(2) by (simp add: list_emb_append_mono)
    moreover have "op_routed q = (handled @ [m]) @ tl (op_pushes q)"
      using hd(1) n(2) by (simp add: m_def)
    ultimately have x: "\<exists>h. op_routed q = h @ tl (op_pushes q) \<and> subseq (op_delivered q @ [m]) h" by blast
    have fp: "map (messageFingerprint sha) (candidates (op_delivered q @ [m])) =
        oa_candidates (op_authority q) @ overflow_list (op_authority q)"
      "distinct (oa_candidates (op_authority q) @ overflow_list (op_authority q))"
      "length (oa_candidates (op_authority q)) \<le> MAXIMUM_PEER_CANDIDATES" "length (peer_answers (op_delivered q @ [m])) \<le> 1"
      using o assms(2) i by (simp_all add: q_once_def)
    have len: "length (candidates (op_delivered q @ [m])) \<le> MAXIMUM_PEER_CANDIDATES + 1"
      using arg_cong [OF fp(1), of length] fp(3) by (simp add: overflow_list_def split: option.splits)
    show "q_history rt sha q'"
      unfolding q_history_def pr e
    proof (intro conjI)
      show "list_all (proper_answer rt q) (op_delivered q @ [m])" using h r(1) by (simp add: q_history_def)
      show "\<exists>handled. op_routed q = handled @ tl (op_pushes q) \<and> subseq (op_delivered q @ [m]) handled" by (rule x)
      show "list_all (\<lambda>m. \<not> isFinalResponse (sm_kind m)) (butlast (op_delivered q @ [m]))"
        "\<not> final \<longrightarrow> list_all (\<lambda>m. \<not> isFinalResponse (sm_kind m)) (op_delivered q @ [m])"
        using h assms(2) r(2) by (simp_all add: q_history_def)
      show "distinct (map (messageFingerprint sha) (candidates (op_delivered q @ [m])))"
        using fp(1,2) by simp
    qed (rule len fp(4))+
  qed
  then show ?thesis by (simp add: q'_def)
qed

section \<open>The invariant of an operation\<close>

definition op_ok :: "cbor_runtime \<Rightarrow> (bytes \<Rightarrow> bytes) \<Rightarrow> session_operation \<Rightarrow> bool" where
  "op_ok rt sha q \<longleftrightarrow> q_consumer q \<and> q_reading q \<and> q_flow rt sha q"

definition same_consumer :: "session_operation \<Rightarrow> session_operation \<Rightarrow> bool" where
  "same_consumer q q' \<longleftrightarrow> op_id q' = op_id q \<and> op_messages q' = op_messages q \<and> op_readers q' = op_readers q \<and>
     op_reads q' = op_reads q \<and> op_failure q' = op_failure q \<and> op_settlement q' = op_settlement q \<and>
     op_closed q' = op_closed q \<and> op_consumerSettled q' = op_consumerSettled q \<and> op_cleanups q' = op_cleanups q \<and>
     op_answers q' = op_answers q \<and> op_delivered q' = op_delivered q \<and>
     oa_state (op_authority q') = oa_state (op_authority q) \<and>
     oa_peerBinding (op_authority q') = oa_peerBinding (op_authority q) \<and>
     oa_requestKind (op_authority q') = oa_requestKind (op_authority q)"

lemma same_consumer_kept:
  "same_consumer q q' \<Longrightarrow> q_consumer q' = q_consumer q" "same_consumer q q' \<Longrightarrow> q_reading q' = q_reading q"
  by (simp_all add: same_consumer_def q_consumer_def q_reading_def reads_def)

lemma same_consumer_steps:
  "same_consumer q (op_push m q)" "same_consumer q (push_start q)" "same_consumer q (tombstone_accept m q)"
  "same_consumer q (push_done q)" "same_consumer q (op_rollback u q)" "same_consumer q (push_too_late u q)"
  "same_consumer q (push_done (op_rollback u q))"
  by (simp_all add: same_consumer_def op_defs split: list.splits)

lemma same_consumer_authority: "same_consumer q (fst (authority_start rt q))" "same_consumer q (fst (digest_ready sha q))"
proof -
  have t: "same_consumer q (fst (task_done res (q\<lparr>op_authority := a\<rparr>)))"
    if "oa_state a = oa_state (op_authority q)" "oa_peerBinding a = oa_peerBinding (op_authority q)"
      "oa_requestKind a = oa_requestKind (op_authority q)" for res a
    using that by (auto simp add: task_done_def same_consumer_def push_done_def Let_def split: list.splits task_origin.splits)
  have r: "same_consumer q q" by (simp add: same_consumer_def)
  show "same_consumer q (fst (authority_start rt q))"
    using t [of "op_authority q"] r
    by (auto simp add: authority_start_def split: list.splits progress.splits) (simp_all add: same_consumer_def)
  show "same_consumer q (fst (digest_ready sha q))"
    using t r with_digest_fields by (auto simp add: digest_ready_def split: option.splits list.splits prod.splits) (metis prod.sel(2))+
qed

lemma op_ok_flow_steps:
  assumes "op_ok rt sha q"
  shows "op_ok rt sha (op_push m q)" "op_ok rt sha (push_start q)" "op_closed q \<Longrightarrow> op_ok rt sha (tombstone_accept m q)"
    "op_ok rt sha (fst (authority_start rt q))" "op_ok rt sha (fst (digest_ready sha q))"
    "op_closed q \<Longrightarrow> op_stage q = Push_reserved res \<Longrightarrow> op_ok rt sha (push_too_late u q)"
    "op_stage q = Push_reserved res \<Longrightarrow> (case res of Inr (Deliver final u) \<Rightarrow> effect = u | _ \<Rightarrow> effect = Undo_nothing) \<Longrightarrow>
     op_ok rt sha (push_done (op_rollback effect q))"
proof -
  have q: "q_consumer q" "q_reading q" "q_flow rt sha q" using assms by (simp_all add: op_ok_def)
  note k = same_consumer_kept [OF same_consumer_steps(1), of m q] same_consumer_kept [OF same_consumer_steps(2), of q]
    same_consumer_kept [OF same_consumer_steps(3), of m q] same_consumer_kept [OF same_consumer_steps(6), of u q]
    same_consumer_kept [OF same_consumer_steps(7), of effect q] same_consumer_kept [OF same_consumer_authority(1), of rt q]
    same_consumer_kept [OF same_consumer_authority(2), of sha q]
  show "op_ok rt sha (op_push m q)" "op_ok rt sha (push_start q)" "op_closed q \<Longrightarrow> op_ok rt sha (tombstone_accept m q)"
    "op_ok rt sha (fst (authority_start rt q))" "op_ok rt sha (fst (digest_ready sha q))"
    unfolding op_ok_def k using q op_push_flow push_start_flow tombstone_accept_flow authority_start_flow digest_ready_flow by blast+
  show "op_closed q \<Longrightarrow> op_stage q = Push_reserved res \<Longrightarrow> op_ok rt sha (push_too_late u q)"
    unfolding op_ok_def k using q push_too_late_flow by blast
  show "op_stage q = Push_reserved res \<Longrightarrow> (case res of Inr (Deliver final u) \<Rightarrow> effect = u | _ \<Rightarrow> effect = Undo_nothing) \<Longrightarrow>
     op_ok rt sha (push_done (op_rollback effect q))"
    unfolding op_ok_def k using q push_ends_flow [of rt sha q res effect] by blast
qed

lemma op_ok_closings:
  assumes "op_ok rt sha q"
  shows "op_ok rt sha (fst (op_finish b q))" "op_ok rt sha (fst (endInput r c q))" "op_ok rt sha (fst (op_fail r q))"
    "op_ok rt sha (fst (op_cancel r q))" "op_ok rt sha (fst (op_close q))"
proof -
  have q: "q_consumer q" "q_reading q" "q_flow rt sha q" using assms by (simp_all add: op_ok_def)
  have c: "closing q q' \<Longrightarrow> q_consumer q' \<Longrightarrow> op_ok rt sha q'" for q'
    using q closing_reading closing_flow by (auto simp add: op_ok_def)
  show "op_ok rt sha (fst (op_finish b q))" "op_ok rt sha (fst (endInput r c q))" "op_ok rt sha (fst (op_fail r q))"
    "op_ok rt sha (fst (op_cancel r q))" "op_ok rt sha (fst (op_close q))"
    using settle_steps_consumer [OF q(1)] closings [of q] q(1) by (intro c; simp)+
qed

lemma op_ok_reads:
  assumes "op_ok rt sha q"
  shows "op_ok rt sha (fst (op_next q))" "op_ok rt sha (abort_read t q)" "op_ok rt sha (onSettled c q)"
    "op_closed q \<Longrightarrow> op_ok rt sha (closed_authority q)"
  using assms read_steps_consumer [of q] read_steps_reading [of q] op_next_reading [of q] closed_authority_flow [of q]
    same_flow_kept [OF next_same_flow(1)] same_flow_kept [OF next_same_flow(2)] same_flow_kept [OF next_same_flow(3)]
  by (simp_all add: op_ok_def)

text \<open>A delivery needs room in the queue, unless a read waits.\<close>

definition has_room :: "session_operation \<Rightarrow> bool" where
  "has_room q \<longleftrightarrow> op_readers q \<noteq> [] \<or> length (op_messages q) < SESSION_OPERATION_RESPONSE_QUEUE"

lemma op_ok_deliver:
  assumes "op_ok rt sha q" "\<not> op_closed q" "op_stage q = Push_reserved (Inr (Deliver final u))" "has_room q"
  defines "q1 \<equiv> push_done (hand_over (hd (op_pushes q)) q)"
  shows "op_ok rt sha (if final then fst (op_finish False q1) else q1)"
proof -
  have q: "q_consumer q" "q_reading q" "q_flow rt sha q" using assms(1) by (simp_all add: op_ok_def)
  have c: "q_consumer q1"
    using q(1) assms(2,4) by (auto simp add: q_consumer_def q1_def push_done_def hand_over_def has_room_def split: list.splits)
  have r: "q_reading q1"
    using q(1,2) assms(2) by (auto simp add: q_consumer_def q_reading_def reads_def q1_def push_done_def hand_over_def split: list.splits)
  have f: "q_flow rt sha (if final then q1\<lparr>op_closed := True\<rparr> else q1)"
    unfolding q1_def by (rule deliver_flow [OF q(3) assms(2,3)])
  show ?thesis
  proof (cases final)
    case True
    have k: "closing q1 (fst (op_finish False q1))" by (rule op_finish_closing)
    then have "closing (q1\<lparr>op_closed := True\<rparr>) (fst (op_finish False q1))" by (simp add: closing_def)
    then have "q_flow rt sha (fst (op_finish False q1))" using f True closing_flow by fastforce
    with True k c r show ?thesis using settle_steps_consumer(1) closing_reading by (auto simp add: op_ok_def)
  next
    case False
    with c r f show ?thesis by (simp add: op_ok_def)
  qed
qed

lemma op_ok_new: "new_operation rt oid kind body = Inr q \<Longrightarrow> op_ok rt sha q"
  using new_operation_consumer new_operation_flow by (auto simp add: op_ok_def)

section \<open>What an operation tells its owner\<close>

fun released :: "op_signal list \<Rightarrow> session_message list" where
  "released [] = []"
| "released (Release m # s) = m # released s"
| "released (_ # s) = released s"

fun announced :: "op_signal list \<Rightarrow> op_signal list" where
  "announced [] = []"
| "announced (Release m # s) = announced s"
| "announced (x # s) = x # announced s"

lemma released_append [simp]: "released (s @ t) = released s @ released t"
  by (induction s rule: released.induct) simp_all

lemma announced_append [simp]: "announced (s @ t) = announced s @ announced t"
  by (induction s rule: announced.induct) simp_all

lemma release_signals [simp]: "released (map Release ms) = ms" "announced (map Release ms) = []"
  by (induction ms) simp_all

text \<open>
  A step gives back exactly the admissions of the messages that leave the queue, announces that the operation is closed
  when it closes, and then that the consumer is done when it becomes so.
\<close>

definition step_ok :: "session_operation \<Rightarrow> session_operation \<times> op_signal list \<Rightarrow> bool" where
  "step_ok q p \<longleftrightarrow>
     op_id (fst p) = op_id q \<and> oa_peerBinding (op_authority (fst p)) = oa_peerBinding (op_authority q) \<and>
     oa_requestKind (op_authority (fst p)) = oa_requestKind (op_authority q) \<and>
     released (snd p) @ op_messages (fst p) = op_messages q \<and>
     (op_closed q \<longrightarrow> op_closed (fst p)) \<and> (op_consumerSettled q \<longrightarrow> op_consumerSettled (fst p)) \<and>
     (\<exists>s. announced (snd p) =
        (if \<not> op_closed q \<and> op_closed (fst p) then [On_close s] else []) @
        (if \<not> op_consumerSettled q \<and> op_consumerSettled (fst p) then [On_consumer_settled] else []))"

lemma step_ok_steps:
  assumes "q_consumer q"
  shows "step_ok q (op_finish b q)" "step_ok q (endInput r c q)" "step_ok q (op_fail r q)" "step_ok q (op_cancel r q)"
    "step_ok q (op_close q)" "step_ok q (op_next q)"
  using assms by (auto simp add: q_consumer_def step_ok_def op_defs Let_def split: list.splits)

end
