(* ===== verification/Spec2Isabelle.thy ===== *)
theory Spec2Isabelle
  imports Receive_Runs Geometry Content_Flow Lifecycle_Runs Writer_Runs Operation_Queue
begin

text \<open>
  Verification of the WindShare receiver, the TypeScript program under \<^verbatim>\<open>web/src\<close>. Paths below are relative to it.

  \<^bold>\<open>The program.\<close> A receiver obtains the files of a share from a sender. Frames travel over a relay connection or over
  peer connections (\<^verbatim>\<open>transport/\<close>). The relay protocol registers endpoints, routes opaque frames and accounts for
  them: every delivered envelope is charged to a window that the receive ledger gives back when the envelope has been
  consumed. Inside the opaque frames runs a session (\<^verbatim>\<open>session/\<close>): each lane of a session seals its messages into
  envelopes with a sequence number, the writer of a lane orders what is sent, and every message of the sender carries a
  signature over its place. An operation of a session has an identity, a queue of answers, and an authority that decides
  which answers it accepts. On top of operations the content flow requests blocks and puts their fragments together
  (\<^verbatim>\<open>content/\<close>), over the byte and block geometry of a file. Messages are deterministic CBOR (\<^verbatim>\<open>protocol/\<close>), names
  of files are checked by the path policy (\<^verbatim>\<open>catalog/\<close>, \<^verbatim>\<open>unicode/\<close>), and a receive operation goes through durable
  states whose records have a canonical encoding (\<^verbatim>\<open>transfer/\<close>).

  \<^bold>\<open>The theories.\<close> Each follows its source file: a record per class or interface, a datatype per union, one definition per
  function or method with the source's name where HOL leaves it free, and the exceptions as the left summand of a result.
  \<^item> \<open>Prelude\<close>, \<open>Wire\<close>: results, octets, the helpers of \<^verbatim>\<open>crypto/bytes.ts\<close>; the contract of a frame codec as
    locales, interpreted by every codec of the two relay theories.
  \<^item> \<open>Relay_Protocol\<close>, \<open>Relay_Delivery\<close>: \<^verbatim>\<open>transport/relay/protocol.ts\<close> and the \<^verbatim>\<open>delivery-*-codec.ts\<close> and
    \<^verbatim>\<open>receive-credit-codec.ts\<close> beside it. Frames have exactly one wire form, and signed preimages are unambiguous.
  \<^item> \<open>Receive_Ledger\<close>, \<open>Receive_Runs\<close>: \<^verbatim>\<open>transport/relay/receive-ledger/\<close> and its runs as an inductive step relation.
    The ledger refines the account that the peer keeps from the wire alone; receipts complete in order; feedback is
    encodable, never withheld and fair; settlements answer their notices.
  \<^item> \<open>Geometry\<close>: \<^verbatim>\<open>content/geometry.ts\<close>. Range sets are in normal form, their search and set operations are exact, and
    blocks partition a file.
  \<^item> \<open>Cbor\<close>, \<open>Cbor_Runtime\<close>: \<^verbatim>\<open>protocol/cbor-canonical.ts\<close>, \<^verbatim>\<open>protocol/cbor.ts\<close>, \<^verbatim>\<open>protocol/text.ts\<close>. The
    validator accepts exactly the deterministic encodings. \<open>cborg_contract\<close> is what the codecs rely on of the CBOR package.
  \<^item> \<open>Content_Flow\<close>: \<^verbatim>\<open>content/flow.ts\<close>. Fragments reassemble in any order, completed objects are authentic, and
    answers to open and lease requests are checked.
  \<^item> \<open>Unicode_Text\<close>, \<open>Path_Policy\<close>: \<^verbatim>\<open>unicode/unicode-normalization.ts\<close>, \<^verbatim>\<open>unicode/case-fold.ts\<close>,
    \<^verbatim>\<open>catalog/path-policy.ts\<close>. The streaming normaliser is NFC, and accepted paths are safe.
  \<^item> \<open>Canonical_Records\<close>: \<^verbatim>\<open>transfer/encoding/\<close>. The reader returns what the writer wrote, and domains are separate.
  \<^item> \<open>Lifecycle\<close>, \<open>Lifecycle_Runs\<close>: \<^verbatim>\<open>transfer/lifecycle/\<close>. The reducer refines the transitions that a plan allows,
    acts only for the addressed generation and lease, keeps packages and terminal states, and resumes what is continuable.
  \<^item> \<open>Session_Envelope\<close>: \<^verbatim>\<open>session/envelope.ts\<close>. What is opened is a prefix of what was sealed, and all of it when the
    frames arrive.
  \<^item> \<open>Peer_Controls\<close>: \<^verbatim>\<open>protocol/peer-path-control.ts\<close>, \<^verbatim>\<open>protocol/turn-control.ts\<close>,
    \<^verbatim>\<open>session/peer-slots/slots.ts\<close>. Controls round trip, and peer ordinals are issued once.
  \<^item> \<open>Session_Message\<close>: \<^verbatim>\<open>session/message.ts\<close>. Sender controls are accepted only in their place, messages have one wire
    form, and operation errors are closed.
  \<^item> \<open>Session_Writer\<close>, \<open>Writer_Runs\<close>: \<^verbatim>\<open>session/writer.ts\<close>, every stretch of code between two awaits as one step. Messages
    are committed once and in order, withdrawals are final, and the loop comes to rest.
  \<^item> \<open>Operation_Continuation\<close>, \<open>Operation_Queue\<close>: \<^verbatim>\<open>session/operations/issued-operations.ts\<close>,
    \<^verbatim>\<open>session/operation-error-contract.ts\<close>, \<^verbatim>\<open>session/operation-continuation.ts\<close> and class \<^verbatim>\<open>OperationQueue\<close> of
    \<^verbatim>\<open>session/operation-router.ts\<close>. Identities are issued once and recognised; the invariant \<open>op_ok\<close> of an operation
    says what reaches its consumer, how often and in which order, and every step keeps it.

  \<^bold>\<open>Asynchrony.\<close> JavaScript runs without interruption between two awaits. Where several calls overlap (the ledger, the
  writer, operations), such a stretch is a step, and the theorems range over all sequences of steps.

  \<^bold>\<open>Bounds and fuel.\<close> No definition takes fuel: loops are structural recursions or have a measure (the binary search of
  \<open>Geometry\<close>, the readers of \<open>Cbor\<close>). Fixed-width fields are octet lists with their range checks written out, sequence
  numbers are integers with the source's bounds. The theorem on the writer bounds its loop by two settlements per queued
  message and three more: one for the seal and one for the send of each, and those in progress.

  \<^bold>\<open>Parameters.\<close> Code outside the repository's sources is an argument: SHA-256, HMAC, AES-GCM, Ed25519, the random source,
  the \<^verbatim>\<open>cborg\<close> package, \<^verbatim>\<open>String.normalize\<close>, the generated Unicode tables. What is relied on of them is a named
  hypothesis (\<open>authentic\<close>, \<open>aead_correct\<close>, \<open>signs_only\<close>, \<open>cborg_contract\<close>), and the witnesses instantiate them.

  \<^bold>\<open>Not modelled.\<close> User interface, diagnostics and tracing, and callbacks that only observe; browser I/O (sockets, data
  channels, storage, timers) and the code that composes it, including the session runtime, lanes, connectivity, scheduling
  by measured performance, jobs and output back ends, whose behaviour is that of the browser; cryptographic primitives;
  generated tables; and the Go and Rust programs of the sender and the relay.
\<close>

end
